(* ===== verification/Lse_Prelude.thy ===== *)
theory Lse_Prelude
  imports Main "HOL-Library.Word"
begin

text \<open>
  Shared vocabulary of the development: the machine integers of the C sources as words of
  their width, the faults a kernel path can end in, sequencing of fallible steps, and the
  generic lemmas about words, lists and invariants that the component theories use.

  Conventions.  A C \<open>u64\<close> or \<open>unsigned long\<close> (the module is built for 64-bit kernels) is a
  \<open>64 word\<close>, a \<open>u32\<close> or \<open>unsigned int\<close> a \<open>32 word\<close>, \<open>u16\<close> and \<open>u8\<close> likewise; arithmetic on
  them wraps as in C.  A C \<open>int\<close> is an \<open>int\<close> that is cut back to 32 bits where it is assigned from a
  wider value or incremented (the kernel is compiled with wrapping signed arithmetic).  A step that
  can crash the kernel returns \<open>fault + 'a\<close>: \<open>Inl\<close> is the crash.
\<close>

type_synonym u8 = "8 word"
type_synonym u16 = "16 word"
type_synonym u32 = "32 word"
type_synonym u64 = "64 word"

section \<open>Faults and sequencing\<close>

datatype fault =
    Div_By_Zero      \<comment> \<open>an integer division whose divisor is 0\<close>
  | Kernel_Bug       \<comment> \<open>\<open>BUG_ON\<close>\<close>
  | Null_Deref       \<comment> \<open>a field of a NULL pointer\<close>
  | Out_Of_Bounds    \<comment> \<open>an array access outside the array\<close>
  | Use_After_Free   \<comment> \<open>a field of a structure that has been freed\<close>

definition ebind :: "'e + 'a \<Rightarrow> ('a \<Rightarrow> 'e + 'b) \<Rightarrow> 'e + 'b" where
  "ebind m f = (case m of Inl e \<Rightarrow> Inl e | Inr x \<Rightarrow> f x)"

lemma ebind_simps [simp]:
  "ebind (Inl e) f = Inl e"
  "ebind (Inr x) f = f x"
  by (simp_all add: ebind_def)

lemma ebind_eq_Inr: "ebind m f = Inr y \<longleftrightarrow> (\<exists>x. m = Inr x \<and> f x = Inr y)"
  by (cases m) simp_all

lemma ebind_cong [fundef_cong]:
  "m = m' \<Longrightarrow> (\<And>x. m' = Inr x \<Longrightarrow> f x = g x) \<Longrightarrow> ebind m f = ebind m' g"
  by (cases m') simp_all

lemma ebind_assoc: "ebind (ebind m f) g = ebind m (\<lambda>x. ebind (f x) g)"
  by (cases m) simp_all

text \<open>A loop over a list of indices whose body may fault.\<close>

fun efold :: "('i \<Rightarrow> 's \<Rightarrow> fault + 's) \<Rightarrow> 'i list \<Rightarrow> 's \<Rightarrow> fault + 's" where
  "efold f [] s = Inr s"
| "efold f (i # is) s = ebind (f i s) (efold f is)"

lemma efold_invariant:
  assumes "\<And>i s s'. i \<in> set is \<Longrightarrow> P s \<Longrightarrow> f i s = Inr s' \<Longrightarrow> P s'"
    and "P s" and "efold f is s = Inr s'"
  shows "P s'"
  using assms by (induction "is" arbitrary: s) (auto simp: ebind_eq_Inr)

lemma efold_total:
  assumes "\<And>i s. i \<in> set is \<Longrightarrow> P s \<Longrightarrow> \<exists>s'. f i s = Inr s' \<and> P s'" and "P s"
  shows "\<exists>s'. efold f is s = Inr s' \<and> P s'"
  using assms
proof (induction "is" arbitrary: s)
  case (Cons i "is")
  then obtain s1 where "f i s = Inr s1" "P s1" by force
  with Cons show ?case by auto
qed simp

section \<open>Kernel arithmetic\<close>

text \<open>Constants of the kernel's headers that the sources use by name.\<close>

definition SCHED_CAPACITY_SHIFT :: nat where "SCHED_CAPACITY_SHIFT = 10"
definition SCHED_CAPACITY_SCALE :: nat where "SCHED_CAPACITY_SCALE = 1024"
definition NSEC_PER_SEC :: int where "NSEC_PER_SEC = 1000000000"
definition DEFAULT_PRIO :: int where "DEFAULT_PRIO = 120"

lemmas kernel_consts = SCHED_CAPACITY_SHIFT_def SCHED_CAPACITY_SCALE_def
  NSEC_PER_SEC_def DEFAULT_PRIO_def

text \<open>Assignment of a wider value to a C \<open>int\<close>: the low 32 bits, read as two's complement.\<close>

definition to_int :: "u64 \<Rightarrow> int" where
  "to_int x = sint (ucast x :: u32)"

definition wrap_int :: "int \<Rightarrow> int" where
  "wrap_int x = signed_take_bit 31 x"

text \<open>C's \<open>/\<close> on signed operands truncates towards zero.\<close>

definition cdiv :: "int \<Rightarrow> int \<Rightarrow> int" where
  "cdiv a b = sgn a * sgn b * (\<bar>a\<bar> div \<bar>b\<bar>)"

text \<open>\<open>div64_u64\<close> and \<open>do_div\<close>: unsigned division, a fault on a zero divisor.\<close>

definition div64_u64 :: "u64 \<Rightarrow> u64 \<Rightarrow> fault + u64" where
  "div64_u64 x y = (if y = 0 then Inl Div_By_Zero else Inr (x div y))"

text \<open>\<open>max_t\<close>, \<open>min_t\<close> and \<open>clamp_t\<close> at an unsigned type.\<close>

definition clamp_t :: "u32 \<Rightarrow> u32 \<Rightarrow> u32 \<Rightarrow> u32" where
  "clamp_t v lo hi = min (max v lo) hi"

text \<open>\<open>time_after(a, b)\<close> and \<open>time_before(a, b)\<close> of \<open>jiffies.h\<close>: wrap-around comparison.\<close>

definition time_after :: "u64 \<Rightarrow> u64 \<Rightarrow> bool" where
  "time_after a b \<longleftrightarrow> sint (b - a) < 0"

definition time_before :: "u64 \<Rightarrow> u64 \<Rightarrow> bool" where
  "time_before a b \<longleftrightarrow> time_after b a"

section \<open>Lemmas on words\<close>

lemma unat_u64_add: "unat (a :: u64) + unat b < 2 ^ 64 \<Longrightarrow> unat (a + b) = unat a + unat b"
  by (simp add: unat_word_ariths)

lemma unat_u64_mult: "unat (a :: u64) * unat b < 2 ^ 64 \<Longrightarrow> unat (a * b) = unat a * unat b"
  by (simp add: unat_word_ariths)

lemma unat_u64_sub: "(b :: u64) \<le> a \<Longrightarrow> unat (a - b) = unat a - unat b"
  by (simp add: unat_sub)

lemma unat_u64_of_u32 [simp]: "unat (ucast (x :: u32) :: u64) = unat x"
  by transfer (simp add: take_bit_eq_mod)

lemma u64_of_u32_eq_0 [simp]: "(ucast (x :: u32) :: u64) = 0 \<longleftrightarrow> x = 0"
  by (metis unat_0_iff unat_u64_of_u32)

lemma u32_bound: "unat (x :: u32) < 4294967296"
  using unsigned_less [of x] by simp

lemma u64_bound: "unat (x :: u64) < 18446744073709551616"
  using unsigned_less [of x] by simp

lemma unat_u32_of_u64: "unat (ucast (x :: u64) :: u32) = unat x mod 4294967296"
  by (simp add: unsigned_ucast_eq take_bit_eq_mod)

lemma unat_shift_right: "unat (drop_bit n (x :: u64)) = unat x div 2 ^ n"
  by (simp only: unat_drop_bit_eq) (rule drop_bit_eq_div)

lemma u64_le_iff: "(a :: u64) \<le> b \<longleftrightarrow> unat a \<le> unat b"
  by (rule word_le_nat_alt)

lemma u64_less_iff: "(a :: u64) < b \<longleftrightarrow> unat a < unat b"
  by (rule word_less_nat_alt)

lemma u32_le_iff: "(a :: u32) \<le> b \<longleftrightarrow> unat a \<le> unat b"
  by (rule word_le_nat_alt)

lemma u32_less_iff: "(a :: u32) < b \<longleftrightarrow> unat a < unat b"
  by (rule word_less_nat_alt)

lemmas word_orders = u64_le_iff u64_less_iff u32_le_iff u32_less_iff

lemma unat_max: "unat (max (a :: 'a::len word) b) = max (unat a) (unat b)"
  by (auto simp: max_def word_le_nat_alt)

lemma unat_min: "unat (min (a :: 'a::len word) b) = min (unat a) (unat b)"
  by (auto simp: min_def word_le_nat_alt)

lemma unat_less_uint: "unat (x :: 'a::len word) < 2 ^ n \<longleftrightarrow> uint x < 2 ^ n"
proof -
  have "unat x < 2 ^ n \<longleftrightarrow> int (unat x) < int (2 ^ n)" by (simp only: of_nat_less_iff)
  then show ?thesis by simp
qed
lemma sint_u64: "sint (x::u64) = (if unat x < 2^63 then int (unat x) else int (unat x) - 2^64)"
proof (cases "unat x < 2^63")
  case True
  then have "uint x < 2 ^ 63" by (simp only: unat_less_uint)
  moreover have "- (2 ^ 63) \<le> uint x" by (rule order_trans [of _ 0]) simp_all
  ultimately have "signed_take_bit 63 (uint x) = uint x"
    by (intro signed_take_bit_int_eq_self)
  then show ?thesis using True by (simp add: sint_uint)
next
  case False
  then have a: "\<not> uint x < 2 ^ 63" by (simp only: unat_less_uint) simp
  have b: "uint x < 2 ^ 64" using uint_lt2p[of x] by simp
  have "signed_take_bit 63 (uint x) = take_bit 64 (uint x + 2^63) - 2^63"
     by (simp add: signed_take_bit_eq_take_bit_shift)
  also have "take_bit 64 (uint x + 2^63) = uint x + 2^63 - 2^64"
  proof -
    have "(uint x + 2^63) mod 2^64 = ((uint x + 2^63 - 2^64) + 2^64) mod 2^64" by (simp add: add.commute)
    also have "\<dots> = (uint x + 2^63 - 2^64) mod 2^64" by (rule mod_add_self2)
    also have "\<dots> = uint x + 2^63 - 2^64" using a b by (intro mod_pos_pos_trivial) auto
    finally show ?thesis by (simp only: take_bit_eq_mod)
  qed
  finally show ?thesis using False by (simp add: sint_uint)
qed
lemma to_int_small: assumes "unat (x::u64) < 2^31" shows "to_int x = int (unat x)"
proof -
  have "uint x < 2 ^ 31" using assms by (simp only: unat_less_uint)
  moreover have "- (2 ^ 31) \<le> uint x" by (rule order_trans [of _ 0]) simp_all
  ultimately have a: "signed_take_bit 31 (uint x) = uint x"
    by (intro signed_take_bit_int_eq_self)
  have "take_bit 32 (uint x) = uint x"
    using \<open>uint x < 2 ^ 31\<close> by (simp add: take_bit_int_eq_self_iff)
  with a show ?thesis by (simp add: to_int_def sint_uint unsigned_ucast_eq)
qed

text \<open>A deadline \<open>b + d\<close> has passed at \<open>a\<close> exactly when more than \<open>d\<close> ticks lie between.\<close>

lemma time_after_elapsed:
  assumes "unat d < 2 ^ 63" and "unat (a - b) < 2 ^ 63"
  shows "time_after a (b + d) \<longleftrightarrow> unat d < unat (a - b)"
proof -
  let ?e = "a - b"
  have eq: "b + d - a = d - ?e" by simp
  show ?thesis
  proof (cases "unat d < unat ?e")
    case True
    then have "unat (d - ?e) = unat d + 2 ^ 64 - unat ?e"
      by (simp add: unat_sub_if' )
    then have "2 ^ 63 \<le> unat (d - ?e)" using assms by simp
    then have "sint (d - ?e) < 0" using unsigned_less [of "d - ?e"] 
      by (subst sint_u64) (simp add: not_less)
    with True show ?thesis by (simp only: time_after_def eq)
  next
    case False
    then have "unat (d - ?e) = unat d - unat ?e"
      by (simp add: unat_sub_if')
    then have "sint (d - ?e) = int (unat d - unat ?e)" using assms 
      by (subst sint_u64) simp
    then have "\<not> sint (d - ?e) < 0" by simp
    with False show ?thesis by (simp only: time_after_def eq)
  qed
qed

section \<open>Invariants of transition systems\<close>

text \<open>
  The shape shared by every component with state: initial states, steps, and a predicate that
  holds initially and is kept by every step, hence holds in every reachable state.  Components
  interpret the locale with their own initial predicate, step relation and invariant.
\<close>

locale invariant_system =
  fixes init :: "'s \<Rightarrow> bool"
    and step :: "'s \<Rightarrow> 's \<Rightarrow> bool"
    and inv :: "'s \<Rightarrow> bool"
  assumes inv_init: "init s \<Longrightarrow> inv s"
    and inv_step: "inv s \<Longrightarrow> step s t \<Longrightarrow> inv t"
begin

lemma inv_steps: "step\<^sup>*\<^sup>* s t \<Longrightarrow> inv s \<Longrightarrow> inv t"
  by (induction rule: rtranclp_induct) (auto intro: inv_step)

lemma inv_reachable: "init s \<Longrightarrow> step\<^sup>*\<^sup>* s t \<Longrightarrow> inv t"
  by (blast intro: inv_steps inv_init)

end

text \<open>An invariant on top of one that is there already: that a step keeps it may use the lower one.\<close>

locale layered_invariant = invariant_system +
  fixes extra :: "'s \<Rightarrow> bool"
  assumes extra_init: "init s \<Longrightarrow> extra s"
    and extra_step: "inv s \<Longrightarrow> extra s \<Longrightarrow> step s t \<Longrightarrow> extra t"

sublocale layered_invariant \<subseteq> both: invariant_system init step "\<lambda>s. inv s \<and> extra s"
  by unfold_locales (auto intro: inv_init inv_step extra_init extra_step)

section \<open>Refinement\<close>

text \<open>
  One transition system follows another: every step is matched by steps of the abstract one, and
  the states stay related.  What is invariant of the abstract system then holds of the concrete one.
\<close>

locale simulation =
  fixes step :: "'s \<Rightarrow> 's \<Rightarrow> bool"
    and astep :: "'a \<Rightarrow> 'a \<Rightarrow> bool"
    and rel :: "'s \<Rightarrow> 'a \<Rightarrow> bool"
  assumes sim: "rel s a \<Longrightarrow> step s t \<Longrightarrow> \<exists>b. astep\<^sup>*\<^sup>* a b \<and> rel t b"
begin

lemma sim_steps:
  assumes "step\<^sup>*\<^sup>* s t" "rel s a" shows "\<exists>b. astep\<^sup>*\<^sup>* a b \<and> rel t b"
  using assms
proof (induction rule: rtranclp_induct)
  case (step t u)
  then obtain b where "astep\<^sup>*\<^sup>* a b" "rel t b" by blast
  with sim [OF this(2) step(2)] show ?case by (blast intro: rtranclp_trans)
qed blast

end

locale simulated_invariant = simulation step astep rel + abs: invariant_system ainit astep ainv
  for step :: "'s \<Rightarrow> 's \<Rightarrow> bool" and astep :: "'a \<Rightarrow> 'a \<Rightarrow> bool" and rel ainit ainv +
  fixes init :: "'s \<Rightarrow> bool"
  assumes sim_init: "init s \<Longrightarrow> \<exists>a. ainit a \<and> rel s a"

sublocale simulated_invariant \<subseteq> concrete: invariant_system init step "\<lambda>s. \<exists>a. rel s a \<and> ainv a"
proof unfold_locales
  fix s t
  show "\<exists>a. rel s a \<and> ainv a" if "init s" using sim_init [OF that] abs.inv_init by blast
  show "\<exists>a. rel t a \<and> ainv a" if "\<exists>a. rel s a \<and> ainv a" "step s t"
    using that sim abs.inv_steps by blast
qed

text \<open>The operations of a data structure against those of what it stands for.\<close>

locale refinement_map =
  fixes run :: "'e \<Rightarrow> 's \<Rightarrow> 's"
    and arun :: "'e \<Rightarrow> 'a \<Rightarrow> 'a"
    and rel :: "'s \<Rightarrow> 'a \<Rightarrow> bool"
  assumes rel_run: "rel s a \<Longrightarrow> rel (run e s) (arun e a)"
begin

lemma rel_fold: "rel s a \<Longrightarrow> rel (fold run es s) (fold arun es a)"
  by (induction es arbitrary: s a) (auto intro: rel_run)

end

sublocale refinement_map \<subseteq> simulation "\<lambda>s t. \<exists>e. t = run e s" "\<lambda>a b. \<exists>e. b = arun e a" rel
  by unfold_locales (blast intro: rel_run)

end
