(* ===== verification/Lse_Types.thy ===== *)
theory Lse_Types
  imports Lse_Prelude
begin

text \<open>
  The data of \<open>lse_main.h\<close>: its constants, enumerations and structures, and the parts of the
  kernel's own structures (\<open>task_struct\<close>, \<open>rq\<close>, \<open>cpufreq_policy\<close>) that the module reads.

  Pointers to tasks, clusters and CPUs are natural numbers (the identity of the object); a pointer
  that may be NULL is an option.  Accessors of the kernel whose code is not part of the module
  (\<open>is_idle_task\<close>, \<open>task_nice\<close>, \<open>dl_task\<close>, \<open>is_migration_disabled\<close>, \<open>task_on_rq_queued\<close>,
  \<open>task_cpu\<close>) are fields of \<open>task_struct\<close>: what the accessor returns for that task.  Functions of
  the kernel that take further arguments are fields of the record \<open>kernel\<close>, an argument of every
  definition that calls one.
\<close>

section \<open>Constants and enumerations\<close>

definition LSE_DEBUG_SYSTRACE :: u32 where "LSE_DEBUG_SYSTRACE = 2"
definition LSE_DEBUG_PANIC :: u32 where "LSE_DEBUG_PANIC = 8"

definition WINDOW_STATS_RECENT :: int where "WINDOW_STATS_RECENT = 0"
definition WINDOW_STATS_MAX :: int where "WINDOW_STATS_MAX = 1"
definition WINDOW_STATS_MAX_RECENT_AVG :: int where "WINDOW_STATS_MAX_RECENT_AVG = 2"
definition WINDOW_STATS_AVG :: int where "WINDOW_STATS_AVG = 3"
definition WINDOW_STATS_INVALID_POLICY :: int where "WINDOW_STATS_INVALID_POLICY = 4"

lemmas window_stats_policies = WINDOW_STATS_RECENT_def WINDOW_STATS_MAX_def
  WINDOW_STATS_MAX_RECENT_AVG_def WINDOW_STATS_AVG_def WINDOW_STATS_INVALID_POLICY_def

definition RAVG_HIST_SIZE :: nat where "RAVG_HIST_SIZE = 5"
definition DEFAULT_SCHED_RAVG_WINDOW :: u32 where "DEFAULT_SCHED_RAVG_WINDOW = 8000000"
definition MAX_LSE_CLUSTERS :: int where "MAX_LSE_CLUSTERS = 4"

datatype task_event =
    PUT_PREV_TASK | PICK_NEXT_TASK | TASK_WAKE | TASK_MIGRATE | TASK_UPDATE | IRQ_UPDATE

datatype lse_task_class =
    LSE_TASK_CLASS_IDLE | LSE_TASK_CLASS_BACKGROUND | LSE_TASK_CLASS_NORMAL
  | LSE_TASK_CLASS_FOREGROUND | LSE_TASK_CLASS_RT | LSE_TASK_CLASS_DEADLINE

text \<open>The kernel's scheduling policies.\<close>

datatype sched_policy =
    SCHED_NORMAL | SCHED_FIFO | SCHED_RR | SCHED_BATCH | SCHED_IDLE | SCHED_DEADLINE

section \<open>Structures of the kernel, as far as the module reads them\<close>

record task_struct =
  ts_id :: nat
  is_idle_task :: bool
  policy :: sched_policy
  prio :: int
  task_nice :: int
  dl_task :: bool
  task_on_rq_queued :: bool
  nr_cpus_allowed :: int
  is_migration_disabled :: bool
  cpus_ptr :: "nat list"
  task_cpu :: nat

record rq =
  rq_cpu :: nat
  rq_curr :: nat
  rq_idle :: nat
  rq_locked :: bool
  rq_clock :: u64
  rq_clock_updated :: bool

record cpufreq_policy =
  pol_cpu :: nat
  pol_cpus :: "nat list"
  related_cpus :: "nat list"
  cpuinfo_min_freq :: u32
  cpuinfo_max_freq :: u32
  pol_min :: u32
  pol_max :: u32
  pol_cur :: u32
  fast_switch_enabled :: bool
  dvfs_possible_from_any_cpu :: bool

record kernel =
  nr_cpu_ids :: nat
  cpu_possible :: "nat list"
  cpu_online :: "nat \<Rightarrow> bool"
  arch_scale_cpu_capacity :: "nat \<Rightarrow> u64"
  topology_cluster_id :: "nat \<Rightarrow> int"
  cpufreq_driver_resolve_freq :: "cpufreq_policy \<Rightarrow> u32 \<Rightarrow> u32"
  rt_prio :: "int \<Rightarrow> bool"
  cpumask_any :: "nat list \<Rightarrow> nat"
  msecs_to_jiffies :: "u32 \<Rightarrow> u64"

section \<open>Structures of the module\<close>

text \<open>
  \<open>struct lse_task_struct\<close>.  The list node \<open>dsq_node\<close> is not a field: which queue holds a task is
  the state of the queues (\<open>Lse_Dsq\<close>).
\<close>

record lse_task_struct =
  lts_task :: nat
  mark_start :: u64
  lts_window_start :: u64
  lts_sum :: u32
  sum_history :: "u32 list"
  cidx :: nat
  demand :: u32
  demand_scaled :: u16
  task_class :: lse_task_class
  boost_pct :: u16
  priority_hint :: u8
  on_dsq :: bool

record lse_sched_cluster =
  cl_cpus :: "nat list"
  cl_id :: int
  max_possible_capacity :: int
  cl_cur_freq :: u32
  cl_max_freq :: u32
  cl_min_freq :: u32
  capacity_margin :: u32
  sd_capacity_margin :: u32
  freq_init_done :: bool

record lse_rq =
  lrq_cluster :: "nat option"
  freq_domain_cpumask :: "nat list"
  window_start :: u64
  latest_clock :: u64
  prev_window_size :: u32
  task_exec_scale :: u64
  prev_runnable_sum :: u64
  curr_runnable_sum :: u64

section \<open>Macros and inline functions\<close>

text \<open>\<open>LSE_BUG\<close>: a message, and a crash when \<open>dump_info\<close> has the panic bit.\<close>

definition lse_bug :: "u32 \<Rightarrow> fault + unit" where
  "lse_bug dump = (if and dump LSE_DEBUG_PANIC \<noteq> 0 then Inl Kernel_Bug else Inr ())"

text \<open>
  \<open>DIV64_U64_ROUNDUP(X, Y)\<close> is \<open>div64_u64((X) + (Y - 1), Y)\<close>; \<open>Y - 1\<close> is computed at the type of
  \<open>Y\<close>, an \<open>unsigned int\<close> in most uses and a \<open>u64\<close> in one.
\<close>

definition div64_roundup_u32 :: "u64 \<Rightarrow> u32 \<Rightarrow> fault + u64" where
  "div64_roundup_u32 x y = div64_u64 (x + ucast (y - 1)) (ucast y)"

definition div64_roundup_u64 :: "u64 \<Rightarrow> u64 \<Rightarrow> fault + u64" where
  "div64_roundup_u64 x y = div64_u64 (x + (y - 1)) y"

text \<open>\<open>util = runtime * 1024 / window_size\<close>, computed as \<open>runtime / (window_size >> 10)\<close>.\<close>

definition lse_scale_time_to_util :: "u32 \<Rightarrow> u64 \<Rightarrow> fault + u64" where
  "lse_scale_time_to_util divisor d = div64_u64 d (ucast divisor)"

definition lse_fixup_window_dep :: "u32 \<Rightarrow> u32" where
  "lse_fixup_window_dep window = drop_bit SCHED_CAPACITY_SHIFT window"

section \<open>Rounding lemmas\<close>

lemma div64_u64_Inr: "y \<noteq> 0 \<Longrightarrow> div64_u64 x y = Inr (x div y)"
  by (simp add: div64_u64_def)

lemma lse_bug_quiet: "and dump LSE_DEBUG_PANIC = 0 \<Longrightarrow> lse_bug dump = Inr ()"
  by (simp add: lse_bug_def)

lemma unat_fixup: "unat (lse_fixup_window_dep w) = unat w div 1024"
proof -
  have "unat (drop_bit 10 w) = drop_bit 10 (unat w)" by (rule unat_drop_bit_eq)
  also have "\<dots> = unat w div 2 ^ 10" by (rule drop_bit_eq_div)
  finally show ?thesis by (simp add: lse_fixup_window_dep_def SCHED_CAPACITY_SHIFT_def)
qed

lemma nat_ceil_div_le:
  assumes "(a :: nat) \<le> b * c" "0 < c" shows "(a + (c - 1)) div c \<le> b"
proof -
  have "a + (c - 1) < (b + 1) * c" using assms by (simp add: algebra_simps)
  then have "(a + (c - 1)) div c < b + 1" using assms(2) by (simp add: div_less_iff_less_mult)
  then show ?thesis by simp
qed

lemma div64_roundup_u32_bound:
  assumes "0 < unat y" "unat x \<le> b * unat y" "b \<le> 4294967296"
  shows "\<exists>q. div64_roundup_u32 x y = Inr q \<and> unat q \<le> b"
proof -
  have y1: "unat (y - 1) = unat y - 1" using assms(1) by (simp add: unat_sub word_le_nat_alt)
  have "b * unat y \<le> 4294967296 * 4294967295"
    using assms(3) u32_bound [of y] by (intro mult_mono) auto
  then have "unat x + unat (ucast (y - 1) :: u64) < 2 ^ 64"
    using assms(2) u32_bound [of y] by (simp add: y1)
  then have s: "unat (x + ucast (y - 1)) = unat x + (unat y - 1)"
    by (simp add: unat_u64_add y1)
  have nz: "(ucast y :: u64) \<noteq> 0"
  proof
    assume "(ucast y :: u64) = 0"
    then have "unat (ucast y :: u64) = 0" by simp
    then show False using assms(1) by simp
  qed
  have "unat ((x + ucast (y - 1)) div (ucast y :: u64)) = (unat x + (unat y - 1)) div unat y"
    by (simp add: unat_div s)
  also have "\<dots> \<le> b" by (rule nat_ceil_div_le [OF assms(2,1)])
  finally show ?thesis using nz by (simp add: div64_roundup_u32_def div64_u64_def)
qed

section \<open>A machine for the examples\<close>

text \<open>
  The instances of the properties need a value for what the kernel provides: eight CPUs in the
  clusters 0 (CPUs 0 to 3), 1 (4 to 6) and 2 (7), 250 ticks per second, frequencies resolved as
  they are.
\<close>

definition demo_kernel :: kernel where
  "demo_kernel =
     \<lparr>nr_cpu_ids = 8, cpu_possible = [0..<8], cpu_online = (\<lambda>_. True),
      arch_scale_cpu_capacity = (\<lambda>cpu. if cpu < 4 then 400 else if cpu < 7 then 800 else 1024),
      topology_cluster_id = (\<lambda>cpu. if cpu < 4 then 0 else if cpu < 7 then 1 else 2),
      cpufreq_driver_resolve_freq = (\<lambda>_ freq. freq), rt_prio = (\<lambda>p. p < 100),
      cpumask_any = (\<lambda>m. case m of [] \<Rightarrow> 8 | c # _ \<Rightarrow> c),
      msecs_to_jiffies = (\<lambda>ms. (ucast ms + 3) div 4)\<rparr>"

text \<open>An ordinary task, by its identity, and the run queue of a CPU with a current task.\<close>

definition demo_task :: "nat \<Rightarrow> task_struct" where
  "demo_task t =
     \<lparr>ts_id = t, is_idle_task = (t = 0), policy = SCHED_NORMAL, prio = 120, task_nice = 0,
      dl_task = False, task_on_rq_queued = True, nr_cpus_allowed = 8,
      is_migration_disabled = False, cpus_ptr = [0..<8], task_cpu = 0\<rparr>"

definition demo_rq :: "nat \<Rightarrow> nat \<Rightarrow> rq" where
  "demo_rq cpu c =
     \<lparr>rq_cpu = cpu, rq_curr = c, rq_idle = 0, rq_locked = True, rq_clock = 0,
      rq_clock_updated = True\<rparr>"

definition demo_lts :: "nat \<Rightarrow> lse_task_struct" where
  "demo_lts t =
     \<lparr>lts_task = t, mark_start = 0, lts_window_start = 0, lts_sum = 0,
      sum_history = replicate RAVG_HIST_SIZE 0, cidx = 0, demand = 0, demand_scaled = 0,
      task_class = LSE_TASK_CLASS_NORMAL, boost_pct = 1024, priority_hint = 120, on_dsq = False\<rparr>"

lemmas demo_defs = demo_kernel_def demo_task_def demo_rq_def demo_lts_def RAVG_HIST_SIZE_def

end
