(* ===== verification/Lse_Clock.thy ===== *)
theory Lse_Clock
  imports Lse_Types
begin

text \<open>
  \<open>lse_main.c\<close>: the module's clock.  While the system is suspended the clock is frozen at the
  reading \<open>lse_suspend\<close> took; otherwise it is the kernel's \<open>sched_clock()\<close>, whose current reading
  is an argument.  The theory shows that the readings never go backwards over any sequence of
  reads, suspends and resumes, as long as \<open>sched_clock()\<close> does not.
\<close>

record clock_state =
  lse_clock_suspended :: bool
  lse_clock_last :: u64

definition init_clock :: clock_state where
  "init_clock = \<lparr>lse_clock_suspended = False, lse_clock_last = 0\<rparr>"

definition lse_sched_clock :: "clock_state \<Rightarrow> u64 \<Rightarrow> u64" where
  "lse_sched_clock c sched_clock =
     (if lse_clock_suspended c then lse_clock_last c else sched_clock)"

definition lse_resume :: "clock_state \<Rightarrow> clock_state" where
  "lse_resume c = c\<lparr>lse_clock_suspended := False\<rparr>"

definition lse_suspend :: "clock_state \<Rightarrow> u64 \<Rightarrow> clock_state" where
  "lse_suspend c sched_clock = c\<lparr>lse_clock_last := sched_clock, lse_clock_suspended := True\<rparr>"

text \<open>A history of the clock: what happened, each with the reading of \<open>sched_clock()\<close> then.\<close>

datatype clock_event = Clock_Read u64 | Clock_Suspend u64 | Clock_Resume u64

fun event_time :: "clock_event \<Rightarrow> u64" where
  "event_time (Clock_Read t) = t"
| "event_time (Clock_Suspend t) = t"
| "event_time (Clock_Resume t) = t"

fun clock_readings :: "clock_state \<Rightarrow> clock_event list \<Rightarrow> u64 list" where
  "clock_readings c [] = []"
| "clock_readings c (Clock_Read t # es) = lse_sched_clock c t # clock_readings c es"
| "clock_readings c (Clock_Suspend t # es) = clock_readings (lse_suspend c t) es"
| "clock_readings c (Clock_Resume t # es) = clock_readings (lse_resume c) es"

lemmas clock_defs = lse_sched_clock_def lse_resume_def lse_suspend_def init_clock_def

text \<open>No reading is ahead of the hardware or behind the frozen value.\<close>

lemma clock_readings_bounds:
  assumes "sorted (map event_time es)" "\<forall>e \<in> set es. t0 \<le> event_time e"
    and "lse_clock_suspended c \<Longrightarrow> lse_clock_last c \<le> t0"
    and "r \<in> set (clock_readings c es)"
  shows "(if lse_clock_suspended c then lse_clock_last c else t0) \<le> r"
  using assms
proof (induction c es arbitrary: t0 rule: clock_readings.induct)
  case (2 c t es)
  then have "(if lse_clock_suspended c then lse_clock_last c else t0) \<le> r"
    if "r \<in> set (clock_readings c es)" using that by (intro "2.IH") auto
  with 2 show ?case by (auto simp: clock_defs split: if_splits)
next
  case (3 c t es)
  have "(if lse_clock_suspended (lse_suspend c t) then lse_clock_last (lse_suspend c t) else t) \<le> r"
    using 3 by (intro "3.IH") (auto simp: clock_defs)
  with 3 show ?case by (auto simp: clock_defs split: if_splits intro: order_trans)
next
  case (4 c t es)
  have "(if lse_clock_suspended (lse_resume c) then lse_clock_last (lse_resume c) else t) \<le> r"
    using 4 by (intro "4.IH") (auto simp: clock_defs)
  with 4 show ?case by (auto simp: clock_defs split: if_splits intro: order_trans)
qed simp

lemma clock_readings_sorted:
  assumes "sorted (map event_time es)"
    and "lse_clock_suspended c \<Longrightarrow> \<forall>e \<in> set es. lse_clock_last c \<le> event_time e"
  shows "sorted (clock_readings c es)"
  using assms
proof (induction c es rule: clock_readings.induct)
  case (2 c t es)
  have "sorted (clock_readings c es)" using 2 by auto
  moreover have "lse_sched_clock c t \<le> r" if r: "r \<in> set (clock_readings c es)" for r
    using clock_readings_bounds [OF _ _ _ r, of t] 2 by (auto simp: clock_defs)
  ultimately show ?case by simp
qed (auto simp: clock_defs)

section \<open>Properties\<close>

text \<open>As long as \<open>sched_clock()\<close> does not go backwards, the readings of \<open>lse_sched_clock\<close> do not
  either, over every sequence of reads, suspends and resumes: the frozen reading of a suspend is
  never ahead of the hardware and never behind an earlier reading.\<close>

theorem clock_monotone:
  assumes "sorted (map event_time es)"
    and "lse_clock_suspended c \<Longrightarrow> \<forall>e \<in> set es. lse_clock_last c \<le> event_time e"
  shows "sorted (clock_readings c es)"
  using assms by (rule clock_readings_sorted)

theorem clock_monotone_witness:
  "sorted (clock_readings (lse_suspend init_clock 2)
     [Clock_Read 5, Clock_Resume 6, Clock_Read 7, Clock_Suspend 8, Clock_Read 9])"
  by (rule clock_monotone) (simp_all add: clock_defs)

end
