(* ===== verification/Lse_Monitor.thy ===== *)
theory Lse_Monitor
  imports Lse_Types
begin

text \<open>
  \<open>lse_monitor.c\<close>: heartbeat, watchdog and statistics.  The state is the file's globals; the
  heartbeat timer and the watchdog's delayed work are the expiry time they are pending for, or
  \<open>None\<close>.  \<open>jiffies\<close> is an argument of every operation that reads it, and the warnings
  \<open>lse_monitor_dump_state\<close> prints are a log.  Of the kernel's timers and work queues the model uses
  their documented behaviour: \<open>mod_timer\<close> sets the expiry of a timer whether or not it is pending,
  \<open>queue_delayed_work\<close> does nothing when the work is already pending, and the deleting and
  cancelling calls leave nothing pending.
\<close>

definition LSE_HEARTBEAT_PERIOD_MS :: u32 where "LSE_HEARTBEAT_PERIOD_MS = 1000"
definition LSE_WATCHDOG_TIMEOUT_MS :: u32 where "LSE_WATCHDOG_TIMEOUT_MS = 30000"

section \<open>State\<close>

datatype monitor_reason = Heartbeat_Stalled | Watchdog_Timeout

text \<open>What one line of \<open>lse_monitor_dump_state\<close> reports of the monitor's own state.\<close>

record monitor_dump =
  dump_reason :: monitor_reason
  dump_heartbeat :: int
  dump_updates :: u64
  dump_rollovers :: u64
  dump_ticks :: u64
  dump_hb_age :: u64
  dump_wd_age :: u64

record monitor =
  slim_stats :: int
  heartbeat :: int
  heartbeat_enable :: int
  watchdog_enable :: int
  lse_watchdog_timeout :: u64
  lse_watchdog_timestamp :: u64
  lse_heartbeat_last_touch :: u64
  lse_watchdog_work :: "u64 option"
  lse_heartbeat_timer :: "u64 option"
  lse_proc_root :: bool
  lse_monitor_inited :: bool
  lse_stats_update_cnt :: u64
  lse_stats_rollover_cnt :: u64
  lse_stats_tick_cnt :: u64
  monitor_log :: "monitor_dump list"

section \<open>Statistics\<close>

text \<open>The switch is read on every increment.\<close>

definition lse_stats_inc :: "int \<Rightarrow> u64 \<Rightarrow> u64" where
  "lse_stats_inc stats cnt = (if stats \<noteq> 0 then cnt + 1 else cnt)"

definition lse_stats_record_update :: "monitor \<Rightarrow> monitor" where
  "lse_stats_record_update m = m\<lparr>lse_stats_update_cnt := lse_stats_inc (slim_stats m) (lse_stats_update_cnt m)\<rparr>"

definition lse_stats_record_rollover :: "monitor \<Rightarrow> monitor" where
  "lse_stats_record_rollover m =
     m\<lparr>lse_stats_rollover_cnt := lse_stats_inc (slim_stats m) (lse_stats_rollover_cnt m)\<rparr>"

definition lse_stats_record_tick :: "monitor \<Rightarrow> monitor" where
  "lse_stats_record_tick m = m\<lparr>lse_stats_tick_cnt := lse_stats_inc (slim_stats m) (lse_stats_tick_cnt m)\<rparr>"

definition lse_monitor_reset_stats :: "u64 \<Rightarrow> monitor \<Rightarrow> monitor" where
  "lse_monitor_reset_stats jiffies m =
     m\<lparr>lse_stats_update_cnt := 0, lse_stats_rollover_cnt := 0, lse_stats_tick_cnt := 0,
       heartbeat := 0, lse_heartbeat_last_touch := jiffies, lse_watchdog_timestamp := jiffies\<rparr>"

text \<open>The handler of writes to \<open>/proc/lunar_sched_ext/reset_stats\<close>.\<close>

definition lse_proc_stats_reset_write :: "u64 \<Rightarrow> u64 \<Rightarrow> monitor \<Rightarrow> u64 \<times> monitor" where
  "lse_proc_stats_reset_write count jiffies m =
     (count, if count \<noteq> 0 then lse_monitor_reset_stats jiffies m else m)"

definition lse_monitor_dump_state :: "monitor_reason \<Rightarrow> u64 \<Rightarrow> monitor \<Rightarrow> monitor" where
  "lse_monitor_dump_state reason jiffies m =
     m\<lparr>monitor_log := monitor_log m @
         [\<lparr>dump_reason = reason, dump_heartbeat = heartbeat m,
           dump_updates = lse_stats_update_cnt m, dump_rollovers = lse_stats_rollover_cnt m,
           dump_ticks = lse_stats_tick_cnt m,
           dump_hb_age = jiffies - lse_heartbeat_last_touch m,
           dump_wd_age = jiffies - lse_watchdog_timestamp m\<rparr>]\<rparr>"

fun lse_task_class_name :: "lse_task_class \<Rightarrow> string" where
  "lse_task_class_name LSE_TASK_CLASS_IDLE = ''idle''"
| "lse_task_class_name LSE_TASK_CLASS_BACKGROUND = ''background''"
| "lse_task_class_name LSE_TASK_CLASS_NORMAL = ''normal''"
| "lse_task_class_name LSE_TASK_CLASS_FOREGROUND = ''foreground''"
| "lse_task_class_name LSE_TASK_CLASS_RT = ''rt''"
| "lse_task_class_name LSE_TASK_CLASS_DEADLINE = ''deadline''"

section \<open>Heartbeat and watchdog\<close>

definition lse_monitor_touch :: "u64 \<Rightarrow> monitor \<Rightarrow> monitor" where
  "lse_monitor_touch jiffies m =
     (let m = m\<lparr>heartbeat := 1, lse_watchdog_timestamp := jiffies\<rparr> in
      if jiffies \<noteq> lse_heartbeat_last_touch m
      then (lse_stats_record_tick m)\<lparr>lse_heartbeat_last_touch := jiffies\<rparr>
      else m)"

definition mod_heartbeat_timer :: "u64 \<Rightarrow> monitor \<Rightarrow> monitor" where
  "mod_heartbeat_timer expires m = m\<lparr>lse_heartbeat_timer := Some expires\<rparr>"

definition queue_watchdog_work :: "u64 \<Rightarrow> monitor \<Rightarrow> monitor" where
  "queue_watchdog_work expires m =
     (if lse_watchdog_work m = None then m\<lparr>lse_watchdog_work := Some expires\<rparr> else m)"

text \<open>The timer's callback; the kernel has taken the timer off its list before it runs.\<close>

definition lse_heartbeat_timer_fn :: "kernel \<Rightarrow> u64 \<Rightarrow> monitor \<Rightarrow> monitor" where
  "lse_heartbeat_timer_fn k jiffies m =
     (if heartbeat_enable m = 0 then m
      else
        let m = (if heartbeat m \<noteq> 0 then m\<lparr>heartbeat := 0\<rparr>
                 else lse_monitor_dump_state Heartbeat_Stalled jiffies m)
        in mod_heartbeat_timer (jiffies + msecs_to_jiffies k LSE_HEARTBEAT_PERIOD_MS) m)"

definition lse_watchdog_workfn :: "u64 \<Rightarrow> monitor \<Rightarrow> monitor" where
  "lse_watchdog_workfn jiffies m =
     (let timeout = lse_watchdog_timeout m in
      if watchdog_enable m = 0 then m
      else
        let m = (if time_after jiffies (lse_watchdog_timestamp m + timeout)
                 then lse_monitor_dump_state Watchdog_Timeout jiffies m else m)
        in queue_watchdog_work (jiffies + max 1 (timeout div 2)) m)"

definition lse_monitor_sync :: "kernel \<Rightarrow> u64 \<Rightarrow> monitor \<Rightarrow> monitor" where
  "lse_monitor_sync k jiffies m =
     (if \<not> lse_monitor_inited m then m
      else
        let m = (if heartbeat_enable m \<noteq> 0
                 then mod_heartbeat_timer (jiffies + msecs_to_jiffies k LSE_HEARTBEAT_PERIOD_MS) m
                 else m\<lparr>lse_heartbeat_timer := None\<rparr>)
        in if watchdog_enable m \<noteq> 0
           then queue_watchdog_work (jiffies + max 1 (lse_watchdog_timeout m div 2)) m
           else m\<lparr>lse_watchdog_work := None\<rparr>)"

text \<open>\<open>proc_mkdir\<close> may fail, which is the argument \<open>mkdir_ok\<close>.\<close>

definition lse_monitor_proc_init :: "bool \<Rightarrow> monitor \<Rightarrow> monitor" where
  "lse_monitor_proc_init mkdir_ok m =
     (if lse_proc_root m then m else if mkdir_ok then m\<lparr>lse_proc_root := True\<rparr> else m)"

definition lse_monitor_init :: "kernel \<Rightarrow> bool \<Rightarrow> u64 \<Rightarrow> monitor \<Rightarrow> monitor" where
  "lse_monitor_init k mkdir_ok jiffies m =
     (if lse_monitor_inited m then m
      else
        let m = m\<lparr>lse_watchdog_timeout := msecs_to_jiffies k LSE_WATCHDOG_TIMEOUT_MS,
                  lse_heartbeat_timer := None, lse_watchdog_work := None,
                  lse_heartbeat_last_touch := jiffies, lse_watchdog_timestamp := jiffies\<rparr>;
            m = (lse_monitor_proc_init mkdir_ok m)\<lparr>lse_monitor_inited := True\<rparr>
        in lse_monitor_sync k jiffies m)"

section \<open>The sysctl handler of the two toggles\<close>

text \<open>
  \<open>lse_proc_monitor_toggle_update\<close> serves \<open>heartbeat_enable\<close> and \<open>watchdog_enable\<close>.  What
  \<open>proc_dointvec\<close> did with the user's buffer is an argument: \<open>Inl\<close> its error, \<open>Inr\<close> the value it
  left in \<open>val\<close>.
\<close>

datatype monitor_toggle = Toggle_Heartbeat_Enable | Toggle_Watchdog_Enable

fun toggle_value :: "monitor_toggle \<Rightarrow> monitor \<Rightarrow> int" where
  "toggle_value Toggle_Heartbeat_Enable m = heartbeat_enable m"
| "toggle_value Toggle_Watchdog_Enable m = watchdog_enable m"

fun set_toggle :: "monitor_toggle \<Rightarrow> int \<Rightarrow> monitor \<Rightarrow> monitor" where
  "set_toggle Toggle_Heartbeat_Enable v m = m\<lparr>heartbeat_enable := v\<rparr>"
| "set_toggle Toggle_Watchdog_Enable v m = m\<lparr>watchdog_enable := v\<rparr>"

definition lse_proc_monitor_toggle_update ::
  "kernel \<Rightarrow> u64 \<Rightarrow> monitor_toggle \<Rightarrow> bool \<Rightarrow> int + int \<Rightarrow> monitor \<Rightarrow> int \<times> monitor" where
  "lse_proc_monitor_toggle_update k jiffies table write dointvec m =
     (case dointvec of
        Inl ret \<Rightarrow> (ret, m)
      | Inr val \<Rightarrow>
          (0, if write \<and> val \<noteq> toggle_value table m
              then lse_monitor_sync k jiffies (set_toggle table val m) else m))"

section \<open>Steps of the monitor\<close>

text \<open>
  Everything that changes the monitor after its initialisation: ticks and shadow ticks touch it,
  the statistics hooks count, the pending timer or work fires, and user space writes a sysctl or
  resets the statistics.  Each step may happen at any value of \<open>jiffies\<close>.
\<close>

inductive monitor_step :: "kernel \<Rightarrow> monitor \<Rightarrow> monitor \<Rightarrow> bool" for k where
  touch: "monitor_step k m (lse_monitor_touch jiffies m)"
| update: "monitor_step k m (lse_stats_record_update m)"
| rollover: "monitor_step k m (lse_stats_record_rollover m)"
| timer: "lse_heartbeat_timer m = Some e \<Longrightarrow>
    monitor_step k m (lse_heartbeat_timer_fn k jiffies (m\<lparr>lse_heartbeat_timer := None\<rparr>))"
| work: "lse_watchdog_work m = Some e \<Longrightarrow>
    monitor_step k m (lse_watchdog_workfn jiffies (m\<lparr>lse_watchdog_work := None\<rparr>))"
| toggle: "monitor_step k m (snd (lse_proc_monitor_toggle_update k jiffies table True io m))"
| set_stats: "monitor_step k m (m\<lparr>slim_stats := v\<rparr>)"
| set_heartbeat: "monitor_step k m (m\<lparr>heartbeat := v\<rparr>)"
| reset: "monitor_step k m (snd (lse_proc_stats_reset_write count jiffies m))"
| init: "monitor_step k m (lse_monitor_init k mkdir_ok jiffies m)"

lemmas monitor_ops = lse_stats_inc_def lse_stats_record_update_def lse_stats_record_rollover_def
  lse_stats_record_tick_def lse_monitor_reset_stats_def lse_proc_stats_reset_write_def
  lse_monitor_dump_state_def lse_monitor_touch_def mod_heartbeat_timer_def
  queue_watchdog_work_def lse_heartbeat_timer_fn_def lse_watchdog_workfn_def
  lse_monitor_sync_def lse_monitor_proc_init_def lse_monitor_init_def
  lse_proc_monitor_toggle_update_def

definition monitor_started :: "kernel \<Rightarrow> monitor \<Rightarrow> bool" where
  "monitor_started k m \<longleftrightarrow>
     (\<exists>m0 ok j. \<not> lse_monitor_inited m0 \<and> m = lse_monitor_init k ok j m0)"

text \<open>The heartbeat timer is pending exactly while the heartbeat is enabled, and likewise the
  watchdog's work: no step loses a timer that should run or leaves one that should not.\<close>

definition monitor_armed :: "monitor \<Rightarrow> bool" where
  "monitor_armed m \<longleftrightarrow> lse_monitor_inited m \<and>
     (lse_heartbeat_timer m \<noteq> None \<longleftrightarrow> heartbeat_enable m \<noteq> 0) \<and>
     (lse_watchdog_work m \<noteq> None \<longleftrightarrow> watchdog_enable m \<noteq> 0)"

lemma monitor_init_armed:
  "\<not> lse_monitor_inited m \<Longrightarrow> monitor_armed (lse_monitor_init k ok j m)"
  by (auto simp: monitor_ops monitor_armed_def Let_def)

lemma monitor_toggle_armed:
  "monitor_armed m \<Longrightarrow> monitor_armed (snd (lse_proc_monitor_toggle_update k j t True io m))"
  by (cases t) (auto simp: monitor_ops monitor_armed_def Let_def split: sum.splits)

lemma monitor_step_armed: "monitor_step k m m' \<Longrightarrow> monitor_armed m \<Longrightarrow> monitor_armed m'"
proof (induction rule: monitor_step.induct)
  case toggle
  then show ?case by (rule monitor_toggle_armed)
qed (auto simp: monitor_ops monitor_armed_def Let_def)

interpretation monitor_sys: invariant_system "monitor_started k" "monitor_step k" monitor_armed
  for k
proof unfold_locales
  fix s t
  show "monitor_started k s \<Longrightarrow> monitor_armed s"
    by (auto simp: monitor_started_def monitor_init_armed)
  show "monitor_armed s \<Longrightarrow> monitor_step k s t \<Longrightarrow> monitor_armed t"
    by (rule monitor_step_armed)
qed

section \<open>What the heartbeat and the watchdog detect\<close>

definition touches :: "u64 list \<Rightarrow> monitor \<Rightarrow> monitor" where
  "touches js m = fold lse_monitor_touch js m"

lemma touch_frame [simp]:
  "heartbeat (lse_monitor_touch j m) = 1"
  "heartbeat_enable (lse_monitor_touch j m) = heartbeat_enable m"
  "watchdog_enable (lse_monitor_touch j m) = watchdog_enable m"
  "slim_stats (lse_monitor_touch j m) = slim_stats m"
  "monitor_log (lse_monitor_touch j m) = monitor_log m"
  "lse_watchdog_timeout (lse_monitor_touch j m) = lse_watchdog_timeout m"
  "lse_watchdog_timestamp (lse_monitor_touch j m) = j"
  "lse_heartbeat_last_touch (lse_monitor_touch j m) = j"
  by (simp_all add: lse_monitor_touch_def lse_stats_record_tick_def lse_stats_inc_def Let_def)

lemma touches_frame:
  "heartbeat_enable (touches js m) = heartbeat_enable m"
  "monitor_log (touches js m) = monitor_log m"
  "slim_stats (touches js m) = slim_stats m"
  "heartbeat (touches js m) = (if js = [] then heartbeat m else 1)"
  unfolding touches_def by (induction js arbitrary: m) auto


lemma timer_fn_enable:
  "heartbeat_enable (lse_heartbeat_timer_fn k j m) = heartbeat_enable m"
  by (simp add: lse_heartbeat_timer_fn_def mod_heartbeat_timer_def lse_monitor_dump_state_def Let_def)


lemma touches_tick_cnt:
  assumes "slim_stats m \<noteq> 0"
  shows "lse_stats_tick_cnt (touches js m) =
     lse_stats_tick_cnt m + of_nat (length (remdups_adj (lse_heartbeat_last_touch m # js)) - 1)"
  using assms
proof (induction js arbitrary: m)
  case Nil
  then show ?case by (simp add: touches_def)
next
  case (Cons j js)
  let ?m = "lse_monitor_touch j m"
  have tick: "lse_stats_tick_cnt ?m =
      lse_stats_tick_cnt m + (if j = lse_heartbeat_last_touch m then 0 else 1)"
    using Cons.prems by (simp add: lse_monitor_touch_def lse_stats_record_tick_def lse_stats_inc_def Let_def)
  have len: "0 < length (remdups_adj (j # js))" by (simp add: remdups_adj_Cons split: list.split)
  have "lse_stats_tick_cnt (touches (j # js) m) =
      lse_stats_tick_cnt ?m + of_nat (length (remdups_adj (j # js)) - 1)"
    using Cons.IH [of ?m] Cons.prems by (simp add: touches_def)
  also have "\<dots> = lse_stats_tick_cnt m +
      of_nat (length (remdups_adj (lse_heartbeat_last_touch m # j # js)) - 1)"
    using len by (simp add: tick of_nat_diff Suc_le_eq)
  finally show ?case .
qed


section \<open>What a run of events leaves behind\<close>













section \<open>Properties\<close>

text \<open>C26: After the monitor's initialisation, over every sequence of touches, expiries, toggles, resets
  and statistics, the heartbeat timer is pending exactly while the heartbeat is enabled and the
  watchdog's work exactly while the watchdog is: no step loses a timer or leaves one behind.\<close>

theorem monitor_timers_armed:
  assumes "monitor_started k m0" "(monitor_step k)\<^sup>*\<^sup>* m0 m"
  shows "lse_monitor_inited m \<and> (lse_heartbeat_timer m \<noteq> None \<longleftrightarrow> heartbeat_enable m \<noteq> 0) \<and>
    (lse_watchdog_work m \<noteq> None \<longleftrightarrow> watchdog_enable m \<noteq> 0)"
  using monitor_sys.inv_reachable [OF assms] by (simp add: monitor_armed_def)

definition demo_monitor :: monitor where
  "demo_monitor =
     \<lparr>slim_stats = 1, heartbeat = 0, heartbeat_enable = 1, watchdog_enable = 1,
      lse_watchdog_timeout = 30000, lse_watchdog_timestamp = 0, lse_heartbeat_last_touch = 0,
      lse_watchdog_work = None, lse_heartbeat_timer = None, lse_proc_root = False,
      lse_monitor_inited = False, lse_stats_update_cnt = 0, lse_stats_rollover_cnt = 0,
      lse_stats_tick_cnt = 0, monitor_log = []\<rparr>"

theorem monitor_timers_armed_witness:
  "lse_heartbeat_timer (lse_monitor_touch 7 (lse_monitor_init demo_kernel True 5 demo_monitor)) \<noteq> None"
proof -
  let ?m = "lse_monitor_init demo_kernel True 5 demo_monitor"
  have "monitor_started demo_kernel ?m"
    unfolding monitor_started_def by (intro exI conjI) (auto simp: demo_monitor_def)
  then have "lse_heartbeat_timer (lse_monitor_touch 7 ?m) \<noteq> None \<longleftrightarrow>
      heartbeat_enable (lse_monitor_touch 7 ?m) \<noteq> 0"
    using monitor_timers_armed [OF _ r_into_rtranclp [of "monitor_step demo_kernel", OF monitor_step.touch]] by blast
  then show ?thesis by (simp add: monitor_ops demo_monitor_def Let_def)
qed



text \<open>While statistics are on, the tick counter counts the jiffies in which some CPU ticked: a run of
  touches adds the number of changes of \<open>jiffies\<close> in it, however many CPUs tick per jiffy.\<close>

theorem monitor_counts_jiffies:
  assumes "slim_stats m \<noteq> 0"
  shows "lse_stats_tick_cnt (touches js m) =
     lse_stats_tick_cnt m + of_nat (length (remdups_adj (lse_heartbeat_last_touch m # js)) - 1)"
  using assms by (rule touches_tick_cnt)

theorem monitor_counts_jiffies_witness:
  "lse_stats_tick_cnt (touches [1, 1, 1, 2, 2, 3] demo_monitor) = 3"
  using monitor_counts_jiffies [of demo_monitor "[1, 1, 1, 2, 2, 3]"] by (simp add: demo_monitor_def)

end
