(* ===== verification/Lse_Walt.thy ===== *)
theory Lse_Walt
  imports Lse_Monitor
begin

text \<open>
  \<open>lse_util_track.c\<close>: slim WALT, window assisted load tracking.  Time on each CPU is cut into
  windows of \<open>lse_sched_ravg_window\<close> nanoseconds.  Every scheduler event charges the time since
  the task's last event to the task's own sum and, if the task was running, to its CPU's sum for
  the current window, splitting it where a window boundary lies between.

  \<open>walt\<close> holds the file's globals (and \<open>dump_info\<close> of \<open>lse_main.c\<close>).  The operations are written
  over the two structures they are handed, the task's \<open>lse_task_struct\<close> and the CPU's \<open>lse_rq\<close>;
  trace points are in \<open>Lse_Trace\<close>; the state behind the systrace counters is kept here.
\<close>

section \<open>State\<close>

record walt =
  lse_sched_ravg_window :: u32
  new_lse_sched_ravg_window :: u32
  lse_scale_demand_divisor :: u32
  lse_run_rollover_lastq_ws :: u64
  tick_sched_clock :: u64
  sched_window_stats_policy :: int
  lse_fg_prio_threshold :: int
  lse_boost_bg_pct :: int
  lse_boost_fg_pct :: int
  lse_boost_rt_pct :: int
  init_irq_work_inited :: bool
  lse_slim_walt_irq_work :: "nat option"   \<comment> \<open>the CPU the work is pending on\<close>
  prev_cpu_util :: "nat \<Rightarrow> u16"
  window_count :: u64
  dump_info :: u32

definition init_walt :: walt where
  "init_walt = \<lparr>lse_sched_ravg_window = DEFAULT_SCHED_RAVG_WINDOW,
     new_lse_sched_ravg_window = DEFAULT_SCHED_RAVG_WINDOW, lse_scale_demand_divisor = 0,
     lse_run_rollover_lastq_ws = 0, tick_sched_clock = 0, sched_window_stats_policy = 0,
     lse_fg_prio_threshold = DEFAULT_PRIO - 2, lse_boost_bg_pct = 1024,
     lse_boost_fg_pct = 1280, lse_boost_rt_pct = 1536, init_irq_work_inited = False,
     lse_slim_walt_irq_work = None, prev_cpu_util = (\<lambda>_. 0), window_count = 0,
     dump_info = LSE_DEBUG_PANIC\<rparr>"

section \<open>Classification of tasks\<close>

definition lse_task_classify :: "walt \<Rightarrow> task_struct \<Rightarrow> lse_task_class" where
  "lse_task_classify w p =
     (if is_idle_task p then LSE_TASK_CLASS_IDLE
      else case policy p of
        SCHED_FIFO \<Rightarrow> LSE_TASK_CLASS_RT
      | SCHED_RR \<Rightarrow> LSE_TASK_CLASS_RT
      | SCHED_DEADLINE \<Rightarrow> LSE_TASK_CLASS_DEADLINE
      | _ \<Rightarrow>
          if task_nice p < 0 \<or> prio p \<le> lse_fg_prio_threshold w then LSE_TASK_CLASS_FOREGROUND
          else if prio p \<le> DEFAULT_PRIO + 4 then LSE_TASK_CLASS_NORMAL
          else LSE_TASK_CLASS_BACKGROUND)"

fun lse_task_boost_for_class :: "walt \<Rightarrow> lse_task_class \<Rightarrow> int" where
  "lse_task_boost_for_class w LSE_TASK_CLASS_RT = max 1 (lse_boost_rt_pct w)"
| "lse_task_boost_for_class w LSE_TASK_CLASS_DEADLINE = max 1 (lse_boost_rt_pct w)"
| "lse_task_boost_for_class w LSE_TASK_CLASS_FOREGROUND = max 1 (lse_boost_fg_pct w)"
| "lse_task_boost_for_class w LSE_TASK_CLASS_NORMAL = 1024"
| "lse_task_boost_for_class w _ = max 1 (lse_boost_bg_pct w)"

definition lse_refresh_task_hint ::
  "walt \<Rightarrow> task_struct \<Rightarrow> lse_task_struct \<Rightarrow> lse_task_struct" where
  "lse_refresh_task_hint w p t =
     (let cls = lse_task_classify w p in
      t\<lparr>task_class := cls, boost_pct := word_of_int (lse_task_boost_for_class w cls),
        priority_hint := word_of_int (prio p)\<rparr>)"

section \<open>Task demand\<close>

definition scale_exec_time :: "u64 \<Rightarrow> lse_rq \<Rightarrow> u64" where
  "scale_exec_time delta l = drop_bit SCHED_CAPACITY_SHIFT (delta * task_exec_scale l)"

text \<open>\<open>sum\<close> is a \<open>u32\<close>: the addition is done at 64 bits and cut back before the cap is applied.\<close>

definition add_to_task_demand ::
  "walt \<Rightarrow> lse_rq \<Rightarrow> lse_task_struct \<Rightarrow> u64 \<Rightarrow> u64 \<times> lse_task_struct" where
  "add_to_task_demand w l t delta =
     (let delta = scale_exec_time delta l;
          s = ucast (ucast (lts_sum t) + delta :: u64) :: u32;
          s = (if s > lse_sched_ravg_window w then lse_sched_ravg_window w else s)
      in (delta, t\<lparr>lts_sum := s\<rparr>))"

definition SCHED_ACCOUNT_WAIT_TIME :: int where "SCHED_ACCOUNT_WAIT_TIME = 0"

definition account_busy_for_task_demand :: "rq \<Rightarrow> task_struct \<Rightarrow> task_event \<Rightarrow> bool" where
  "account_busy_for_task_demand rq p event =
     (if is_idle_task p then False
      else if event = TASK_WAKE \<or>
          (SCHED_ACCOUNT_WAIT_TIME = 0 \<and> (event = PICK_NEXT_TASK \<or> event = TASK_MIGRATE)) then False
      else if event = PICK_NEXT_TASK \<and> rq_curr rq = rq_idle rq then False
      else if event = TASK_UPDATE then
        (if rq_curr rq = ts_id p then True
         else task_on_rq_queued p \<and> SCHED_ACCOUNT_WAIT_TIME \<noteq> 0)
      else True)"

text \<open>The loop of \<open>update_history\<close> that writes the sample into the ring: one turn, and \<open>n\<close> turns.\<close>

definition push_sample :: "u32 \<Rightarrow> lse_task_struct \<Rightarrow> lse_task_struct" where
  "push_sample runtime t =
     t\<lparr>sum_history := (sum_history t)[cidx t := runtime],
       cidx := (cidx t + 1) mod RAVG_HIST_SIZE\<rparr>"

fun push_samples :: "nat \<Rightarrow> u32 \<Rightarrow> lse_task_struct \<Rightarrow> lse_task_struct" where
  "push_samples 0 runtime t = t"
| "push_samples (Suc n) runtime t = push_samples n runtime (push_sample runtime t)"

definition history_demand :: "int \<Rightarrow> u32 list \<Rightarrow> u32 \<Rightarrow> u32" where
  "history_demand pol hist runtime =
     (let sum = (\<Sum>h\<leftarrow>hist. ucast h :: u64);
          mx = foldl (\<lambda>m h. if h > m then h else m) 0 hist;
          avg = ucast (sum div of_nat RAVG_HIST_SIZE) :: u32
      in if pol = WINDOW_STATS_RECENT then runtime
         else if pol = WINDOW_STATS_MAX then mx
         else if pol = WINDOW_STATS_AVG then avg
         else max avg runtime)"

definition update_history ::
  "walt \<Rightarrow> task_struct \<Rightarrow> u32 \<Rightarrow> int \<Rightarrow> lse_task_struct \<Rightarrow> fault + lse_task_struct" where
  "update_history w p runtime samples t =
     (if runtime = 0 \<or> is_idle_task p \<or> samples = 0 then Inr t
      else
        let t = (push_samples (nat samples) runtime t)\<lparr>lts_sum := 0\<rparr>;
            d = history_demand (sched_window_stats_policy w) (sum_history t) runtime
        in ebind (lse_scale_time_to_util (lse_scale_demand_divisor w) (ucast d)) (\<lambda>scaled.
           Inr (t\<lparr>demand := d, demand_scaled := ucast scaled\<rparr>)))"

definition update_task_demand ::
  "walt \<Rightarrow> lse_rq \<Rightarrow> rq \<Rightarrow> task_struct \<Rightarrow> task_event \<Rightarrow> u64 \<Rightarrow> lse_task_struct
    \<Rightarrow> fault + (u64 \<times> lse_task_struct)" where
  "update_task_demand w l rq p event wallclock t =
     (let new_window = mark_start t < window_start l;
          window_size = lse_sched_ravg_window w
      in
      if \<not> account_busy_for_task_demand rq p event then
        if new_window
        then ebind (update_history w p (lts_sum t) 1 t) (\<lambda>t. Inr (0, t))
        else Inr (0, t)
      else if \<not> new_window then
        Inr (add_to_task_demand w l t (wallclock - mark_start t))
      else
        let delta = window_start l - mark_start t in
        ebind (div64_u64 delta (ucast window_size)) (\<lambda>q.
        let nr_full_windows = to_int q;
            ws = window_start l - word_of_int nr_full_windows * ucast window_size;
            (runtime, t) = add_to_task_demand w l t (ws - mark_start t)
        in
        ebind (update_history w p (lts_sum t) 1 t) (\<lambda>t.
        ebind (if nr_full_windows \<noteq> 0 then
                 let scaled_window = scale_exec_time (ucast window_size) l in
                 ebind (update_history w p (ucast scaled_window) nr_full_windows t) (\<lambda>t.
                 Inr (runtime + word_of_int nr_full_windows * scaled_window, t))
               else Inr (runtime, t)) (\<lambda>(runtime, t).
        let ws = ws + word_of_int nr_full_windows * ucast window_size;
            (rest, t) = add_to_task_demand w l t (wallclock - ws)
        in Inr (runtime + rest, t)))))"

section \<open>Scaling\<close>

lemma unat_scale_exec_time:
  assumes "unat delta * unat (task_exec_scale l) < 2 ^ 64"
  shows "unat (scale_exec_time delta l) = unat delta * unat (task_exec_scale l) div 1024"
  using assms by (simp add: scale_exec_time_def SCHED_CAPACITY_SHIFT_def unat_shift_right unat_u64_mult)

lemma scale_no_overflow:
  assumes "unat delta < 2 ^ 54" "unat (task_exec_scale l) \<le> 1024"
  shows "unat delta * unat (task_exec_scale l) < 2 ^ 64"
proof -
  have "unat delta * unat (task_exec_scale l) \<le> unat delta * 1024"
    using assms(2) by (rule mult_le_mono2)
  moreover have "unat delta * 1024 < 2 ^ 64" using assms(1) by simp
  ultimately show ?thesis by (rule le_less_trans)
qed

lemma scale_exec_time_le:
  assumes "unat delta < 2 ^ 54" "unat (task_exec_scale l) \<le> 1024"
  shows "unat (scale_exec_time delta l) \<le> unat delta"
proof -
  have "unat delta * unat (task_exec_scale l) div 1024 \<le> unat delta * 1024 div 1024"
    using assms(2) by (intro div_le_mono mult_le_mono2)
  then show ?thesis
    using unat_scale_exec_time [OF scale_no_overflow [OF assms]] by simp
qed

lemma scale_exec_time_full:
  assumes "unat delta < 2 ^ 54" "task_exec_scale l = 1024"
  shows "scale_exec_time delta l = delta"
proof -
  have "unat (scale_exec_time delta l) = unat delta"
    using unat_scale_exec_time [OF scale_no_overflow, of delta l] assms by simp
  then show ?thesis by (rule unsigned_word_eqI)
qed

section \<open>The sum of the current window\<close>

lemma add_to_task_demand_sum:
  "add_to_task_demand w l t delta = (d, t') \<Longrightarrow> lts_sum t' \<le> lse_sched_ravg_window w"
  by (auto simp: add_to_task_demand_def Let_def)

lemma add_to_task_demand_frame:
  assumes "add_to_task_demand w l t delta = (d, t')"
  shows "sum_history t' = sum_history t" "cidx t' = cidx t" "demand t' = demand t"
    "demand_scaled t' = demand_scaled t" "mark_start t' = mark_start t"
    "lts_window_start t' = lts_window_start t" "d = scale_exec_time delta l"
  using assms by (auto simp: add_to_task_demand_def Let_def)

lemma add_to_task_demand_exact:
  assumes "add_to_task_demand w l t delta = (d, t')"
    and "unat (lts_sum t) + unat (scale_exec_time delta l) < 2 ^ 32"
  shows "unat (lts_sum t') =
    min (unat (lse_sched_ravg_window w)) (unat (lts_sum t) + unat (scale_exec_time delta l))"
proof -
  let ?s = "ucast (ucast (lts_sum t) + scale_exec_time delta l :: u64) :: u32"
  have "unat (ucast (lts_sum t) + scale_exec_time delta l :: u64) =
      unat (lts_sum t) + unat (scale_exec_time delta l)"
    using assms(2) by (subst unat_u64_add) simp_all
  then have s: "unat ?s = unat (lts_sum t) + unat (scale_exec_time delta l)"
    using assms(2) by (simp add: unat_u32_of_u64)
  have "lts_sum t' = min ?s (lse_sched_ravg_window w)"
    using assms(1) by (auto simp: add_to_task_demand_def Let_def min_def)
  then show ?thesis by (simp add: unat_min s min.commute)
qed

section \<open>The history ring\<close>

definition history_ok :: "lse_task_struct \<Rightarrow> bool" where
  "history_ok t \<longleftrightarrow> length (sum_history t) = RAVG_HIST_SIZE \<and> cidx t < RAVG_HIST_SIZE"

lemma push_sample_frame [simp]:
  "lts_sum (push_sample r t) = lts_sum t" "demand (push_sample r t) = demand t"
  "demand_scaled (push_sample r t) = demand_scaled t" "mark_start (push_sample r t) = mark_start t"
  "lts_window_start (push_sample r t) = lts_window_start t"
  "length (sum_history (push_sample r t)) = length (sum_history t)"
  "cidx (push_sample r t) = (cidx t + 1) mod RAVG_HIST_SIZE"
  "sum_history (push_sample r t) = (sum_history t)[cidx t := r]"
  by (simp_all add: push_sample_def)

lemma push_samples_frame [simp]:
  "lts_sum (push_samples n r t) = lts_sum t" "demand (push_samples n r t) = demand t"
  "demand_scaled (push_samples n r t) = demand_scaled t"
  "mark_start (push_samples n r t) = mark_start t"
  "lts_window_start (push_samples n r t) = lts_window_start t"
  "length (sum_history (push_samples n r t)) = length (sum_history t)"
  by (induction n arbitrary: t) simp_all

lemma push_sample_ok: "history_ok t \<Longrightarrow> history_ok (push_sample r t)"
  by (simp add: history_ok_def RAVG_HIST_SIZE_def)

lemma push_samples_ok: "history_ok t \<Longrightarrow> history_ok (push_samples n r t)"
  by (induction n arbitrary: t) (simp_all add: push_sample_ok)

lemma push_samples_set: "set (sum_history (push_samples n r t)) \<subseteq> insert r (set (sum_history t))"
proof (induction n arbitrary: t)
  case (Suc n)
  have "set (sum_history (push_sample r t)) \<subseteq> insert r (set (sum_history t))"
    by (simp add: set_update_subset_insert)
  with Suc.IH [of "push_sample r t"] show ?case by auto
qed auto

text \<open>The ring holds the last samples: slot \<open>(cidx + i) mod 5\<close> is overwritten by sample \<open>i\<close>.\<close>

lemma push_samples_nth:
  assumes "history_ok t" "j < RAVG_HIST_SIZE"
  shows "sum_history (push_samples n r t) ! j =
    (if \<exists>i < n. (cidx t + i) mod RAVG_HIST_SIZE = j then r else sum_history t ! j)"
  using assms(1)
proof (induction n arbitrary: t)
  case (Suc n)
  have c: "cidx t < RAVG_HIST_SIZE" "length (sum_history t) = RAVG_HIST_SIZE"
    using Suc.prems by (simp_all add: history_ok_def)
  have next_slot: "(cidx t + Suc i) mod RAVG_HIST_SIZE =
      (cidx (push_sample r t) + i) mod RAVG_HIST_SIZE" for i
    by (simp add: mod_simps)
  have shift: "(\<exists>i < Suc n. (cidx t + i) mod RAVG_HIST_SIZE = j) \<longleftrightarrow>
      cidx t = j \<or> (\<exists>i < n. (cidx (push_sample r t) + i) mod RAVG_HIST_SIZE = j)"
    using c(1) by (simp only: Ex_less_Suc2 next_slot) simp
  have here: "sum_history (push_sample r t) ! j = (if cidx t = j then r else sum_history t ! j)"
    using c assms(2) by simp
  show ?case
    unfolding push_samples.simps Suc.IH [OF push_sample_ok [OF Suc.prems]] shift here
    by (auto simp del: push_sample_frame)
qed simp

lemma push_samples_fill:
  assumes "history_ok t" "RAVG_HIST_SIZE \<le> n"
  shows "sum_history (push_samples n r t) = replicate RAVG_HIST_SIZE r"
proof (rule nth_equalityI)
  show "length (sum_history (push_samples n r t)) = length (replicate RAVG_HIST_SIZE r)"
    using assms(1) by (simp add: history_ok_def)
next
  fix j assume "j < length (sum_history (push_samples n r t))"
  then have j: "j < RAVG_HIST_SIZE" using assms(1) by (simp add: history_ok_def)
  let ?i = "(j + RAVG_HIST_SIZE - cidx t) mod RAVG_HIST_SIZE"
  have c: "cidx t < RAVG_HIST_SIZE" using assms(1) by (simp add: history_ok_def)
  have "(cidx t + ?i) mod RAVG_HIST_SIZE = (cidx t + (j + RAVG_HIST_SIZE - cidx t)) mod RAVG_HIST_SIZE"
    by (simp add: mod_simps)
  also have "\<dots> = j" using c j by simp
  finally have "(cidx t + ?i) mod RAVG_HIST_SIZE = j" .
  moreover have "?i < n" using assms(2) by (auto simp: RAVG_HIST_SIZE_def intro: less_le_trans)
  ultimately show "sum_history (push_samples n r t) ! j = replicate RAVG_HIST_SIZE r ! j"
    using push_samples_nth [OF assms(1) j, of n r] j by auto
qed

section \<open>Demand from the history\<close>

lemma unat_sum_hist:
  assumes "length hs \<le> 4294967296"
  shows "unat (\<Sum>h\<leftarrow>hs. ucast (h :: u32) :: u64) = (\<Sum>h\<leftarrow>hs. unat h) \<and>
    (\<Sum>h\<leftarrow>hs. unat h) \<le> length hs * 4294967295"
  using assms
proof (induction hs)
  case (Cons h hs)
  then have ih: "unat (\<Sum>h\<leftarrow>hs. ucast h :: u64) = (\<Sum>h\<leftarrow>hs. unat h)"
    "(\<Sum>h\<leftarrow>hs. unat h) \<le> length hs * 4294967295" by auto
  have "unat h + (\<Sum>h\<leftarrow>hs. unat h) \<le> length (h # hs) * 4294967295"
    using ih(2) u32_bound [of h] by simp
  moreover have "length (h # hs) * 4294967295 < 2 ^ 64" using Cons.prems by simp
  ultimately show ?case using ih(1) by (simp add: unat_u64_add)
qed simp

definition hist_max :: "u32 \<Rightarrow> u32 list \<Rightarrow> u32" where
  "hist_max m hist = foldl (\<lambda>m h. if h > m then h else m) m hist"

lemma hist_max_simps [simp]:
  "hist_max m [] = m" "hist_max m (h # hs) = hist_max (max m h) hs"
  by (auto simp: hist_max_def max_def)

lemma hist_max_upper: "m \<le> hist_max m hs \<and> (\<forall>h \<in> set hs. h \<le> hist_max m hs)"
proof (induction hs arbitrary: m)
  case (Cons h hs)
  from Cons [of "max m h"] show ?case by auto
qed simp

lemma hist_max_bound: "m \<le> B \<Longrightarrow> \<forall>h \<in> set hs. h \<le> B \<Longrightarrow> hist_max m hs \<le> B"
  by (induction hs arbitrary: m) auto

definition hist_avg :: "u32 list \<Rightarrow> u32" where
  "hist_avg hist = ucast ((\<Sum>h\<leftarrow>hist. ucast h :: u64) div of_nat RAVG_HIST_SIZE)"

lemma history_demand_eq:
  "history_demand pol hist runtime =
     (if pol = WINDOW_STATS_RECENT then runtime
      else if pol = WINDOW_STATS_MAX then hist_max 0 hist
      else if pol = WINDOW_STATS_AVG then hist_avg hist
      else max (hist_avg hist) runtime)"
  by (simp add: history_demand_def hist_max_def hist_avg_def Let_def)

lemma unat_hist_avg:
  assumes "length hs = RAVG_HIST_SIZE"
  shows "unat (hist_avg hs) = (\<Sum>h\<leftarrow>hs. unat h) div 5"
proof -
  have len: "length hs = 5" using assms by (simp add: RAVG_HIST_SIZE_def)
  have s: "unat (\<Sum>h\<leftarrow>hs. ucast h :: u64) = (\<Sum>h\<leftarrow>hs. unat h)"
    "(\<Sum>h\<leftarrow>hs. unat h) \<le> 5 * 4294967295"
    using unat_sum_hist [of hs] len by simp_all
  have "unat ((\<Sum>h\<leftarrow>hs. ucast h :: u64) div of_nat RAVG_HIST_SIZE) = (\<Sum>h\<leftarrow>hs. unat h) div 5"
    by (simp add: unat_div s RAVG_HIST_SIZE_def)
  moreover have "(\<Sum>h\<leftarrow>hs. unat h) div 5 < 4294967296" using s(2) by simp
  ultimately show ?thesis by (simp add: hist_avg_def unat_u32_of_u64)
qed

lemma sum_list_bound: "\<forall>h \<in> set hs. f h \<le> (B :: nat) \<Longrightarrow> (\<Sum>h\<leftarrow>hs. f h) \<le> length hs * B"
  by (induction hs) auto

lemma hist_avg_bound:
  assumes "length hs = RAVG_HIST_SIZE" "\<forall>h \<in> set hs. h \<le> B"
  shows "hist_avg hs \<le> B"
proof -
  have "(\<Sum>h\<leftarrow>hs. unat h) \<le> 5 * unat B"
    using sum_list_bound [of hs unat "unat B"] assms by (simp add: u32_le_iff RAVG_HIST_SIZE_def)
  then show ?thesis by (simp add: u32_le_iff unat_hist_avg [OF assms(1)])
qed

lemma history_demand_bound:
  assumes "length hs = RAVG_HIST_SIZE" "\<forall>h \<in> set hs. h \<le> B" "r \<le> B"
  shows "history_demand pol hs r \<le> B"
  using hist_avg_bound [OF assms(1,2)] hist_max_bound [OF _ assms(2), of 0] assms(3)
  by (simp add: history_demand_eq)

text \<open>The policies are ordered: the average and the recent sample lie below the default
  policy, and when the recent sample is in the ring that one lies below the maximum.\<close>

lemma history_demand_order:
  assumes "length hs = RAVG_HIST_SIZE" "r \<in> set hs"
  shows "history_demand WINDOW_STATS_AVG hs r \<le> history_demand WINDOW_STATS_MAX_RECENT_AVG hs r"
    and "history_demand WINDOW_STATS_RECENT hs r \<le> history_demand WINDOW_STATS_MAX_RECENT_AVG hs r"
    and "history_demand WINDOW_STATS_MAX_RECENT_AVG hs r \<le> history_demand WINDOW_STATS_MAX hs r"
proof -
  have m: "\<forall>h \<in> set hs. h \<le> hist_max 0 hs" using hist_max_upper [of 0 hs] by blast
  have a: "hist_avg hs \<le> hist_max 0 hs" by (rule hist_avg_bound [OF assms(1) m])
  show "history_demand WINDOW_STATS_AVG hs r \<le> history_demand WINDOW_STATS_MAX_RECENT_AVG hs r"
    "history_demand WINDOW_STATS_RECENT hs r \<le> history_demand WINDOW_STATS_MAX_RECENT_AVG hs r"
    "history_demand WINDOW_STATS_MAX_RECENT_AVG hs r \<le> history_demand WINDOW_STATS_MAX hs r"
    using a m assms(2) by (simp_all add: history_demand_eq window_stats_policies)
qed

section \<open>update_history and update_task_demand keep the task's structure bounded\<close>

definition lts_bounded :: "u32 \<Rightarrow> nat \<Rightarrow> lse_task_struct \<Rightarrow> bool" where
  "lts_bounded B S t \<longleftrightarrow> history_ok t \<and> (\<forall>h \<in> set (sum_history t). h \<le> B) \<and>
     lts_sum t \<le> B \<and> demand t \<le> B \<and> unat (demand_scaled t) \<le> S"

lemma history_ok_frame [simp]:
  "history_ok (t\<lparr>lts_sum := s\<rparr>) = history_ok t"
  "history_ok (t\<lparr>demand := d\<rparr>) = history_ok t"
  "history_ok (t\<lparr>demand_scaled := ds\<rparr>) = history_ok t"
  "history_ok (t\<lparr>mark_start := m\<rparr>) = history_ok t"
  "history_ok (t\<lparr>lts_window_start := m\<rparr>) = history_ok t"
  by (simp_all add: history_ok_def)

lemma update_history_bounded:
  assumes d: "lse_scale_demand_divisor w \<noteq> 0"
    and S: "unat B div unat (lse_scale_demand_divisor w) \<le> S"
    and t: "lts_bounded B S t" and r: "runtime \<le> B"
  shows "\<exists>t'. update_history w p runtime n t = Inr t' \<and> lts_bounded B S t' \<and>
    mark_start t' = mark_start t \<and> lts_window_start t' = lts_window_start t"
proof (cases "runtime = 0 \<or> is_idle_task p \<or> n = 0")
  case True
  with t show ?thesis by (auto simp: update_history_def)
next
  case False
  let ?t = "(push_samples (nat n) runtime t)\<lparr>lts_sum := 0\<rparr>"
  let ?d = "history_demand (sched_window_stats_policy w) (sum_history ?t) runtime"
  let ?div = "ucast (lse_scale_demand_divisor w) :: u64"
  have ok: "history_ok ?t" using t by (simp add: lts_bounded_def push_samples_ok)
  have hist: "\<forall>h \<in> set (sum_history ?t). h \<le> B"
    using push_samples_set [of "nat n" runtime t] t r by (auto simp: lts_bounded_def)
  have dB: "?d \<le> B" using ok hist r by (intro history_demand_bound) (auto simp: history_ok_def)
  have "unat (ucast (ucast ?d div ?div :: u64) :: u16) \<le> unat (ucast ?d div ?div :: u64)"
    by (simp add: unsigned_ucast_eq take_bit_eq_mod)
  also have "\<dots> = unat ?d div unat (lse_scale_demand_divisor w)" by (simp add: unat_div)
  also have "\<dots> \<le> S" using dB S by (meson div_le_mono le_trans u32_le_iff)
  finally have scaled: "unat (ucast (ucast ?d div ?div :: u64) :: u16) \<le> S" .
  have "update_history w p runtime n t =
      Inr (?t\<lparr>demand := ?d, demand_scaled := ucast (ucast ?d div ?div)\<rparr>)"
    using False d by (simp add: update_history_def lse_scale_time_to_util_def div64_u64_Inr Let_def)
  with ok hist dB scaled show ?thesis by (simp add: lts_bounded_def)
qed

lemma add_to_task_demand_bounded:
  assumes "lts_bounded B S t" "lse_sched_ravg_window w \<le> B" "add_to_task_demand w l t delta = (d, t')"
  shows "lts_bounded B S t'"
  using assms add_to_task_demand_sum [OF assms(3)] add_to_task_demand_frame [OF assms(3)]
  by (auto simp: lts_bounded_def history_ok_def)

lemma scaled_window_bound:
  assumes "unat (task_exec_scale l) \<le> 1024"
  shows "ucast (scale_exec_time (ucast (W :: u32)) l) \<le> W"
proof -
  have "unat (ucast W :: u64) < 2 ^ 54" using u32_bound [of W] by simp
  from scale_exec_time_le [OF this assms]
  have "unat (scale_exec_time (ucast W) l) \<le> unat W" by simp
  then show ?thesis using u32_bound [of W]
    by (simp add: u32_le_iff unat_u32_of_u64)
qed

lemma lts_bounded_sum: "lts_bounded B S t \<Longrightarrow> lts_sum t \<le> B"
  by (simp add: lts_bounded_def)

text \<open>The busy case across a window boundary, as the pieces it is made of.\<close>

lemma update_task_demand_split:
  assumes "account_busy_for_task_demand rq p event" "mark_start t < window_start l"
    and W: "lse_sched_ravg_window w = W" "W \<noteq> 0"
    and q: "to_int ((window_start l - mark_start t) div ucast W) = q"
    and "add_to_task_demand w l t (window_start l - word_of_int q * ucast W - mark_start t) = (r1, t1)"
    and "update_history w p (lts_sum t1) 1 t1 = Inr t2"
    and "q \<noteq> 0 \<Longrightarrow> update_history w p (ucast (scale_exec_time (ucast W) l)) q t2 = Inr t3"
    and "q = 0 \<Longrightarrow> t3 = t2"
    and "add_to_task_demand w l t3 (wallclock - window_start l) = (r2, t4)"
  shows "update_task_demand w l rq p event wallclock t =
    Inr (r1 + word_of_int q * scale_exec_time (ucast W) l + r2, t4)"
  using assms by (cases "q = 0") (simp_all add: update_task_demand_def Let_def div64_u64_Inr)

lemma update_task_demand_bounded:
  assumes W: "lse_sched_ravg_window w \<noteq> 0" "lse_sched_ravg_window w \<le> B"
    and d: "lse_scale_demand_divisor w \<noteq> 0" "unat B div unat (lse_scale_demand_divisor w) \<le> S"
    and scale: "unat (task_exec_scale l) \<le> 1024"
    and t: "lts_bounded B S t"
  shows "\<exists>r t'. update_task_demand w l rq p event wallclock t = Inr (r, t') \<and> lts_bounded B S t' \<and>
    mark_start t' = mark_start t \<and> lts_window_start t' = lts_window_start t"
proof -
  note hist = update_history_bounded [OF d] and add = add_to_task_demand_bounded [OF _ W(2)]
  consider (idle) "\<not> account_busy_for_task_demand rq p event"
    | (same) "account_busy_for_task_demand rq p event" "\<not> mark_start t < window_start l"
    | (split) "account_busy_for_task_demand rq p event" "mark_start t < window_start l" by blast
  then show ?thesis
  proof cases
    case idle
    with t hist [OF t lts_bounded_sum [OF t], of p 1] show ?thesis
      by (auto simp: update_task_demand_def Let_def)
  next
    case same
    obtain r t' where a: "add_to_task_demand w l t (wallclock - mark_start t) = (r, t')" by force
    with same add [OF t a] add_to_task_demand_frame [OF a]
    show ?thesis by (simp add: update_task_demand_def Let_def)
  next
    case split
    let ?W = "ucast (lse_sched_ravg_window w) :: u64"
    let ?q = "to_int ((window_start l - mark_start t) div ?W)"
    obtain r1 t1 where a1: "add_to_task_demand w l t
        (window_start l - word_of_int ?q * ?W - mark_start t) = (r1, t1)" by force
    have t1: "lts_bounded B S t1" by (rule add [OF t a1])
    obtain t2 where h1: "update_history w p (lts_sum t1) 1 t1 = Inr t2" "lts_bounded B S t2"
      "mark_start t2 = mark_start t1" "lts_window_start t2 = lts_window_start t1"
      using hist [OF t1 lts_bounded_sum [OF t1]] by blast
    have "ucast (scale_exec_time ?W l) \<le> B"
      using scaled_window_bound [OF scale] W(2) by (rule order_trans)
    then obtain t3 where h2: "?q \<noteq> 0 \<Longrightarrow> update_history w p (ucast (scale_exec_time ?W l)) ?q t2 = Inr t3"
      "?q = 0 \<Longrightarrow> t3 = t2" "lts_bounded B S t3" "mark_start t3 = mark_start t2"
      "lts_window_start t3 = lts_window_start t2"
      using hist [OF h1(2)] h1(2) by (cases "?q = 0") blast+
    obtain r2 t4 where a2: "add_to_task_demand w l t3 (wallclock - window_start l) = (r2, t4)" by force
    show ?thesis
      using update_task_demand_split [OF split refl W(1) refl a1 h1(1) h2(1,2) a2] add [OF h2(3) a2]
        add_to_task_demand_frame [OF a1] add_to_task_demand_frame [OF a2] h1 h2 by auto
  qed
qed

section \<open>No time is lost or counted twice\<close>

lemma update_history_total:
  "lse_scale_demand_divisor w \<noteq> 0 \<Longrightarrow> \<exists>t'. update_history w p r n t = Inr t'"
  by (simp add: update_history_def lse_scale_time_to_util_def div64_u64_Inr Let_def)

text \<open>Scaling piece by piece against scaling the whole: each of the \<open>n + 2\<close> pieces loses less
  than one unit to rounding.\<close>

lemma floor_pieces:
  fixes a b c n s :: nat
  defines "pieces \<equiv> a * s div 1024 + n * (b * s div 1024) + c * s div 1024"
  shows "pieces \<le> (a + n * b + c) * s div 1024" and "(a + n * b + c) * s div 1024 \<le> pieces + n + 1"
proof -
  let ?r = "a * s mod 1024 + n * (b * s mod 1024) + c * s mod 1024"
  have split: "x * s = 1024 * (x * s div 1024) + x * s mod 1024" for x by simp
  have "(a + n * b + c) * s = a * s + n * (b * s) + c * s" by (simp add: algebra_simps)
  also have "\<dots> = 1024 * pieces + ?r"
    unfolding pieces_def by (subst split [of a], subst split [of b], subst split [of c])
      (simp only: algebra_simps)
  finally have eq: "(a + n * b + c) * s = 1024 * pieces + ?r" .
  have lt: "x mod 1024 < 1024" for x :: nat by simp
  have "n * (b * s mod 1024) \<le> n * 1023"
    using lt [of "b * s"] by (intro mult_le_mono2) linarith
  moreover have "x + y + z < 1024 * (m + 2)" if "x < 1024" "z < 1024" "y \<le> m * 1023" for x y z m :: nat
    using that by simp
  ultimately have "?r < 1024 * (n + 2)" using lt by blast
  with eq have "(a + n * b + c) * s < (pieces + n + 2) * 1024" by simp
  then have "(a + n * b + c) * s div 1024 < pieces + n + 2"
    by (simp add: div_less_iff_less_mult)
  then show "(a + n * b + c) * s div 1024 \<le> pieces + n + 1" by simp
  show "pieces \<le> (a + n * b + c) * s div 1024"
    unfolding eq by simp
qed

text \<open>The elapsed time cut at window boundaries: a first part, whole windows, a last part.\<close>

lemma window_cut:
  assumes "mark < ws" "ws \<le> wc" and W: "W \<noteq> 0"
    and n: "unat (ws - mark) div unat (W :: u32) < 2 ^ 31"
  defines "q \<equiv> to_int ((ws - mark) div ucast W)"
  defines "n \<equiv> unat (ws - mark) div unat W"
  shows "q = int n" and "unat (ws - word_of_int q * ucast W - mark) = unat (ws - mark) mod unat W"
    and "unat (wc - mark) = unat (ws - word_of_int q * ucast W - mark) + n * unat W + unat (wc - ws)"
proof -
  have "unat ((ws - mark) div ucast W) = n" by (simp add: unat_div n_def)
  then show q: "q = int n" using n by (simp add: q_def n_def to_int_small)
  have nW: "n * unat W \<le> unat (ws - mark)" by (simp add: n_def div_times_less_eq_dividend)
  have "unat (word_of_nat n * ucast W :: u64) = n * unat W"
  proof -
    have n64: "unat (word_of_nat n :: u64) = n" using n by (simp add: n_def unat_of_nat)
    have "n * unat W < 2 ^ 64" using nW u64_bound [of "ws - mark"] by simp
    with n64 show ?thesis by (subst unat_u64_mult) simp_all
  qed
  then have m: "unat (word_of_int q * ucast W :: u64) = n * unat W" by (simp add: q)
  have eq: "ws - word_of_int q * ucast W - mark = (ws - mark) - word_of_int q * ucast W"
    by (simp add: algebra_simps)
  have "unat (ws - word_of_int q * ucast W - mark) = unat (ws - mark) - n * unat W"
    unfolding eq using nW m by (subst unat_u64_sub) (simp_all add: u64_le_iff)
  then show a: "unat (ws - word_of_int q * ucast W - mark) = unat (ws - mark) mod unat W"
    by (simp add: n_def minus_div_mult_eq_mod)
  have "unat (wc - mark) = unat (ws - mark) + unat (wc - ws)"
    using assms(1,2) by (simp add: unat_u64_sub u64_le_iff u64_less_iff)
  then show "unat (wc - mark) = unat (ws - word_of_int q * ucast W - mark) + n * unat W + unat (wc - ws)"
    unfolding a n_def by simp
qed

text \<open>
  The busy time charged to the task is the scaled elapsed time, up to one unit of rounding for
  each window boundary crossed.
\<close>

lemma update_task_demand_conserves:
  assumes busy: "account_busy_for_task_demand rq p event"
    and order: "mark_start t \<le> wallclock" "window_start l \<le> wallclock"
    and W: "lse_sched_ravg_window w \<noteq> 0" and d: "lse_scale_demand_divisor w \<noteq> 0"
    and scale: "unat (task_exec_scale l) \<le> 1024"
    and short: "unat (wallclock - mark_start t) < 2 ^ 54"
  defines "n \<equiv> unat (window_start l - mark_start t) div unat (lse_sched_ravg_window w)"
  assumes n: "mark_start t < window_start l \<Longrightarrow> n < 2 ^ 31"
  defines "whole \<equiv> unat (wallclock - mark_start t) * unat (task_exec_scale l) div 1024"
  shows "\<exists>r t'. update_task_demand w l rq p event wallclock t = Inr (r, t') \<and>
    (if mark_start t < window_start l
     then unat r = unat (window_start l - mark_start t) mod unat (lse_sched_ravg_window w) * unat (task_exec_scale l) div 1024 +
         n * (unat (lse_sched_ravg_window w) * unat (task_exec_scale l) div 1024) +
         unat (wallclock - window_start l) * unat (task_exec_scale l) div 1024 \<and>
       unat r \<le> whole \<and> whole \<le> unat r + n + 1
     else unat r = whole)"
proof (cases "mark_start t < window_start l")
  case False
  have "unat (scale_exec_time (wallclock - mark_start t) l) = whole"
    unfolding whole_def by (rule unat_scale_exec_time [OF scale_no_overflow [OF short scale]])
  with False busy show ?thesis
    by (simp add: update_task_demand_def add_to_task_demand_def Let_def)
next
  case True
  let ?W = "lse_sched_ravg_window w" and ?s = "unat (task_exec_scale l)"
  let ?q = "to_int ((window_start l - mark_start t) div ucast ?W)"
  let ?first = "window_start l - word_of_int ?q * ucast ?W - mark_start t"
  let ?last = "wallclock - window_start l"
  note cut = window_cut [OF True order(2) W n [OF True, unfolded n_def], folded n_def]
  have sc: "unat (scale_exec_time x l) = unat x * ?s div 1024" if "unat x \<le> unat (wallclock - mark_start t)" for x
    using unat_scale_exec_time [OF scale_no_overflow [OF _ scale]] that short by simp
  obtain r1 t1 where a1: "add_to_task_demand w l t ?first = (r1, t1)" by force
  obtain t2 where h1: "update_history w p (lts_sum t1) 1 t1 = Inr t2"
    using update_history_total [OF d] by blast
  obtain t3 where h2: "?q \<noteq> 0 \<Longrightarrow> update_history w p (ucast (scale_exec_time (ucast ?W) l)) ?q t2 = Inr t3"
    "?q = 0 \<Longrightarrow> t3 = t2" using update_history_total [OF d] by (cases "?q = 0") blast+
  obtain r2 t4 where a2: "add_to_task_demand w l t3 ?last = (r2, t4)" by force
  let ?win = "word_of_int ?q * scale_exec_time (ucast ?W) l :: u64"
  have r1: "unat r1 = unat ?first * ?s div 1024"
    using add_to_task_demand_frame(7) [OF a1] sc [of ?first] cut(3) by simp
  have r2: "unat r2 = unat ?last * ?s div 1024"
    using add_to_task_demand_frame(7) [OF a2] sc [of ?last] cut(3) by simp
  have win: "unat ?win = n * (unat ?W * ?s div 1024)"
  proof (cases "n = 0")
    case True
    then show ?thesis by (simp add: cut(1))
  next
    case False
    then have "unat ?W \<le> n * unat ?W" by (cases n) simp_all
    then have "unat ?W \<le> unat (wallclock - mark_start t)" using cut(3) by linarith
    then have "unat (scale_exec_time (ucast ?W) l) = unat ?W * ?s div 1024"
      using sc [of "ucast ?W"] by simp
    moreover have le: "n * (unat ?W * ?s div 1024) \<le> n * unat ?W"
    proof (rule mult_le_mono2)
      have "unat ?W * ?s div 1024 \<le> unat ?W * 1024 div 1024"
        using scale by (intro div_le_mono mult_le_mono2)
      then show "unat ?W * ?s div 1024 \<le> unat ?W" by simp
    qed
    moreover have "unat (word_of_nat n :: u64) = n" using n [OF True] by (simp add: unat_of_nat)
    moreover have "n * (unat ?W * ?s div 1024) < 2 ^ 64"
      by (rule le_less_trans [OF le]) (use cut(3) short in simp)
    ultimately show ?thesis by (simp add: cut(1) unat_u64_mult)
  qed
  note pieces = floor_pieces [where a = "unat ?first" and b = "unat ?W" and c = "unat ?last"
      and n = n and s = ?s, folded cut(3) r1 r2 win whole_def]
  have "whole \<le> unat (wallclock - mark_start t)"
  proof -
    have "whole \<le> unat (wallclock - mark_start t) * 1024 div 1024"
      unfolding whole_def using scale by (intro div_le_mono mult_le_mono2)
    then show ?thesis by simp
  qed
  then have "unat (r1 + ?win + r2) = unat r1 + unat ?win + unat r2"
    using pieces(1) short by (simp add: unat_u64_add)
  moreover have "update_task_demand w l rq p event wallclock t = Inr (r1 + ?win + r2, t4)"
    by (rule update_task_demand_split [OF busy True refl W refl a1 h1 h2 a2])
  ultimately show ?thesis using True pieces r1 r2 win cut(2) by simp
qed

end
