(* ===== verification/Lse_Window.thy ===== *)
theory Lse_Window
  imports Lse_Walt
begin

text \<open>
  \<open>lse_util_track.c\<close>, the CPU side: the window of a run queue and its roll over, the accounting of
  busy time to the CPU, \<open>lse_update_task_ravg\<close> that ties task and CPU accounting together, the
  once-per-window election of the CPU that queues the roll-over work, and the utilisation the
  governor reads.
\<close>

section \<open>The window of a CPU\<close>

definition rollover_cpu_window :: "lse_rq \<Rightarrow> bool \<Rightarrow> lse_rq" where
  "rollover_cpu_window l full_window =
     (let curr_sum = (if full_window then 0 else curr_runnable_sum l)
      in l\<lparr>prev_runnable_sum := curr_sum, curr_runnable_sum := 0\<rparr>)"

definition update_window_start :: "walt \<Rightarrow> u64 \<Rightarrow> lse_rq \<Rightarrow> fault + (u64 \<times> lse_rq)" where
  "update_window_start w wallclock l =
     (let old_window_start = window_start l;
          window = lse_sched_ravg_window w
      in
      ebind (if wallclock < latest_clock l
             then ebind (lse_bug (dump_info w)) (\<lambda>_. Inr (latest_clock l))
             else Inr wallclock) (\<lambda>wallclock.
      let delta = sint (wallclock - window_start l) in
      ebind (if delta < 0
             then ebind (lse_bug (dump_info w)) (\<lambda>_. Inr (0, window_start l))
             else Inr (delta, wallclock)) (\<lambda>(delta, wallclock).
      let l = l\<lparr>latest_clock := wallclock\<rparr> in
      if delta < uint window then Inr (old_window_start, l)
      else ebind (div64_u64 (word_of_int delta) (ucast window)) (\<lambda>q.
        let nr_windows = to_int q;
            l = l\<lparr>window_start := window_start l + word_of_int nr_windows * ucast window,
                  prev_window_size := window\<rparr>;
            full_window = nr_windows > 1
        in Inr (old_window_start, rollover_cpu_window l full_window)))))"

text \<open>\<open>pol\<close> is what \<open>cpufreq_cpu_get_raw\<close> returns for the CPU, \<open>cap\<close> its capacity.\<close>

definition get_max_freq :: "cpufreq_policy option \<Rightarrow> u32" where
  "get_max_freq pol = (case pol of None \<Rightarrow> 0 | Some p \<Rightarrow> cpuinfo_max_freq p)"

definition cpu_cur_freq :: "cpufreq_policy option \<Rightarrow> u32" where
  "cpu_cur_freq pol = (case pol of None \<Rightarrow> 0 | Some p \<Rightarrow> pol_cur p)"

definition update_task_rq_cpu_cycles ::
  "cpufreq_policy option \<Rightarrow> u64 \<Rightarrow> lse_rq \<Rightarrow> fault + lse_rq" where
  "update_task_rq_cpu_cycles pol cap l =
     (let max_freq = get_max_freq pol in
      ebind (if max_freq = 0 then Inr cap
             else div64_roundup_u32 (ucast (cpu_cur_freq pol) * cap) max_freq) (\<lambda>scale.
      Inr (l\<lparr>task_exec_scale := max 1 scale\<rparr>)))"

section \<open>Utilisation of a CPU\<close>

definition lse_cpu_util :: "lse_rq \<Rightarrow> u16" where
  "lse_cpu_util l =
     (let shift = drop_bit SCHED_CAPACITY_SHIFT (max (prev_window_size l) 1)
      in if shift = 0 then 0 else ucast (prev_runnable_sum l div ucast shift))"

text \<open>The state behind the systrace counter: the last utilisation printed for the CPU.\<close>

definition cpu_util_update_systrace_c :: "nat \<Rightarrow> lse_rq \<Rightarrow> walt \<Rightarrow> walt" where
  "cpu_util_update_systrace_c cpu l w =
     (let cpu_util = lse_cpu_util l
      in if cpu_util \<noteq> prev_cpu_util w cpu
         then w\<lparr>prev_cpu_util := (prev_cpu_util w)(cpu := cpu_util)\<rparr> else w)"

definition window_rollover_systrace_c :: "walt \<Rightarrow> walt" where
  "window_rollover_systrace_c w = w\<lparr>window_count := window_count w + 1\<rparr>"

section \<open>Busy time of a CPU\<close>

definition account_busy_for_cpu_time :: "task_struct \<Rightarrow> task_event \<Rightarrow> bool" where
  "account_busy_for_cpu_time p event \<longleftrightarrow>
     \<not> is_idle_task p \<and> (event = PUT_PREV_TASK \<or> event = TASK_UPDATE)"

definition cpu_busy_time ::
  "task_struct \<Rightarrow> task_event \<Rightarrow> u64 \<Rightarrow> lse_task_struct \<Rightarrow> lse_rq \<Rightarrow> lse_rq" where
  "cpu_busy_time p event wallclock t l =
     (let ms = mark_start t; ws = window_start l; window_size = prev_window_size l;
          new_window = ms < ws;
          full_window = new_window \<and> ws - ms \<ge> ucast window_size
      in
      if \<not> account_busy_for_cpu_time p event then l
      else if \<not> new_window then
        l\<lparr>curr_runnable_sum := curr_runnable_sum l + scale_exec_time (wallclock - ms) l\<rparr>
      else
        let delta = (if full_window then scale_exec_time (ucast window_size) l
                     else scale_exec_time (ws - ms) l);
            rest = scale_exec_time (wallclock - ws) l
        in l\<lparr>prev_runnable_sum := prev_runnable_sum l + delta,
             curr_runnable_sum := curr_runnable_sum l + rest\<rparr>)"

definition update_cpu_busy_time ::
  "rq \<Rightarrow> task_struct \<Rightarrow> task_event \<Rightarrow> u64 \<Rightarrow> lse_task_struct \<Rightarrow> walt \<times> lse_rq \<Rightarrow> walt \<times> lse_rq" where
  "update_cpu_busy_time rq p event wallclock t wl =
     (let (w, l) = wl; l' = cpu_busy_time p event wallclock t l
      in (if and (dump_info w) LSE_DEBUG_SYSTRACE \<noteq> 0 \<and> mark_start t < window_start l
          then cpu_util_update_systrace_c (rq_cpu rq) l' w else w, l'))"

section \<open>The roll-over work\<close>

text \<open>\<open>irq_work_queue\<close>: nothing happens when the work is already pending.\<close>

definition irq_work_queue :: "nat \<Rightarrow> walt \<Rightarrow> walt" where
  "irq_work_queue cpu w =
     (if lse_slim_walt_irq_work w = None then w\<lparr>lse_slim_walt_irq_work := Some cpu\<rparr> else w)"

text \<open>\<open>this_cpu\<close> is the processor that runs the code, \<open>l\<close> the run queue whose window moved.\<close>

definition lse_window_rollover_run_once ::
  "kernel \<Rightarrow> nat \<Rightarrow> u64 \<Rightarrow> lse_rq \<Rightarrow> walt \<times> monitor \<Rightarrow> walt \<times> monitor" where
  "lse_window_rollover_run_once k this_cpu old_window_start l wm =
     (let (w, m) = wm; new_window_start = window_start l in
      if old_window_start = new_window_start then (w, m)
      else if lse_run_rollover_lastq_ws w \<noteq> old_window_start then (w, m)
      else
        let w = w\<lparr>lse_run_rollover_lastq_ws := new_window_start\<rparr>;
            w = irq_work_queue (if cpu_online k this_cpu then this_cpu
                  else cpumask_any k (filter (cpu_online k) (cpu_possible k))) w;
            w = (if and (dump_info w) LSE_DEBUG_SYSTRACE \<noteq> 0
                 then window_rollover_systrace_c w else w)
        in (w, lse_stats_record_rollover m))"

section \<open>lse_update_task_ravg\<close>

text \<open>What one call works on: the globals, the statistics, the task's and the CPU's structure.\<close>

record ravg =
  rv_walt :: walt
  rv_mon :: monitor
  rv_lts :: lse_task_struct
  rv_lrq :: lse_rq

text \<open>The tail of the function, from the label \<open>done\<close>.\<close>

definition ravg_done ::
  "kernel \<Rightarrow> nat \<Rightarrow> u64 \<Rightarrow> u64 \<Rightarrow> ravg \<Rightarrow> fault + ravg" where
  "ravg_done k this_cpu old_window_start wallclock r =
     (let t = (rv_lts r)\<lparr>mark_start := wallclock\<rparr> in
      ebind (if mark_start t > lts_window_start t + ucast (lse_sched_ravg_window (rv_walt r))
             then lse_bug (dump_info (rv_walt r)) else Inr ()) (\<lambda>_.
      let (w, m) = lse_window_rollover_run_once k this_cpu old_window_start (rv_lrq r)
                     (rv_walt r, rv_mon r)
      in Inr (r\<lparr>rv_walt := w, rv_mon := lse_stats_record_update m, rv_lts := t\<rparr>)))"

definition lse_update_task_ravg ::
  "kernel \<Rightarrow> int \<Rightarrow> nat \<Rightarrow> cpufreq_policy option \<Rightarrow> rq \<Rightarrow> task_struct \<Rightarrow> task_event \<Rightarrow> u64
    \<Rightarrow> ravg \<Rightarrow> fault + ravg" where
  "lse_update_task_ravg k slim_walt_ctrl this_cpu pol rq p event wallclock r =
     (if slim_walt_ctrl = 0 then Inr r
      else
        let r = r\<lparr>rv_lts := lse_refresh_task_hint (rv_walt r) p (rv_lts r)\<rparr> in
        if window_start (rv_lrq r) = 0 \<or> mark_start (rv_lts r) = wallclock then Inr r
        else
        ebind (if \<not> rq_locked rq then lse_bug (dump_info (rv_walt r)) else Inr ()) (\<lambda>_.
        ebind (update_window_start (rv_walt r) wallclock (rv_lrq r)) (\<lambda>(old_window_start, l).
        let t = rv_lts r;
            t = (if lts_window_start t = 0 then t\<lparr>lts_window_start := window_start l\<rparr> else t)
        in
        if mark_start t = 0
        then ravg_done k this_cpu old_window_start wallclock (r\<lparr>rv_lts := t, rv_lrq := l\<rparr>)
        else
        ebind (update_task_rq_cpu_cycles pol (arch_scale_cpu_capacity k (rq_cpu rq)) l) (\<lambda>l.
        ebind (update_task_demand (rv_walt r) l rq p event wallclock t) (\<lambda>(_, t).
        let (w, l) = update_cpu_busy_time rq p event wallclock t (rv_walt r, l);
            t = t\<lparr>lts_window_start := window_start l\<rparr>
        in ravg_done k this_cpu old_window_start wallclock
             (r\<lparr>rv_walt := w, rv_lts := t, rv_lrq := l\<rparr>))))))"

section \<open>Initialisation and window size\<close>

definition lse_sched_init_rq :: "walt \<Rightarrow> lse_rq \<Rightarrow> lse_rq" where
  "lse_sched_init_rq w l =
     l\<lparr>prev_window_size := lse_sched_ravg_window w, task_exec_scale := 1024, window_start := 0\<rparr>"

definition lse_sched_stats_init ::
  "kernel \<Rightarrow> walt \<times> (nat \<Rightarrow> lse_rq) \<Rightarrow> walt \<times> (nat \<Rightarrow> lse_rq)" where
  "lse_sched_stats_init k wl =
     (let (w, lrq) = wl;
          lrq = fold (\<lambda>cpu lrq. lrq(cpu := lse_sched_init_rq w (lrq cpu))) (cpu_possible k) lrq;
          w = w\<lparr>sched_window_stats_policy := WINDOW_STATS_MAX_RECENT_AVG\<rparr>;
          w = (if init_irq_work_inited w then w
               else w\<lparr>lse_slim_walt_irq_work := None, init_irq_work_inited := True\<rparr>)
      in (w\<lparr>lse_scale_demand_divisor := lse_fixup_window_dep (lse_sched_ravg_window w)\<rparr>, lrq))"

text \<open>\<open>NSEC_PER_SEC / frame_per_sec\<close> is a signed 64-bit division, assigned to an
  \<open>unsigned int\<close>.\<close>

definition sched_ravg_window_change :: "int \<Rightarrow> walt \<Rightarrow> fault + walt" where
  "sched_ravg_window_change frame_per_sec w =
     (if frame_per_sec = 0 then Inl Div_By_Zero
      else Inr (w\<lparr>new_lse_sched_ravg_window := word_of_int (cdiv NSEC_PER_SEC frame_per_sec)\<rparr>))"

text \<open>The part of \<open>lse_irq_work\<close> that adopts a new window size.\<close>

definition adopt_new_window :: "u64 \<Rightarrow> lse_rq \<Rightarrow> walt \<Rightarrow> walt" where
  "adopt_new_window wc l w =
     (if new_lse_sched_ravg_window w \<noteq> lse_sched_ravg_window w \<and>
         wc < window_start l + ucast (new_lse_sched_ravg_window w)
      then w\<lparr>lse_sched_ravg_window := new_lse_sched_ravg_window w\<rparr> else w)"

section \<open>Where the window moves to\<close>

lemma unat_windows:
  assumes "n < 2 ^ 31" "n * unat (W :: u32) < 2 ^ 64"
  shows "unat (word_of_nat n * ucast W :: u64) = n * unat W"
proof -
  have "unat (word_of_nat n :: u64) = n" using assms(1) by (simp add: unat_of_nat)
  with assms(2) show ?thesis by (subst unat_u64_mult) simp_all
qed

lemma update_window_start_eq:
  assumes W: "lse_sched_ravg_window w \<noteq> 0"
    and order: "latest_clock l \<le> wc" "window_start l \<le> wc"
    and far: "unat (wc - window_start l) < 2 ^ 63"
  defines "W \<equiv> lse_sched_ravg_window w"
  defines "n \<equiv> unat (wc - window_start l) div unat W"
  assumes n: "n < 2 ^ 31"
  shows "update_window_start w wc l = Inr (window_start l,
      if n = 0 then l\<lparr>latest_clock := wc\<rparr>
      else rollover_cpu_window (l\<lparr>latest_clock := wc,
             window_start := window_start l + word_of_nat n * ucast W,
             prev_window_size := W\<rparr>) (1 < n))"
proof -
  let ?d = "wc - window_start l"
  have d: "sint ?d = int (unat ?d)" using far by (simp add: sint_u64)
  have Wpos: "0 < unat W" using W by (simp add: W_def unat_gt_0)
  have small: "sint ?d < uint W \<longleftrightarrow> n = 0"
  proof -
    have "sint ?d < uint W \<longleftrightarrow> unat ?d < unat W"
      unfolding d by (metis of_nat_less_iff of_nat_unat)
    with Wpos show ?thesis by (simp add: n_def div_eq_0_iff)
  qed
  have q: "to_int (?d div ucast W) = int n"
    using n by (subst to_int_small) (simp_all add: unat_div n_def)
  show ?thesis
  proof (cases "n = 0")
    case True
    with small order d show ?thesis
      by (simp add: update_window_start_def W_def Let_def not_less [symmetric])
  next
    case False
    with small order d q W show ?thesis
      by (simp add: update_window_start_def W_def Let_def not_less [symmetric] div64_u64_Inr)
  qed
qed

lemma window_advance:
  assumes "(ws :: u64) \<le> wc" and n: "unat (wc - ws) div unat (W :: u32) < 2 ^ 31" and W: "W \<noteq> 0"
  defines "n \<equiv> unat (wc - ws) div unat W"
  defines "ws' \<equiv> ws + word_of_nat n * ucast W"
  shows "unat ws' = unat ws + n * unat W" and "ws \<le> ws'" "ws' \<le> wc"
    and "unat (wc - ws') = unat (wc - ws) mod unat W"
proof -
  have le: "n * unat W \<le> unat (wc - ws)" by (simp add: n_def div_times_less_eq_dividend)
  have diff: "unat (wc - ws) = unat wc - unat ws" using assms(1) by (rule unat_u64_sub)
  have m: "unat (word_of_nat n * ucast W :: u64) = n * unat W"
  proof (rule unat_windows)
    show "n < 2 ^ 31" using n by (simp add: n_def)
    show "n * unat W < 2 ^ 64" using le u64_bound [of "wc - ws"] by simp
  qed
  have "unat ws + n * unat W \<le> unat wc" using le diff assms(1) by (simp add: u64_le_iff)
  then have "unat ws + unat (word_of_nat n * ucast W :: u64) < 2 ^ 64"
    using u64_bound [of wc] by (simp add: m)
  then show ws': "unat ws' = unat ws + n * unat W"
    unfolding ws'_def by (simp only: unat_u64_add m)
  show "ws \<le> ws'" "ws' \<le> wc"
    using le diff assms(1) by (simp_all add: u64_le_iff ws')
  then have "unat (wc - ws') = unat (wc - ws) - n * unat W"
    using diff by (simp add: unat_u64_sub ws')
  then show "unat (wc - ws') = unat (wc - ws) mod unat W"
    by (simp add: n_def minus_div_mult_eq_mod)
qed


section \<open>The sums of a CPU never exceed the time there was\<close>

text \<open>
  \<open>cpu_ok W l\<close>: the latest event lies in the current window of length \<open>W\<close> (or before it, when the
  window was just set up), the current sum is at most the time from the start of the window to the
  latest event, and the previous sum at most the size of the previous window.
\<close>

definition cpu_ok :: "u32 \<Rightarrow> lse_rq \<Rightarrow> bool" where
  "cpu_ok W l \<longleftrightarrow> unat (latest_clock l) < unat (window_start l) + unat W \<and>
     unat (curr_runnable_sum l) \<le> unat (latest_clock l) - unat (window_start l) \<and>
     unat (prev_runnable_sum l) \<le> unat (prev_window_size l)"

text \<open>The state between the roll-over and the accounting: what is left to be charged fits.\<close>

definition cpu_room :: "u32 \<Rightarrow> u64 \<Rightarrow> u64 \<Rightarrow> lse_rq \<Rightarrow> bool" where
  "cpu_room W m wc l \<longleftrightarrow> latest_clock l = wc \<and> window_start l \<le> wc \<and>
     unat (wc - window_start l) < unat W \<and>
     (if m < window_start l
      then prev_window_size l = W \<and> curr_runnable_sum l = 0 \<and>
        unat (prev_runnable_sum l) + min (unat W) (unat (window_start l) - unat m) \<le> unat W
      else unat (curr_runnable_sum l) + (unat wc - unat m) \<le> unat wc - unat (window_start l) \<and>
        unat (prev_runnable_sum l) \<le> unat (prev_window_size l))"

lemma rollover_cpu_window_simps [simp]:
  "window_start (rollover_cpu_window l f) = window_start l"
  "latest_clock (rollover_cpu_window l f) = latest_clock l"
  "prev_window_size (rollover_cpu_window l f) = prev_window_size l"
  "task_exec_scale (rollover_cpu_window l f) = task_exec_scale l"
  "curr_runnable_sum (rollover_cpu_window l f) = 0"
  "prev_runnable_sum (rollover_cpu_window l f) = (if f then 0 else curr_runnable_sum l)"
  by (simp_all add: rollover_cpu_window_def Let_def)

lemma rollover_room:
  assumes ok: "cpu_ok W l" and m: "window_start l \<le> m" "latest_clock l \<le> m" "m \<le> wc"
    and ws': "unat ws' = unat (window_start l) + n * unat W" "ws' \<le> wc" "unat (wc - ws') < unat W"
    and n: "n \<noteq> 0"
  shows "cpu_room W m wc (rollover_cpu_window (l\<lparr>latest_clock := wc, window_start := ws',
           prev_window_size := W\<rparr>) (1 < n))"
proof -
  have curr: "unat (curr_runnable_sum l) \<le> unat W" "n = 1 \<Longrightarrow> m < ws' \<Longrightarrow>
      unat (curr_runnable_sum l) + (unat ws' - unat m) \<le> unat W"
    using ok m ws'(1) by (auto simp: cpu_ok_def word_orders)
  show ?thesis using curr n m(3) ws'(2,3)
    by (cases "n = 1") (auto simp: cpu_room_def word_orders)
qed

lemma update_window_start_room:
  assumes W: "lse_sched_ravg_window w = W" "W \<noteq> 0"
    and order: "latest_clock l \<le> wc" "window_start l \<le> wc"
    and far: "unat (wc - window_start l) < 2 ^ 54"
    and n: "unat (wc - window_start l) div unat W < 2 ^ 31"
    and ok: "cpu_ok W l" and m: "window_start l \<le> m" "latest_clock l \<le> m" "m \<le> wc"
  shows "\<exists>l'. update_window_start w wc l = Inr (window_start l, l') \<and> cpu_room W m wc l'"
proof -
  let ?n = "unat (wc - window_start l) div unat W"
  let ?ws = "window_start l + word_of_nat ?n * ucast W"
  note adv = window_advance [OF order(2) n W(2)]
  have Wpos: "0 < unat W" using W(2) by (simp add: unat_gt_0)
  note diff = unat_u64_sub [OF order(2)]
  have eq: "update_window_start w wc l = Inr (window_start l,
      if ?n = 0 then l\<lparr>latest_clock := wc\<rparr>
      else rollover_cpu_window (l\<lparr>latest_clock := wc, window_start := ?ws,
             prev_window_size := W\<rparr>) (1 < ?n))"
    using update_window_start_eq [of w l wc] W order far n by simp
  show ?thesis
  proof (cases "?n = 0")
    case True
    then have "unat (wc - window_start l) < unat W" using Wpos by (simp add: div_eq_0_iff)
    with eq True ok m order show ?thesis
      by (auto simp: cpu_room_def cpu_ok_def word_orders)
  next
    case False
    have "cpu_room W m wc (rollover_cpu_window (l\<lparr>latest_clock := wc, window_start := ?ws,
             prev_window_size := W\<rparr>) (1 < ?n))"
      by (rule rollover_room [OF ok m adv(1,3) _ False]) (simp add: adv(4) Wpos)
    with eq False show ?thesis by simp
  qed
qed

lemma cpu_busy_time_ok:
  assumes room: "cpu_room W (mark_start t) wc l" and scale: "unat (task_exec_scale l) \<le> 1024"
    and m: "mark_start t \<le> wc" and far: "unat wc - unat (mark_start t) < 2 ^ 54"
  shows "cpu_ok W (cpu_busy_time p e wc t l)"
proof (cases "mark_start t < window_start l")
  case False
  have "unat (scale_exec_time (wc - mark_start t) l) \<le> unat wc - unat (mark_start t)"
    using scale_exec_time_le [OF _ scale, of "wc - mark_start t"] m far by (simp add: unat_u64_sub)
  with room False u64_bound [of wc] show ?thesis
    by (auto simp: cpu_room_def cpu_ok_def cpu_busy_time_def Let_def unat_u64_add unat_u64_sub word_orders)
next
  case True
  have "unat (wc - window_start l) \<le> unat wc - unat (mark_start t)" "window_start l \<le> wc"
    using room True by (auto simp: cpu_room_def unat_u64_sub word_orders)
  then have rest: "unat (scale_exec_time (wc - window_start l) l) \<le> unat wc - unat (window_start l)"
    using scale_exec_time_le [OF _ scale, of "wc - window_start l"] far by (simp add: unat_u64_sub)
  let ?full = "window_start l - mark_start t \<ge> ucast (prev_window_size l)"
  have W: "prev_window_size l = W" using room True by (simp add: cpu_room_def)
  have diff: "unat (window_start l - mark_start t) = unat (window_start l) - unat (mark_start t)"
    using True by (simp add: unat_u64_sub less_imp_le)
  have "unat (scale_exec_time (if ?full then ucast W else window_start l - mark_start t) l)
      \<le> min (unat W) (unat (window_start l) - unat (mark_start t))"
  proof (cases ?full)
    case full: True
    have "unat (ucast W :: u64) < 2 ^ 54" using u32_bound [of W] by simp
    from scale_exec_time_le [OF this scale] full W diff show ?thesis
      by (simp add: u64_le_iff)
  next
    case False
    then have d: "unat (window_start l - mark_start t) < unat W" by (simp add: W u64_le_iff)
    then have "unat (window_start l - mark_start t) < 2 ^ 54" using u32_bound [of W] by simp
    from scale_exec_time_le [OF this scale] d False diff show ?thesis by simp
  qed
  moreover have "unat wc < unat (window_start l) + unat W"
    using room by (auto simp: cpu_room_def unat_u64_sub word_orders)
  ultimately show ?thesis using room True rest W u32_bound [of W]
    by (auto simp: cpu_room_def cpu_ok_def cpu_busy_time_def Let_def unat_u64_add word_orders)
qed

section \<open>A call of lse_update_task_ravg\<close>

definition policy_ok :: "cpufreq_policy option \<Rightarrow> bool" where
  "policy_ok pol \<longleftrightarrow> cpu_cur_freq pol \<le> get_max_freq pol"

lemma update_task_rq_cpu_cycles_ok:
  assumes "policy_ok pol" "unat cap \<le> 1024"
  shows "\<exists>s. update_task_rq_cpu_cycles pol cap l = Inr (l\<lparr>task_exec_scale := s\<rparr>) \<and>
    1 \<le> unat s \<and> unat s \<le> 1024"
proof -
  have "\<exists>q. (if get_max_freq pol = 0 then Inr cap
      else div64_roundup_u32 (ucast (cpu_cur_freq pol) * cap) (get_max_freq pol)) = Inr q \<and> unat q \<le> 1024"
  proof (cases "get_max_freq pol = 0")
    case False
    have le: "unat (cpu_cur_freq pol) * unat cap \<le> unat (get_max_freq pol) * 1024"
      using assms by (intro mult_le_mono) (simp_all add: policy_ok_def u32_le_iff)
    also have "\<dots> < 2 ^ 64" using u32_bound [of "get_max_freq pol"] by simp
    finally have "unat (ucast (cpu_cur_freq pol) * cap) = unat (cpu_cur_freq pol) * unat cap"
      by (subst unat_u64_mult) simp_all
    with le False div64_roundup_u32_bound [of "get_max_freq pol" "ucast (cpu_cur_freq pol) * cap" 1024]
    show ?thesis by (simp add: unat_gt_0 mult.commute)
  qed (use assms in simp)
  then obtain q where "update_task_rq_cpu_cycles pol cap l = Inr (l\<lparr>task_exec_scale := max 1 q\<rparr>)"
    "unat q \<le> 1024" by (auto simp: update_task_rq_cpu_cycles_def Let_def)
  then show ?thesis by (auto simp: unat_max)
qed

definition ravg_inv :: "u32 \<Rightarrow> u32 \<Rightarrow> nat \<Rightarrow> ravg \<Rightarrow> bool" where
  "ravg_inv W B S r \<longleftrightarrow> cpu_ok W (rv_lrq r) \<and> lts_bounded B S (rv_lts r) \<and>
     (mark_start (rv_lts r) = 0 \<longrightarrow> lts_window_start (rv_lts r) = 0)"

text \<open>
  What the callers guarantee: the run queue is locked, the clock is not behind the CPU's latest
  event or window (\<open>lse_rq_clock\<close> takes care of the first) and less than \<open>2^54\<close> ns and \<open>2^31\<close>
  windows ahead, frequencies and capacities are in range, and a task that is charged has run
  on this CPU since the CPU's latest event.
\<close>

definition ravg_pre ::
  "kernel \<Rightarrow> cpufreq_policy option \<Rightarrow> rq \<Rightarrow> task_struct \<Rightarrow> task_event \<Rightarrow> u64 \<Rightarrow> ravg \<Rightarrow> bool" where
  "ravg_pre k pol rq p event wc r \<longleftrightarrow>
     (let w = rv_walt r; l = rv_lrq r; W = lse_sched_ravg_window w; m = mark_start (rv_lts r) in
      rq_locked rq \<and> policy_ok pol \<and> unat (arch_scale_cpu_capacity k (rq_cpu rq)) \<le> 1024 \<and>
      latest_clock l \<le> wc \<and> window_start l \<le> wc \<and> unat wc < 2 ^ 63 \<and>
      unat (wc - window_start l) < 2 ^ 54 \<and> unat (wc - window_start l) div unat W < 2 ^ 31 \<and>
      (account_busy_for_cpu_time p event \<and> m \<noteq> 0 \<longrightarrow>
         window_start l \<le> m \<and> latest_clock l \<le> m \<and> m \<le> wc))"

definition walt_ok :: "u32 \<Rightarrow> nat \<Rightarrow> walt \<Rightarrow> bool" where
  "walt_ok B S w \<longleftrightarrow> lse_sched_ravg_window w \<noteq> 0 \<and> lse_sched_ravg_window w \<le> B \<and>
     lse_scale_demand_divisor w \<noteq> 0 \<and> unat B div unat (lse_scale_demand_divisor w) \<le> S"


lemma run_once_frame:
  assumes "lse_window_rollover_run_once k c old l (w, m) = (w', m')"
  shows "lse_sched_ravg_window w' = lse_sched_ravg_window w"
    "lse_scale_demand_divisor w' = lse_scale_demand_divisor w"
    "sched_window_stats_policy w' = sched_window_stats_policy w"
    "dump_info w' = dump_info w"
  using assms by (auto simp: lse_window_rollover_run_once_def Let_def irq_work_queue_def
      window_rollover_systrace_c_def split: if_splits)

lemma update_cpu_busy_time_frame:
  assumes "update_cpu_busy_time rq p e wc t (w, l) = (w', l')"
  shows "lse_sched_ravg_window w' = lse_sched_ravg_window w"
    "lse_scale_demand_divisor w' = lse_scale_demand_divisor w"
    "dump_info w' = dump_info w" "l' = cpu_busy_time p e wc t l"
  using assms by (auto simp: update_cpu_busy_time_def Let_def cpu_util_update_systrace_c_def split: if_splits)

lemma cpu_busy_time_frame [simp]:
  "window_start (cpu_busy_time p e wc t l) = window_start l"
  "latest_clock (cpu_busy_time p e wc t l) = latest_clock l"
  "prev_window_size (cpu_busy_time p e wc t l) = prev_window_size l"
  "task_exec_scale (cpu_busy_time p e wc t l) = task_exec_scale l"
  by (simp_all add: cpu_busy_time_def Let_def)

lemma cpu_busy_time_idle: "\<not> account_busy_for_cpu_time p e \<Longrightarrow> cpu_busy_time p e wc t l = l"
  by (simp add: cpu_busy_time_def Let_def)

lemma refresh_hint_frame [simp]:
  "mark_start (lse_refresh_task_hint w p t) = mark_start t"
  "lts_window_start (lse_refresh_task_hint w p t) = lts_window_start t"
  "sum_history (lse_refresh_task_hint w p t) = sum_history t"
  "cidx (lse_refresh_task_hint w p t) = cidx t"
  "lts_sum (lse_refresh_task_hint w p t) = lts_sum t"
  "demand (lse_refresh_task_hint w p t) = demand t"
  "demand_scaled (lse_refresh_task_hint w p t) = demand_scaled t"
  "on_dsq (lse_refresh_task_hint w p t) = on_dsq t"
  "lts_bounded B S (lse_refresh_task_hint w p t) = lts_bounded B S t"
  by (simp_all add: lse_refresh_task_hint_def lts_bounded_def history_ok_def Let_def)

lemma ravg_done_ok:
  assumes "unat wc \<le> unat (lts_window_start (rv_lts r)) + unat (lse_sched_ravg_window (rv_walt r))"
    and "unat wc < 2 ^ 63" "lts_window_start (rv_lts r) \<le> wc"
  shows "\<exists>w m. ravg_done k c old wc r = Inr (r\<lparr>rv_walt := w, rv_mon := m,
      rv_lts := (rv_lts r)\<lparr>mark_start := wc\<rparr>\<rparr>) \<and>
    lse_sched_ravg_window w = lse_sched_ravg_window (rv_walt r) \<and>
    lse_scale_demand_divisor w = lse_scale_demand_divisor (rv_walt r) \<and>
    dump_info w = dump_info (rv_walt r)"
proof -
  obtain w m where wm: "lse_window_rollover_run_once k c old (rv_lrq r) (rv_walt r, rv_mon r) = (w, m)"
    by force
  have "unat (lts_window_start (rv_lts r) + ucast (lse_sched_ravg_window (rv_walt r))) =
      unat (lts_window_start (rv_lts r)) + unat (lse_sched_ravg_window (rv_walt r))"
    using assms(2,3) u32_bound [of "lse_sched_ravg_window (rv_walt r)"]
    by (subst unat_u64_add) (simp_all add: u64_le_iff)
  with assms(1) have "\<not> wc > lts_window_start (rv_lts r) + ucast (lse_sched_ravg_window (rv_walt r))"
    by (simp add: u64_less_iff)
  with wm run_once_frame [OF wm] show ?thesis by (auto simp: ravg_done_def Let_def)
qed

lemma update_window_start_total:
  assumes "lse_sched_ravg_window w = W" "W \<noteq> 0" "latest_clock l \<le> wc" "window_start l \<le> wc"
    and "unat (wc - window_start l) < 2 ^ 54" "unat (wc - window_start l) div unat W < 2 ^ 31"
    and "cpu_ok W l"
  shows "\<exists>l'. update_window_start w wc l = Inr (window_start l, l') \<and> cpu_ok W l' \<and>
    latest_clock l' = wc \<and> window_start l' \<le> wc \<and> unat (wc - window_start l') < unat W \<and>
    (window_start l \<le> m \<and> latest_clock l \<le> m \<and> m \<le> wc \<longrightarrow> cpu_room W m wc l')"
proof -
  have *: "\<exists>l'. update_window_start w wc l = Inr (window_start l, l') \<and> cpu_room W m' wc l'"
    if "window_start l \<le> m' \<and> latest_clock l \<le> m' \<and> m' \<le> wc" for m'
    using update_window_start_room [OF assms] that by blast
  obtain l' where l': "update_window_start w wc l = Inr (window_start l, l')" "cpu_room W wc wc l'"
    using * [of wc] assms(3,4) by blast
  moreover from l'(2) have "cpu_ok W l'"
    by (auto simp: cpu_room_def cpu_ok_def unat_u64_sub word_orders)
  moreover have "cpu_room W m wc l'" if "window_start l \<le> m \<and> latest_clock l \<le> m \<and> m \<le> wc"
    using * [OF that] l'(1) by auto
  ultimately show ?thesis by (auto simp: cpu_room_def)
qed

lemma cpu_scale_frame [simp]:
  "cpu_room W m wc (l\<lparr>task_exec_scale := s\<rparr>) = cpu_room W m wc l"
  "cpu_ok W (l\<lparr>task_exec_scale := s\<rparr>) = cpu_ok W l"
  by (simp_all add: cpu_room_def cpu_ok_def)

lemma lts_bounded_frame [simp]:
  "lts_bounded B S (t\<lparr>mark_start := m\<rparr>) = lts_bounded B S t"
  "lts_bounded B S (t\<lparr>lts_window_start := m\<rparr>) = lts_bounded B S t"
  by (simp_all add: lts_bounded_def)

text \<open>The accounting in the middle of the function, for a task that has been seen before.\<close>

definition ravg_account ::
  "kernel \<Rightarrow> cpufreq_policy option \<Rightarrow> rq \<Rightarrow> task_struct \<Rightarrow> task_event \<Rightarrow> u64 \<Rightarrow> ravg \<Rightarrow> fault + ravg" where
  "ravg_account k pol rq p event wallclock r =
     ebind (update_task_rq_cpu_cycles pol (arch_scale_cpu_capacity k (rq_cpu rq)) (rv_lrq r)) (\<lambda>l.
     ebind (update_task_demand (rv_walt r) l rq p event wallclock (rv_lts r)) (\<lambda>(_, t).
     let (w, l) = update_cpu_busy_time rq p event wallclock t (rv_walt r, l)
     in Inr (r\<lparr>rv_walt := w, rv_lts := t\<lparr>lts_window_start := window_start l\<rparr>, rv_lrq := l\<rparr>)))"

lemma ravg_account_ok:
  assumes pol: "policy_ok pol" "unat (arch_scale_cpu_capacity k (rq_cpu rq)) \<le> 1024"
    and w: "walt_ok B S (rv_walt r)" and ok: "lts_bounded B S (rv_lts r)" "cpu_ok W (rv_lrq r)"
    and busy: "account_busy_for_cpu_time p e \<Longrightarrow> cpu_room W (mark_start (rv_lts r)) wc (rv_lrq r) \<and>
      mark_start (rv_lts r) \<le> wc \<and> unat wc - unat (mark_start (rv_lts r)) < 2 ^ 54"
  shows "\<exists>r'. ravg_account k pol rq p e wc r = Inr r' \<and> lts_bounded B S (rv_lts r') \<and>
    cpu_ok W (rv_lrq r') \<and> walt_ok B S (rv_walt r') \<and>
    lse_sched_ravg_window (rv_walt r') = lse_sched_ravg_window (rv_walt r) \<and>
    lts_window_start (rv_lts r') = window_start (rv_lrq r') \<and>
    window_start (rv_lrq r') = window_start (rv_lrq r) \<and>
    latest_clock (rv_lrq r') = latest_clock (rv_lrq r)"
proof -
  obtain s where s: "update_task_rq_cpu_cycles pol (arch_scale_cpu_capacity k (rq_cpu rq)) (rv_lrq r) =
      Inr ((rv_lrq r)\<lparr>task_exec_scale := s\<rparr>)" "unat s \<le> 1024"
    using update_task_rq_cpu_cycles_ok [OF pol] by blast
  let ?l = "(rv_lrq r)\<lparr>task_exec_scale := s\<rparr>"
  obtain d t where t: "update_task_demand (rv_walt r) ?l rq p e wc (rv_lts r) = Inr (d, t)"
    "lts_bounded B S t" "mark_start t = mark_start (rv_lts r)"
    using update_task_demand_bounded [where w = "rv_walt r" and B = B and S = S and l = ?l
        and t = "rv_lts r" and rq = rq and p = p and event = e and wallclock = wc] w ok(1) s(2)
    by (auto simp: walt_ok_def)
  obtain w' l' where b: "update_cpu_busy_time rq p e wc t (rv_walt r, ?l) = (w', l')" by force
  note frame = update_cpu_busy_time_frame [OF b]
  have "cpu_ok W l'"
  proof (cases "account_busy_for_cpu_time p e")
    case True
    with busy t(3) s(2) show ?thesis unfolding frame(4) by (intro cpu_busy_time_ok) auto
  next
    case False
    with ok(2) show ?thesis unfolding frame(4) by (simp add: cpu_busy_time_idle)
  qed
  with s(1) t(1,2) b frame w show ?thesis
    by (simp add: ravg_account_def walt_ok_def Let_def)
qed

lemma lse_update_task_ravg_account:
  assumes "slim_walt_ctrl \<noteq> 0" "window_start (rv_lrq r) \<noteq> 0" "mark_start (rv_lts r) \<noteq> wc" "rq_locked rq"
    and "update_window_start (rv_walt r) wc (rv_lrq r) = Inr (old, l)"
    and "t = lse_refresh_task_hint (rv_walt r) p (rv_lts r)"
    and "r' = r\<lparr>rv_lts := if lts_window_start t = 0 then t\<lparr>lts_window_start := window_start l\<rparr> else t,
                rv_lrq := l\<rparr>"
  shows "lse_update_task_ravg k slim_walt_ctrl c pol rq p e wc r =
     ebind (if mark_start t = 0 then Inr r' else ravg_account k pol rq p e wc r') (ravg_done k c old wc)"
  using assms
  by (cases "lts_window_start (rv_lts r) = 0")
    (simp_all add: lse_update_task_ravg_def ravg_account_def Let_def ebind_assoc case_prod_unfold)

text \<open>Between the roll-over and the label \<open>done\<close>, for a new and for a known task.\<close>

lemma ravg_middle_ok:
  assumes pre: "ravg_pre k pol rq p e wc r" and inv: "ravg_inv W B S r"
    and w: "walt_ok B S (rv_walt r)" "lse_sched_ravg_window (rv_walt r) = W"
    and l: "cpu_ok W l" "latest_clock l = wc"
      "window_start (rv_lrq r) \<le> mark_start t \<and> latest_clock (rv_lrq r) \<le> mark_start t \<and>
        mark_start t \<le> wc \<longrightarrow> cpu_room W (mark_start t) wc l"
    and t: "t = lse_refresh_task_hint (rv_walt r) p (rv_lts r)"
    and r': "r' = r\<lparr>rv_lts := if lts_window_start t = 0 then t\<lparr>lts_window_start := window_start l\<rparr> else t,
                rv_lrq := l\<rparr>"
  shows "\<exists>r1. (if mark_start t = 0 then Inr r' else ravg_account k pol rq p e wc r') = Inr r1 \<and>
    lts_bounded B S (rv_lts r1) \<and> cpu_ok W (rv_lrq r1) \<and> walt_ok B S (rv_walt r1) \<and>
    lse_sched_ravg_window (rv_walt r1) = W \<and> lts_window_start (rv_lts r1) = window_start (rv_lrq r1) \<and>
    window_start (rv_lrq r1) = window_start l \<and> latest_clock (rv_lrq r1) = wc"
proof (cases "mark_start t = 0")
  case True
  with inv w l t show ?thesis by (auto simp: r' ravg_inv_def)
next
  case False
  note p = pre [unfolded ravg_pre_def Let_def w(2)]
  have busy: "cpu_room W (mark_start (rv_lts r')) wc (rv_lrq r') \<and> mark_start (rv_lts r') \<le> wc \<and>
      unat wc - unat (mark_start (rv_lts r')) < 2 ^ 54" if "account_busy_for_cpu_time p e"
    using p l(3) that False t
    by (auto simp: r' unat_u64_sub u64_le_iff split: if_splits)
  have ok: "lts_bounded B S (rv_lts r')" "cpu_ok W (rv_lrq r')"
    using inv l(1) t by (auto simp: r' ravg_inv_def)
  show ?thesis
    using ravg_account_ok [of pol k rq B S r' W p e wc, OF _ _ _ ok busy] p w l(2) False by (auto simp: r')
qed

lemma lse_update_task_ravg_ok:
  assumes inv: "ravg_inv W B S r" and pre: "ravg_pre k pol rq p e wc r"
    and w: "walt_ok B S (rv_walt r)" "lse_sched_ravg_window (rv_walt r) = W"
  shows "\<exists>r'. lse_update_task_ravg k ctrl c pol rq p e wc r = Inr r' \<and>
    ravg_inv W B S r' \<and> walt_ok B S (rv_walt r') \<and> lse_sched_ravg_window (rv_walt r') = W \<and>
    (ctrl \<noteq> 0 \<and> window_start (rv_lrq r) \<noteq> 0 \<longrightarrow> mark_start (rv_lts r') = wc) \<and>
    (ctrl \<noteq> 0 \<and> window_start (rv_lrq r) \<noteq> 0 \<and> mark_start (rv_lts r) \<noteq> wc \<longrightarrow>
       latest_clock (rv_lrq r') = wc \<and> window_start (rv_lrq r') \<le> wc \<and>
       unat (wc - window_start (rv_lrq r')) < unat W \<and>
       lts_window_start (rv_lts r') = window_start (rv_lrq r'))"
proof (cases "ctrl \<noteq> 0 \<and> window_start (rv_lrq r) \<noteq> 0 \<and> mark_start (rv_lts r) \<noteq> wc")
  case False
  with inv w show ?thesis by (auto simp: lse_update_task_ravg_def ravg_inv_def Let_def)
next
  case True
  let ?t = "lse_refresh_task_hint (rv_walt r) p (rv_lts r)"
  note p = pre [unfolded ravg_pre_def Let_def w(2)]
  have "W \<noteq> 0" using w by (auto simp: walt_ok_def)
  then obtain l where l: "update_window_start (rv_walt r) wc (rv_lrq r) = Inr (window_start (rv_lrq r), l)"
    "cpu_ok W l" "latest_clock l = wc" "window_start l \<le> wc" "unat (wc - window_start l) < unat W"
    "window_start (rv_lrq r) \<le> mark_start ?t \<and> latest_clock (rv_lrq r) \<le> mark_start ?t \<and>
      mark_start ?t \<le> wc \<longrightarrow> cpu_room W (mark_start ?t) wc l"
    using p inv update_window_start_total [OF w(2), of "rv_lrq r" wc "mark_start ?t"]
    by (auto simp: ravg_inv_def)
  have call: "lse_update_task_ravg k ctrl c pol rq p e wc r =
      ebind (if mark_start ?t = 0 then Inr r' else ravg_account k pol rq p e wc r')
        (ravg_done k c (window_start (rv_lrq r)) wc)"
    if "r' = r\<lparr>rv_lts := if lts_window_start ?t = 0 then ?t\<lparr>lts_window_start := window_start l\<rparr>
          else ?t, rv_lrq := l\<rparr>" for r'
    using True p l(1) that by (intro lse_update_task_ravg_account) auto
  obtain r1 where r1: "lse_update_task_ravg k ctrl c pol rq p e wc r =
        ravg_done k c (window_start (rv_lrq r)) wc r1"
    "lts_bounded B S (rv_lts r1)" "cpu_ok W (rv_lrq r1)" "walt_ok B S (rv_walt r1)"
    "lse_sched_ravg_window (rv_walt r1) = W" "lts_window_start (rv_lts r1) = window_start (rv_lrq r1)"
    "window_start (rv_lrq r1) = window_start l" "latest_clock (rv_lrq r1) = wc"
    using ravg_middle_ok [OF pre inv w l(2,3,6) refl refl] call [OF refl] by auto
  have "wc \<noteq> 0" using p True by auto
  moreover have "unat wc \<le> unat (window_start l) + unat W"
    using l(4,5) by (simp add: unat_u64_sub word_orders)
  moreover obtain w' m' where "ravg_done k c (window_start (rv_lrq r)) wc r1 =
      Inr (r1\<lparr>rv_walt := w', rv_mon := m', rv_lts := (rv_lts r1)\<lparr>mark_start := wc\<rparr>\<rparr>)"
    "lse_sched_ravg_window w' = W" "lse_scale_demand_divisor w' = lse_scale_demand_divisor (rv_walt r1)"
    using ravg_done_ok [of wc r1 k c "window_start (rv_lrq r)"] calculation(2) r1(5-7) p l(4) by auto
  ultimately show ?thesis using r1 l(4,5) by (auto simp: ravg_inv_def walt_ok_def)
qed

section \<open>Utilisation\<close>

lemma lse_cpu_util_bound:
  assumes "unat (prev_runnable_sum l) \<le> unat (prev_window_size l)"
    and "2 ^ 20 \<le> unat (prev_window_size l)"
  shows "unat (lse_cpu_util l) \<le> 1024"
proof -
  let ?W = "prev_window_size l" and ?s = "lse_fixup_window_dep (prev_window_size l)"
  have m: "max ?W 1 = ?W" using assms(2) by (simp add: max_def u32_le_iff)
  have s: "unat ?s = unat ?W div 1024" by (rule unat_fixup)
  have big: "1024 \<le> unat ?W div 1024" using div_le_mono [OF assms(2), of 1024] by simp
  have "unat (prev_runnable_sum l div ucast ?s) \<le> unat ?W div (unat ?W div 1024)"
    using assms(1) by (simp add: unat_div s div_le_mono)
  also have "\<dots> < 1025"
  proof -
    have "unat ?W = 1024 * (unat ?W div 1024) + unat ?W mod 1024" by simp
    also have "\<dots> < 1025 * (unat ?W div 1024)" using big mod_less_divisor [of 1024 "unat ?W"] by linarith
    finally show ?thesis using big by (simp add: div_less_iff_less_mult)
  qed
  finally have "unat (prev_runnable_sum l div ucast ?s) \<le> 1024" by simp
  moreover have "unat (lse_cpu_util l) \<le> unat (prev_runnable_sum l div ucast ?s)"
    by (simp add: lse_cpu_util_def Let_def m lse_fixup_window_dep_def unsigned_ucast_eq take_bit_eq_mod)
  ultimately show ?thesis by simp
qed

section \<open>One election per window\<close>

text \<open>The CPUs that see the window move from \<open>old\<close>, in the order in which they get there.\<close>

definition rollover_cpus ::
  "kernel \<Rightarrow> u64 \<Rightarrow> (nat \<times> lse_rq) list \<Rightarrow> walt \<times> monitor \<Rightarrow> walt \<times> monitor" where
  "rollover_cpus k old cpus wm = fold (\<lambda>(cpu, l). lse_window_rollover_run_once k cpu old l) cpus wm"

lemma rollover_loser:
  "lse_run_rollover_lastq_ws (fst wm) \<noteq> old \<Longrightarrow> lse_window_rollover_run_once k cpu old l wm = wm"
  by (cases wm) (simp add: lse_window_rollover_run_once_def Let_def)

lemma rollover_losers:
  "lse_run_rollover_lastq_ws (fst wm) \<noteq> old \<Longrightarrow> rollover_cpus k old cpus wm = wm"
  unfolding rollover_cpus_def by (induction cpus) (auto simp: rollover_loser)

lemma rollover_winner:
  "lse_run_rollover_lastq_ws w = old \<Longrightarrow> window_start l \<noteq> old \<Longrightarrow>
   lse_run_rollover_lastq_ws (fst (lse_window_rollover_run_once k cpu old l (w, m))) = window_start l"
  by (simp add: lse_window_rollover_run_once_def irq_work_queue_def window_rollover_systrace_c_def Let_def)

lemma rollover_once:
  assumes "lse_run_rollover_lastq_ws w = old" "window_start l \<noteq> old"
  shows "rollover_cpus k old ((cpu, l) # cpus) (w, m) = lse_window_rollover_run_once k cpu old l (w, m)"
proof -
  have "rollover_cpus k old cpus (lse_window_rollover_run_once k cpu old l (w, m)) =
      lse_window_rollover_run_once k cpu old l (w, m)"
    using rollover_winner [OF assms] assms(2) by (intro rollover_losers) auto
  then show ?thesis by (simp add: rollover_cpus_def)
qed

section \<open>The window size\<close>

lemma sched_ravg_window_change_spec:
  assumes "1 \<le> fps" "fps \<le> 1000000000"
  shows "\<exists>w'. sched_ravg_window_change fps w = Inr w' \<and>
    unat (new_lse_sched_ravg_window w') = nat (1000000000 div fps)"
proof -
  have "1000000000 div fps \<le> 1000000000 div 1" using assms by (intro zdiv_mono2) auto
  then have hi: "1000000000 div fps \<le> 1000000000" by simp
  have lo: "0 \<le> 1000000000 div fps" using assms(1) by (intro div_int_pos_iff [THEN iffD2]) auto
  define n where "n = nat (1000000000 div fps)"
  have "unat (word_of_nat n :: u32) = n" using hi by (simp add: unat_of_nat n_def)
  moreover have "cdiv NSEC_PER_SEC fps = int n"
    using assms lo by (simp add: cdiv_def NSEC_PER_SEC_def n_def)
  moreover have "fps \<noteq> 0" using assms by simp
  ultimately show ?thesis by (simp add: sched_ravg_window_change_def n_def [symmetric])
qed

lemma sched_ravg_window_change_zero: "sched_ravg_window_change 0 w = Inl Div_By_Zero"
  by (simp add: sched_ravg_window_change_def)

text \<open>A new window size is adopted without recomputing the divisor that scales demands.\<close>

lemma adopt_new_window_stale:
  assumes "new_lse_sched_ravg_window w \<noteq> lse_sched_ravg_window w"
    and "wc < window_start l + ucast (new_lse_sched_ravg_window w)"
    and div: "lse_scale_demand_divisor w = lse_fixup_window_dep (lse_sched_ravg_window w)"
      "lse_scale_demand_divisor w \<noteq> 0"
    and pol: "sched_window_stats_policy w = WINDOW_STATS_MAX_RECENT_AVG"
    and t: "history_ok t" "\<forall>h \<in> set (sum_history t). h \<le> new_lse_sched_ravg_window w"
    and p: "\<not> is_idle_task p" "new_lse_sched_ravg_window w \<noteq> 0"
  defines "w' \<equiv> adopt_new_window wc l w"
  shows "lse_sched_ravg_window w' = new_lse_sched_ravg_window w \<and>
    (\<exists>t'. update_history w' p (lse_sched_ravg_window w') 1 t = Inr t' \<and>
      demand t' = lse_sched_ravg_window w' \<and>
      demand_scaled t' =
        word_of_nat (unat (lse_sched_ravg_window w') div (unat (lse_sched_ravg_window w) div 1024)))"
proof -
  let ?W = "new_lse_sched_ravg_window w" and ?h = "sum_history (push_sample (new_lse_sched_ravg_window w) t)"
  have w': "lse_sched_ravg_window w' = ?W" "lse_scale_demand_divisor w' = lse_scale_demand_divisor w"
    "sched_window_stats_policy w' = sched_window_stats_policy w"
    using assms(1,2) by (simp_all add: w'_def adopt_new_window_def)
  have "length ?h = RAVG_HIST_SIZE" "\<forall>h \<in> set ?h. h \<le> ?W"
    using t set_update_subset_insert [of "sum_history t" "cidx t" ?W] by (auto simp: history_ok_def)
  then have "hist_avg ?h \<le> ?W" by (rule hist_avg_bound)
  then have d: "history_demand (sched_window_stats_policy w') ?h ?W = ?W"
    by (simp add: w' pol history_demand_eq window_stats_policies max_def)
  have "unat (ucast ?W div ucast (lse_scale_demand_divisor w) :: u64) =
      unat ?W div (unat (lse_sched_ravg_window w) div 1024)"
    by (simp add: unat_div div(1) unat_fixup)
  then have "ucast (ucast ?W div ucast (lse_scale_demand_divisor w) :: u64) =
      (word_of_nat (unat ?W div (unat (lse_sched_ravg_window w) div 1024)) :: u16)"
    by (metis of_nat_unat)
  moreover have "ucast (lse_scale_demand_divisor w) \<noteq> (0 :: u64)" using div(2) by simp
  ultimately show ?thesis using w' d p
    by (auto simp: update_history_def lse_scale_time_to_util_def div64_u64_Inr Let_def)
qed

section \<open>The boost of a task class\<close>

lemma push_samples_boost:
  "push_samples n r (t\<lparr>boost_pct := b\<rparr>) = (push_samples n r t)\<lparr>boost_pct := b\<rparr>"
proof (induction n arbitrary: t)
  case (Suc n)
  have "push_sample r (t\<lparr>boost_pct := b\<rparr>) = (push_sample r t)\<lparr>boost_pct := b\<rparr>"
    by (simp add: push_sample_def)
  with Suc show ?case by simp
qed simp

lemma update_history_boost:
  "update_history w p r n (t\<lparr>boost_pct := b\<rparr>) =
     map_sum id (\<lambda>t. t\<lparr>boost_pct := b\<rparr>) (update_history w p r n t)"
  by (simp add: update_history_def push_samples_boost lse_scale_time_to_util_def div64_u64_def Let_def)

lemma add_to_task_demand_boost:
  "add_to_task_demand w l (t\<lparr>boost_pct := b\<rparr>) d =
     (fst (add_to_task_demand w l t d), (snd (add_to_task_demand w l t d))\<lparr>boost_pct := b\<rparr>)"
  by (simp add: add_to_task_demand_def Let_def)

lemma ebind_map_sum: "ebind (map_sum id f m) g = ebind m (\<lambda>x. g (f x))"
  by (cases m) simp_all

lemma map_sum_ebind: "map_sum id f (ebind m g) = ebind m (\<lambda>x. map_sum id f (g x))"
  by (cases m) simp_all

lemma ebind_if: "ebind (if c then m else m') f = (if c then ebind m f else ebind m' f)"
  by simp

lemma update_task_demand_boost:
  "update_task_demand w l rq p e wc (t\<lparr>boost_pct := b\<rparr>) =
     map_sum id (\<lambda>(r, t'). (r, t'\<lparr>boost_pct := b\<rparr>)) (update_task_demand w l rq p e wc t)"
  apply (simp add: update_task_demand_def update_history_boost add_to_task_demand_boost ebind_map_sum
      map_sum_ebind ebind_if ebind_assoc Let_def case_prod_unfold cong: if_cong)
  apply (intro impI arg_cong [where f = "ebind _"] ext)
  apply (simp add: map_sum_ebind split: if_split)
  done

section \<open>Boot\<close>

definition boot_lrq :: lse_rq where
  "boot_lrq = \<lparr>lrq_cluster = None, freq_domain_cpumask = [], window_start = 0, latest_clock = 0,
     prev_window_size = 0, task_exec_scale = 0, prev_runnable_sum = 0, curr_runnable_sum = 0\<rparr>"

lemma stats_init_lrq:
  "(w', lrq') = lse_sched_stats_init k (w, lrq) \<Longrightarrow>
   lrq' = (\<lambda>cpu. if cpu \<in> set (cpu_possible k) then lse_sched_init_rq w (lrq cpu) else lrq cpu)"
proof -
  have idem: "lse_sched_init_rq w (lse_sched_init_rq w l) = lse_sched_init_rq w l" for l
    by (simp add: lse_sched_init_rq_def)
  have "fold (\<lambda>cpu lrq. lrq(cpu := lse_sched_init_rq w (lrq cpu))) cpus lrq =
      (\<lambda>cpu. if cpu \<in> set cpus then lse_sched_init_rq w (lrq cpu) else lrq cpu)" for cpus
    by (induction cpus arbitrary: lrq) (auto simp: fun_eq_iff idem)
  then show "(w', lrq') = lse_sched_stats_init k (w, lrq) \<Longrightarrow> ?thesis"
    by (simp add: lse_sched_stats_init_def Let_def)
qed

lemma stats_init_ok:
  assumes "lse_sched_stats_init k (init_walt, \<lambda>_. boot_lrq) = (w, lrq)"
  shows "walt_ok DEFAULT_SCHED_RAVG_WINDOW 1024 w"
    and "cpu \<in> set (cpu_possible k) \<Longrightarrow> cpu_ok (lse_sched_ravg_window w) (lrq cpu)"
proof -
  have w: "lse_sched_ravg_window w = 8000000" "lse_scale_demand_divisor w = 7812"
    using assms by (auto simp: lse_sched_stats_init_def init_walt_def Let_def lse_fixup_window_dep_def
        DEFAULT_SCHED_RAVG_WINDOW_def SCHED_CAPACITY_SHIFT_def)
  then show "walt_ok DEFAULT_SCHED_RAVG_WINDOW 1024 w"
    by (simp add: walt_ok_def DEFAULT_SCHED_RAVG_WINDOW_def)
  show "cpu_ok (lse_sched_ravg_window w) (lrq cpu)" if "cpu \<in> set (cpu_possible k)"
    using stats_init_lrq [OF assms [symmetric]] that w(1)
    by (simp add: cpu_ok_def lse_sched_init_rq_def boot_lrq_def)
qed

section \<open>Properties\<close>

text \<open>A task's boost has no influence on its demand: with any other \<open>boost_pct\<close>,
  \<open>update_task_demand\<close> charges the same time, keeps the same history and the same scaled demand, and
  fails in the same cases.\<close>

theorem walt_boost_unused:
  "update_task_demand w l rq p e wc (t\<lparr>boost_pct := b\<rparr>) =
     map_sum id (\<lambda>(r, t'). (r, t'\<lparr>boost_pct := b\<rparr>)) (update_task_demand w l rq p e wc t)"
  by (rule update_task_demand_boost)

text \<open>One election per window: of all the CPUs that see the window move on from \<open>old\<close>, in whatever
  order, only the first one takes the roll over; the others leave the globals, the work and the
  statistics as they are.\<close>

theorem window_rollover_once:
  assumes "lse_run_rollover_lastq_ws w = old" "window_start l \<noteq> old"
  shows "rollover_cpus k old ((cpu, l) # cpus) (w, m) = lse_window_rollover_run_once k cpu old l (w, m)"
  using assms by (rule rollover_once)

theorem window_rollover_once_witness:
  "rollover_cpus demo_kernel 0 [(2, boot_lrq\<lparr>window_start := 8000000\<rparr>), (5, boot_lrq\<lparr>window_start := 8000000\<rparr>)]
     (init_walt, demo_monitor) =
   lse_window_rollover_run_once demo_kernel 2 0 (boot_lrq\<lparr>window_start := 8000000\<rparr>) (init_walt, demo_monitor)"
  by (rule window_rollover_once) (simp_all add: init_walt_def)

text \<open>C33: When the roll-over work adopts a new window, the divisor that scales demand stays the one of the
  old window: with the default policy, a task whose old samples fit the new window and that then runs
  a whole new window gets the new window divided by the old divisor as its scaled demand, and not
  1024.\<close>

theorem window_divisor_stale:
  assumes "new_lse_sched_ravg_window w \<noteq> lse_sched_ravg_window w"
    and "wc < window_start l + ucast (new_lse_sched_ravg_window w)"
    and "lse_scale_demand_divisor w = lse_fixup_window_dep (lse_sched_ravg_window w)"
    and "lse_scale_demand_divisor w \<noteq> 0"
    and "sched_window_stats_policy w = WINDOW_STATS_MAX_RECENT_AVG"
    and "history_ok t" "\<forall>h \<in> set (sum_history t). h \<le> new_lse_sched_ravg_window w"
    and "\<not> is_idle_task p" "new_lse_sched_ravg_window w \<noteq> 0"
    and "w' = adopt_new_window wc l w"
  shows "lse_sched_ravg_window w' = new_lse_sched_ravg_window w \<and>
    (\<exists>t'. update_history w' p (lse_sched_ravg_window w') 1 t = Inr t' \<and>
      demand t' = lse_sched_ravg_window w' \<and>
      demand_scaled t' =
        word_of_nat (unat (lse_sched_ravg_window w') div (unat (lse_sched_ravg_window w) div 1024)))"
  unfolding assms(10) using assms(1-9) by (rule adopt_new_window_stale)

theorem window_divisor_stale_witness:
  "\<exists>w t'. lse_sched_ravg_window w = 16666666 \<and>
     update_history w (demo_task 1) 16666666 1 (demo_lts 1) = Inr t' \<and> demand_scaled t' = 2133"
proof -
  let ?w = "init_walt\<lparr>lse_scale_demand_divisor := lse_fixup_window_dep 8000000,
      new_lse_sched_ravg_window := 16666666, sched_window_stats_policy := WINDOW_STATS_MAX_RECENT_AVG\<rparr>"
  have "lse_sched_ravg_window (adopt_new_window 0 boot_lrq ?w) = 16666666 \<and>
      (\<exists>t'. update_history (adopt_new_window 0 boot_lrq ?w) (demo_task 1) 16666666 1 (demo_lts 1) = Inr t' \<and>
        demand t' = 16666666 \<and> demand_scaled t' = word_of_nat (16666666 div (8000000 div 1024)))"
    using window_divisor_stale [of ?w 0 boot_lrq "demo_lts 1" "demo_task 1", OF _ _ _ _ _ _ _ _ _ refl]
    by (simp add: init_walt_def boot_lrq_def demo_lts_def demo_task_def history_ok_def RAVG_HIST_SIZE_def
        DEFAULT_SCHED_RAVG_WINDOW_def lse_fixup_window_dep_def adopt_new_window_def SCHED_CAPACITY_SHIFT_def
        drop_bit_eq_div)
  then show ?thesis by auto
qed

lemma lse_cpu_util_eq:
  assumes "1024 \<le> unat (prev_window_size l)"
  shows "lse_cpu_util l = word_of_nat (unat (prev_runnable_sum l) div (unat (prev_window_size l) div 1024))"
proof -
  let ?W = "prev_window_size l"
  have m: "max ?W 1 = ?W" using assms by (simp add: max_def u32_le_iff)
  have s: "unat (drop_bit SCHED_CAPACITY_SHIFT ?W) = unat ?W div 1024"
    using unat_fixup [of ?W] by (simp add: lse_fixup_window_dep_def)
  then have "drop_bit SCHED_CAPACITY_SHIFT ?W \<noteq> 0"
    using assms by (metis div_greater_zero_iff not_gr_zero unat_0 zero_less_numeral)
  moreover have "(ucast (prev_runnable_sum l div ucast (drop_bit SCHED_CAPACITY_SHIFT ?W)) :: u16) =
      word_of_nat (unat (prev_runnable_sum l div ucast (drop_bit SCHED_CAPACITY_SHIFT ?W)))"
    by simp
  ultimately show ?thesis by (simp add: lse_cpu_util_def Let_def m unat_div s)
qed

text \<open>C34: A window that shrinks breaks the bound on the utilisation.  A CPU is within its bounds under the
  old window and has already charged more than the new one when the work, on another CPU, adopts
  it.  If exactly one window of the new size has passed at the CPU's next reading, its whole sum
  becomes the busy time of that one window: more than the window, and the utilisation is the sum
  over the new window, with nothing that caps it at 1024.  If more windows have passed, the sum is
  dropped altogether.\<close>

theorem window_shrink_overload:
  assumes "W = lse_sched_ravg_window w" "W2 = new_lse_sched_ravg_window w" "1024 \<le> unat W2" "W2 < W"
    and "wa < window_start other + ucast W2" "w' = adopt_new_window wa other w"
    and "cpu_ok W l" "unat W2 < unat (curr_runnable_sum l)"
    and "latest_clock l \<le> wc" "window_start l \<le> wc" "unat (wc - window_start l) div unat W2 < 2 ^ 31"
  shows "lse_sched_ravg_window w' = W2 \<and>
    (\<exists>l'. update_window_start w' wc l = Inr (window_start l, l') \<and> prev_window_size l' = W2 \<and>
      (if unat (wc - window_start l) < 2 * unat W2
       then prev_runnable_sum l' = curr_runnable_sum l \<and>
         unat (prev_window_size l') < unat (prev_runnable_sum l') \<and>
         lse_cpu_util l' = word_of_nat (unat (curr_runnable_sum l) div (unat W2 div 1024))
       else prev_runnable_sum l' = 0))"
proof -
  let ?d = "unat (wc - window_start l)" and ?n = "unat (wc - window_start l) div unat W2"
  have w': "lse_sched_ravg_window w' = W2" using assms(1,2,4-6) by (simp add: adopt_new_window_def)
  have W2: "W2 \<noteq> 0" "0 < unat W2" using assms(3) by auto
  have d: "?d = unat wc - unat (window_start l)" using assms(10) by (simp add: unat_u64_sub)
  have "unat W2 < ?d" using assms(7-10) unfolding d cpu_ok_def u64_le_iff by linarith
  then have n0: "?n \<noteq> 0" using W2(2) by (simp add: div_eq_0_iff)
  have "?d < (?n + 1) * unat W2" using W2(2) by (metis div_less_iff_less_mult less_add_one)
  also have "\<dots> \<le> 2 ^ 31 * 2 ^ 32" using assms(11) u32_bound [of W2] by (intro mult_le_mono) simp_all
  finally have far: "?d < 2 ^ 63" by simp
  define l' where "l' = rollover_cpu_window (l\<lparr>latest_clock := wc,
      window_start := window_start l + word_of_nat ?n * ucast W2, prev_window_size := W2\<rparr>) (1 < ?n)"
  have one: "?d < 2 * unat W2 \<longleftrightarrow> \<not> 1 < ?n"
    using W2(2) by (metis div_less_iff_less_mult not_less less_2_cases_iff less_one nat_less_le One_nat_def n0)
  have "update_window_start w' wc l = Inr (window_start l, l')"
    using update_window_start_eq [of w' l wc] w' W2(1) assms(9-11) far n0 by (simp add: l'_def)
  moreover have size: "prev_window_size l' = W2" by (simp add: l'_def rollover_cpu_window_def Let_def)
  moreover have "prev_runnable_sum l' = (if 1 < ?n then 0 else curr_runnable_sum l)"
    by (simp add: l'_def rollover_cpu_window_def Let_def)
  ultimately show ?thesis using w' one assms(8) lse_cpu_util_eq [of l'] assms(3) by auto
qed

theorem window_shrink_overload_witness:
  "\<exists>l'. update_window_start (adopt_new_window 90000000 (boot_lrq\<lparr>window_start := 90000000\<rparr>)
        (init_walt\<lparr>lse_sched_ravg_window := 16000000, new_lse_sched_ravg_window := 8000000\<rparr>)) 113000000
      (boot_lrq\<lparr>window_start := 100000000, latest_clock := 112000000, curr_runnable_sum := 12000000\<rparr>) = Inr (100000000, l') \<and>
    lse_cpu_util l' = 1536"
proof -
  let ?w = "init_walt\<lparr>lse_sched_ravg_window := 16000000, new_lse_sched_ravg_window := 8000000\<rparr>"
  let ?other = "boot_lrq\<lparr>window_start := 90000000\<rparr>"
  let ?l = "boot_lrq\<lparr>window_start := 100000000, latest_clock := 112000000, curr_runnable_sum := 12000000\<rparr>"
  have "cpu_ok 16000000 ?l" by (simp add: cpu_ok_def boot_lrq_def)
  then show ?thesis
    using window_shrink_overload [of 16000000 ?w 8000000 90000000 ?other _ ?l 113000000, OF _ _ _ _ _ refl]
    by simp blast
qed

end
