(* ===== verification/Lse_Dsq.thy ===== *)
theory Lse_Dsq
  imports Lse_Types
begin

text \<open>
  \<open>lse_dsq.c\<close> and \<open>lse_dsq.h\<close>: ten global dispatch queues, one queue per CPU, the classification of
  tasks, the run-time accounting, the timeout scan and the urgency signal for the governor.

  The state has two parts: the table of the tasks' \<open>lse_task_struct\<close> (what \<open>get_lse_task_struct\<close>
  reads, \<open>None\<close> for NULL) and the file's globals.  A FIFO is the list of the tasks whose
  \<open>dsq_node\<close> is linked into it.  As in C, \<open>list_del_init\<close> unlinks the node from the list that holds
  it, which need not be the list of the queue whose lock was taken.  The field \<open>priq\<close> is only ever
  initialised and is left out; \<open>jiffies\<close> is an argument.
\<close>

type_synonym lts_table = "nat \<Rightarrow> lse_task_struct option"

section \<open>Constants and enumerations\<close>

definition LSE_MAX_GLOBAL_DSQS :: nat where "LSE_MAX_GLOBAL_DSQS = 10"
definition LSE_DSQ_NON_PERIOD_START :: nat where "LSE_DSQ_NON_PERIOD_START = 5"
definition LSE_DSQ_NON_PERIOD_END :: nat where "LSE_DSQ_NON_PERIOD_END = 10"
definition LSE_DSQ_BIG_LOWER :: int where "LSE_DSQ_BIG_LOWER = 5"
definition LSE_DSQ_LITTLE_LOWER :: int where "LSE_DSQ_LITTLE_LOWER = 8"
definition LSE_DSQ_PCP_BASE :: nat where "LSE_DSQ_PCP_BASE = LSE_MAX_GLOBAL_DSQS"
definition LSE_DSQ_FLAG_BUILTIN :: u64 where "LSE_DSQ_FLAG_BUILTIN = push_bit 63 1"
definition LSE_DSQ_DEFAULT_DEADLINES :: "u32 list" where
  "LSE_DSQ_DEFAULT_DEADLINES = [0, 1, 2, 4, 6, 8, 16, 32, 64, 128]"
definition LSE_PCP_DSQ_DEADLINE_MS :: u32 where "LSE_PCP_DSQ_DEADLINE_MS = 20"

lemmas dsq_consts = LSE_MAX_GLOBAL_DSQS_def LSE_DSQ_NON_PERIOD_START_def
  LSE_DSQ_NON_PERIOD_END_def LSE_DSQ_PCP_BASE_def

text \<open>\<open>enum lse_dsq_task_prio\<close>: the index of the queue of each priority.\<close>

definition LSE_DSQ_PRIO_CRITICAL_SYSTEM :: nat where "LSE_DSQ_PRIO_CRITICAL_SYSTEM = 0"
definition LSE_DSQ_PRIO_CRITICAL_APP :: nat where "LSE_DSQ_PRIO_CRITICAL_APP = 1"
definition LSE_DSQ_PRIO_RT :: nat where "LSE_DSQ_PRIO_RT = 2"
definition LSE_DSQ_PRIO_ENHANCED :: nat where "LSE_DSQ_PRIO_ENHANCED = 3"
definition LSE_DSQ_PRIO_FOREGROUND :: nat where "LSE_DSQ_PRIO_FOREGROUND = 6"
definition LSE_DSQ_PRIO_NORMAL :: nat where "LSE_DSQ_PRIO_NORMAL = 8"
definition LSE_DSQ_PRIO_BACKGROUND :: nat where "LSE_DSQ_PRIO_BACKGROUND = 9"

lemmas dsq_prios = LSE_DSQ_PRIO_CRITICAL_SYSTEM_def LSE_DSQ_PRIO_CRITICAL_APP_def
  LSE_DSQ_PRIO_RT_def LSE_DSQ_PRIO_ENHANCED_def LSE_DSQ_PRIO_FOREGROUND_def
  LSE_DSQ_PRIO_NORMAL_def LSE_DSQ_PRIO_BACKGROUND_def

datatype lse_cluster_type = LSE_CLUSTER_BIG | LSE_CLUSTER_LITTLE | LSE_CLUSTER_INVALID

section \<open>State\<close>

record lse_dispatch_q =
  fifo :: "nat list"
  nr :: int
  dsq_id :: u64
  last_consume_at :: u64
  is_timeout :: bool

record lse_dsq_sched_info =
  curr_idx :: "int list"
  rtime :: "int list"

record lse_pcp_dsq_info =
  pcp_rtime :: int
  pcp_round :: bool

record dsq =
  lse_dsq_enable :: int
  lse_dsq_rescue_enable :: int
  lse_dsq_max_depth :: int
  lse_dsq_deadlines :: "u32 list"
  lse_pcp_dsq_deadline_ms :: u32
  lse_gdsqs :: "lse_dispatch_q list"
  lse_pcp_dsq :: "nat \<Rightarrow> lse_dispatch_q"
  lse_dsq_sinfo :: lse_dsq_sched_info
  lse_pcp_info :: "nat \<Rightarrow> lse_pcp_dsq_info"
  lse_dsq_round :: u64
  lse_dsq_last_scan_jf :: "nat \<Rightarrow> u64"

text \<open>A queue is named by its index: below 10 a global one, from 10 on the one of CPU \<open>idx - 10\<close>.\<close>

definition dsq_at :: "nat \<Rightarrow> dsq \<Rightarrow> lse_dispatch_q" where
  "dsq_at idx d =
     (if LSE_DSQ_PCP_BASE \<le> idx then lse_pcp_dsq d (idx - LSE_DSQ_PCP_BASE) else lse_gdsqs d ! idx)"

definition dsq_upd :: "nat \<Rightarrow> (lse_dispatch_q \<Rightarrow> lse_dispatch_q) \<Rightarrow> dsq \<Rightarrow> dsq" where
  "dsq_upd idx f d =
     (if LSE_DSQ_PCP_BASE \<le> idx
      then d\<lparr>lse_pcp_dsq := (lse_pcp_dsq d)(idx - LSE_DSQ_PCP_BASE := f (dsq_at idx d))\<rparr>
      else d\<lparr>lse_gdsqs := (lse_gdsqs d)[idx := f (dsq_at idx d)]\<rparr>)"

definition init_one_dsq :: "u64 \<Rightarrow> u64 \<Rightarrow> lse_dispatch_q" where
  "init_one_dsq jiffies i =
     \<lparr>fifo = [], nr = 0, dsq_id = i, last_consume_at = jiffies, is_timeout = False\<rparr>"

text \<open>A queue is named by its index; the global ones are the entries of the array \<open>lse_gdsqs\<close>.\<close>

datatype lse_dsq_type = LSE_DSQ_TYPE_GLOBAL | LSE_DSQ_TYPE_PCP | LSE_DSQ_TYPE_OTHER

definition dsq_is_global :: "nat \<Rightarrow> bool" where
  "dsq_is_global idx \<longleftrightarrow> idx < LSE_MAX_GLOBAL_DSQS"

definition dsq_global_idx :: "nat \<Rightarrow> int" where
  "dsq_global_idx idx = (if dsq_is_global idx then int idx else - 1)"

definition dsq_idx_valid :: "kernel \<Rightarrow> nat \<Rightarrow> bool" where
  "dsq_idx_valid k idx \<longleftrightarrow> idx < LSE_MAX_GLOBAL_DSQS \<or>
     (LSE_DSQ_PCP_BASE \<le> idx \<and> idx < LSE_DSQ_PCP_BASE + nr_cpu_ids k)"

lemma dsq_global_or_pcp:
  "dsq_idx_valid k idx \<Longrightarrow> dsq_global_idx idx = (if idx < LSE_DSQ_PCP_BASE then int idx else - 1)"
  by (auto simp: dsq_idx_valid_def dsq_global_idx_def dsq_is_global_def LSE_DSQ_PCP_BASE_def)

section \<open>Classification\<close>

definition lse_dsq_is_pcp_candidate :: "task_struct option \<Rightarrow> bool" where
  "lse_dsq_is_pcp_candidate p =
     (case p of None \<Rightarrow> False | Some p \<Rightarrow> nr_cpus_allowed p = 1 \<or> is_migration_disabled p)"

text \<open>The path for a task without \<open>lse_task_struct\<close>: its static priority decides.\<close>

definition classify_by_prio :: "task_struct \<Rightarrow> nat" where
  "classify_by_prio p =
     (if task_nice p < - 5 \<or> prio p < DEFAULT_PRIO - 10 then LSE_DSQ_PRIO_CRITICAL_SYSTEM
      else if prio p < DEFAULT_PRIO - 5 then LSE_DSQ_PRIO_CRITICAL_APP
      else if prio p \<le> DEFAULT_PRIO then LSE_DSQ_PRIO_FOREGROUND
      else if prio p \<le> DEFAULT_PRIO + 4 then LSE_DSQ_PRIO_NORMAL
      else LSE_DSQ_PRIO_BACKGROUND)"

definition lse_dsq_classify_lts :: "kernel \<Rightarrow> lse_task_struct option \<Rightarrow> task_struct \<Rightarrow> nat" where
  "lse_dsq_classify_lts k lts p =
     (case lts of
        None \<Rightarrow> classify_by_prio p
      | Some t \<Rightarrow>
          if nr_cpus_allowed p = 1 \<or> is_migration_disabled p
          then LSE_DSQ_PCP_BASE + cpumask_any k (cpus_ptr p)
          else if dl_task p then LSE_DSQ_PRIO_CRITICAL_SYSTEM
          else if rt_prio k (prio p) then LSE_DSQ_PRIO_RT
          else
            (case task_class t of
               LSE_TASK_CLASS_RT \<Rightarrow> LSE_DSQ_PRIO_CRITICAL_SYSTEM
             | LSE_TASK_CLASS_DEADLINE \<Rightarrow> LSE_DSQ_PRIO_CRITICAL_SYSTEM
             | LSE_TASK_CLASS_FOREGROUND \<Rightarrow>
                 if boost_pct t > 1280 then LSE_DSQ_PRIO_ENHANCED else LSE_DSQ_PRIO_FOREGROUND
             | LSE_TASK_CLASS_NORMAL \<Rightarrow> LSE_DSQ_PRIO_NORMAL
             | _ \<Rightarrow> LSE_DSQ_PRIO_BACKGROUND))"

definition lse_dsq_classify_task :: "kernel \<Rightarrow> lts_table \<Rightarrow> task_struct \<Rightarrow> nat" where
  "lse_dsq_classify_task k L p = lse_dsq_classify_lts k (L (ts_id p)) p"

text \<open>\<open>lse_cpu_cluster_type\<close> of a CPU, given its cluster and the last cluster of the list.\<close>

definition lse_cpu_cluster_type ::
  "kernel \<Rightarrow> lse_sched_cluster \<Rightarrow> lse_sched_cluster option \<Rightarrow> lse_cluster_type" where
  "lse_cpu_cluster_type k max_cap_cluster cluster =
     (case cluster of
        None \<Rightarrow> LSE_CLUSTER_INVALID
      | Some c \<Rightarrow>
          if cl_cpus c = [] \<or> hd (cl_cpus c) \<ge> nr_cpu_ids k then LSE_CLUSTER_INVALID
          else if max_possible_capacity c \<ge> max_possible_capacity max_cap_cluster
          then LSE_CLUSTER_BIG else LSE_CLUSTER_LITTLE)"

section \<open>Enqueue and dequeue\<close>

definition set_on_dsq :: "nat \<Rightarrow> bool \<Rightarrow> lts_table \<Rightarrow> lts_table" where
  "set_on_dsq t b L = L(t := map_option (\<lambda>l. l\<lparr>on_dsq := b\<rparr>) (L t))"

text \<open>\<open>list_del_init\<close> of the node of task \<open>t\<close>: out of whichever queue it is linked into.\<close>

definition list_del_init :: "nat \<Rightarrow> dsq \<Rightarrow> dsq" where
  "list_del_init t d =
     (let del = (\<lambda>q. q\<lparr>fifo := remove1 t (fifo q)\<rparr>)
      in d\<lparr>lse_gdsqs := map del (lse_gdsqs d), lse_pcp_dsq := (\<lambda>cpu. del (lse_pcp_dsq d cpu))\<rparr>)"

definition dsq_enqueue :: "u64 \<Rightarrow> nat \<Rightarrow> nat \<Rightarrow> lts_table \<times> dsq \<Rightarrow> lts_table \<times> dsq" where
  "dsq_enqueue jiffies idx t s =
     (case s of (L, d) \<Rightarrow>
        (set_on_dsq t True L,
         dsq_upd idx (\<lambda>q.
           let q = (if fifo q = [] then q\<lparr>last_consume_at := jiffies\<rparr> else q)
           in q\<lparr>fifo := fifo q @ [t], nr := wrap_int (nr q + 1)\<rparr>) d))"

definition lse_dsq_enqueue_task ::
  "kernel \<Rightarrow> u64 \<Rightarrow> (nat \<Rightarrow> rq) \<Rightarrow> task_struct option \<Rightarrow> nat
    \<Rightarrow> lts_table \<times> dsq \<Rightarrow> lts_table \<times> dsq" where
  "lse_dsq_enqueue_task k jiffies cpu_rq p cpu s =
     (case s of (L, d) \<Rightarrow>
        if lse_dsq_enable d = 0 then s
        else case p of None \<Rightarrow> s | Some p \<Rightarrow>
          case L (ts_id p) of None \<Rightarrow> s | Some lts \<Rightarrow>
            if on_dsq lts then s
            else if \<not> task_on_rq_queued p \<or> ts_id p = rq_curr (cpu_rq cpu) then s
            else
              let idx = lse_dsq_classify_lts k (Some lts) p in
              if \<not> dsq_idx_valid k idx then s
              else dsq_enqueue jiffies idx (ts_id p) s)"

definition dsq_dequeue :: "u64 \<Rightarrow> nat \<Rightarrow> nat \<Rightarrow> lts_table \<times> dsq \<Rightarrow> lts_table \<times> dsq" where
  "dsq_dequeue jiffies idx t s =
     (case s of (L, d) \<Rightarrow>
        case L t of None \<Rightarrow> s | Some lts \<Rightarrow>
          if \<not> on_dsq lts then s
          else (set_on_dsq t False L,
                dsq_upd idx (\<lambda>q.
                  let q = q\<lparr>nr := max 0 (wrap_int (nr q - 1))\<rparr>
                  in if fifo q = [] \<and> is_timeout q
                     then q\<lparr>is_timeout := False, last_consume_at := jiffies\<rparr> else q)
                  (list_del_init t d)))"

definition lse_dsq_dequeue_task ::
  "kernel \<Rightarrow> u64 \<Rightarrow> task_struct option \<Rightarrow> lts_table \<times> dsq \<Rightarrow> lts_table \<times> dsq" where
  "lse_dsq_dequeue_task k jiffies p s =
     (case s of (L, d) \<Rightarrow>
        if lse_dsq_enable d = 0 then s
        else case p of None \<Rightarrow> s | Some p \<Rightarrow>
          case L (ts_id p) of None \<Rightarrow> s | Some lts \<Rightarrow>
            if \<not> on_dsq lts then s
            else
              let idx = lse_dsq_classify_lts k (Some lts) p in
              if LSE_DSQ_PCP_BASE \<le> idx \<and> idx - LSE_DSQ_PCP_BASE \<ge> nr_cpu_ids k then s
              else dsq_dequeue jiffies idx (ts_id p) s)"

section \<open>Accounting, timeouts, urgency\<close>

definition lse_dsq_add_runtime ::
  "kernel \<Rightarrow> task_struct option \<Rightarrow> u64 \<Rightarrow> lts_table \<times> dsq \<Rightarrow> lts_table \<times> dsq" where
  "lse_dsq_add_runtime k p exec_ns s =
     (case s of (L, d) \<Rightarrow>
        if lse_dsq_enable d = 0 then s
        else case p of None \<Rightarrow> s | Some p \<Rightarrow>
          let idx = lse_dsq_classify_lts k (L (ts_id p)) p;
              add = (\<lambda>r. to_int (word_of_int r + exec_ns))
          in if LSE_DSQ_PCP_BASE \<le> idx then
               let cpu = idx - LSE_DSQ_PCP_BASE in
               if cpu \<ge> nr_cpu_ids k then s
               else (L, d\<lparr>lse_pcp_info := (lse_pcp_info d)(cpu :=
                          (lse_pcp_info d cpu)\<lparr>pcp_rtime := add (pcp_rtime (lse_pcp_info d cpu))\<rparr>)\<rparr>)
             else if LSE_DSQ_NON_PERIOD_START \<le> idx \<and> idx < LSE_DSQ_NON_PERIOD_END then
               (L, d\<lparr>lse_dsq_sinfo := (lse_dsq_sinfo d)\<lparr>rtime :=
                   (rtime (lse_dsq_sinfo d))[idx := add (rtime (lse_dsq_sinfo d) ! idx)]\<rparr>\<rparr>)
             else s)"

text \<open>The test made on one queue, and the reset made on the global ones only.\<close>

definition scan_mark :: "kernel \<Rightarrow> u64 \<Rightarrow> u32 \<Rightarrow> lse_dispatch_q \<Rightarrow> lse_dispatch_q" where
  "scan_mark k jiffies deadline_ms q =
     (if fifo q \<noteq> [] \<and> \<not> is_timeout q \<and>
         time_after jiffies (last_consume_at q + msecs_to_jiffies k deadline_ms)
      then q\<lparr>is_timeout := True\<rparr> else q)"

definition scan_reset :: "u64 \<Rightarrow> lse_dispatch_q \<Rightarrow> lse_dispatch_q" where
  "scan_reset jiffies q =
     (if fifo q = [] \<and> is_timeout q
      then q\<lparr>is_timeout := False, last_consume_at := jiffies\<rparr> else q)"

definition lse_dsq_scan_timeout :: "kernel \<Rightarrow> u64 \<Rightarrow> nat \<Rightarrow> dsq \<Rightarrow> dsq" where
  "lse_dsq_scan_timeout k jiffies cpu d =
     (if lse_dsq_enable d = 0 then d
      else
        let d = dsq_upd (LSE_DSQ_PCP_BASE + cpu)
                  (scan_mark k jiffies (lse_pcp_dsq_deadline_ms d)) d
        in fold (\<lambda>i d. dsq_upd i
                   (\<lambda>q. scan_reset jiffies (scan_mark k jiffies (lse_dsq_deadlines d ! i) q)) d)
             [LSE_DSQ_NON_PERIOD_START..<LSE_DSQ_NON_PERIOD_END] d)"

definition lse_dsq_has_timeout :: "int \<Rightarrow> dsq \<Rightarrow> bool" where
  "lse_dsq_has_timeout idx d =
     (if idx < 0 \<or> idx \<ge> int LSE_MAX_GLOBAL_DSQS then False
      else is_timeout (lse_gdsqs d ! nat idx))"

definition lse_dsq_depth_global :: "int \<Rightarrow> dsq \<Rightarrow> int" where
  "lse_dsq_depth_global idx d =
     (if idx < 0 \<or> idx \<ge> int LSE_MAX_GLOBAL_DSQS then 0 else nr (lse_gdsqs d ! nat idx))"

definition lse_dsq_depth_pcp :: "kernel \<Rightarrow> int \<Rightarrow> dsq \<Rightarrow> int" where
  "lse_dsq_depth_pcp k cpu d =
     (if cpu < 0 \<or> cpu \<ge> int (nr_cpu_ids k) then 0 else nr (lse_pcp_dsq d (nat cpu)))"

definition for_each_online_cpu :: "kernel \<Rightarrow> nat list" where
  "for_each_online_cpu k = filter (cpu_online k) (cpu_possible k)"

definition lse_dsq_total_backlog :: "kernel \<Rightarrow> dsq \<Rightarrow> int" where
  "lse_dsq_total_backlog k d =
     (let total = fold (\<lambda>i total. wrap_int (total + lse_dsq_depth_global (int i) d))
                    [0..<LSE_MAX_GLOBAL_DSQS] 0
      in fold (\<lambda>cpu total. wrap_int (total + lse_dsq_depth_pcp k (int cpu) d))
           (for_each_online_cpu k) total)"

definition lse_dsq_urgency_signal :: "dsq \<Rightarrow> u32" where
  "lse_dsq_urgency_signal d =
     (if lse_dsq_enable d = 0 then 0
      else
        let timeouts = fold (\<lambda>i n. if lse_dsq_has_timeout (int i) d then n + 1 else n)
                         [0..<LSE_MAX_GLOBAL_DSQS] (0 :: nat)
        in min (word_of_nat (timeouts * 256)) 1024)"

section \<open>The schedule hook\<close>

text \<open>
  A task pointer may be NULL.  \<open>dsq_switch\<close> is the branch taken when the two tasks differ,
  \<open>dsq_throttled_scan\<close> the end of the hook; \<open>stats\<close> is \<open>slim_stats\<close> of the monitor.
\<close>

definition dsq_switch ::
  "kernel \<Rightarrow> u64 \<Rightarrow> (nat \<Rightarrow> rq) \<Rightarrow> nat \<Rightarrow> task_struct option \<Rightarrow> task_struct option
    \<Rightarrow> lts_table \<times> dsq \<Rightarrow> lts_table \<times> dsq" where
  "dsq_switch k jiffies cpu_rq cpu prev next_task s =
     (let s = (case prev of None \<Rightarrow> s | Some p \<Rightarrow>
                 if \<not> is_idle_task p \<and> task_on_rq_queued p \<and> task_cpu p = cpu
                 then lse_dsq_enqueue_task k jiffies cpu_rq prev cpu s else s)
      in case next_task of None \<Rightarrow> s | Some n \<Rightarrow>
           if \<not> is_idle_task n then lse_dsq_dequeue_task k jiffies next_task s else s)"

definition dsq_throttled_scan ::
  "kernel \<Rightarrow> u64 \<Rightarrow> nat \<Rightarrow> lts_table \<times> dsq \<Rightarrow> lts_table \<times> dsq" where
  "dsq_throttled_scan k jiffies cpu s =
     (case s of (L, d) \<Rightarrow>
        if time_before (lse_dsq_last_scan_jf d cpu + 4) jiffies
        then (L, lse_dsq_scan_timeout k jiffies cpu
                (d\<lparr>lse_dsq_last_scan_jf := (lse_dsq_last_scan_jf d)(cpu := jiffies)\<rparr>))
        else s)"

definition lse_dsq_on_schedule ::
  "kernel \<Rightarrow> u64 \<Rightarrow> (nat \<Rightarrow> rq) \<Rightarrow> int \<Rightarrow> rq option \<Rightarrow> task_struct option \<Rightarrow> task_struct option
    \<Rightarrow> lts_table \<times> dsq \<Rightarrow> lts_table \<times> dsq" where
  "lse_dsq_on_schedule k jiffies cpu_rq stats rq prev next_task s =
     (case rq of None \<Rightarrow> s | Some rq \<Rightarrow>
        if stats = 0 \<or> lse_dsq_enable (snd s) = 0 then s
        else
          let cpu = rq_cpu rq;
              s = (if map_option ts_id prev \<noteq> map_option ts_id next_task
                   then dsq_switch k jiffies cpu_rq cpu prev next_task s else s)
          in dsq_throttled_scan k jiffies cpu s)"

section \<open>Initialisation and reset\<close>

text \<open>The loop that empties one queue: every task of its list is unlinked and unmarked.\<close>

definition drain_dsq :: "nat \<Rightarrow> lts_table \<times> dsq \<Rightarrow> lts_table \<times> dsq" where
  "drain_dsq idx s =
     (case s of (L, d) \<Rightarrow>
        (fold (\<lambda>t L. set_on_dsq t False L) (fifo (dsq_at idx d)) L,
         dsq_upd idx (\<lambda>q. q\<lparr>fifo := [], nr := 0, is_timeout := False\<rparr>) d))"

definition reset_rounds :: "dsq \<Rightarrow> dsq" where
  "reset_rounds d = d\<lparr>lse_dsq_sinfo :=
     (lse_dsq_sinfo d)\<lparr>curr_idx := [LSE_DSQ_BIG_LOWER, LSE_DSQ_LITTLE_LOWER]\<rparr>\<rparr>"

definition reset_pcp_info :: "nat list \<Rightarrow> dsq \<Rightarrow> dsq" where
  "reset_pcp_info cpus d = fold (\<lambda>cpu d. d\<lparr>lse_pcp_info := (lse_pcp_info d)(cpu :=
     (lse_pcp_info d cpu)\<lparr>pcp_rtime := 0, pcp_round := False\<rparr>)\<rparr>) cpus d"

definition lse_dsq_sync :: "kernel \<Rightarrow> lts_table \<times> dsq \<Rightarrow> lts_table \<times> dsq" where
  "lse_dsq_sync k s =
     (if lse_dsq_enable (snd s) \<noteq> 0 then s
      else
        let s = fold drain_dsq [0..<LSE_MAX_GLOBAL_DSQS] s;
            s = fold (\<lambda>cpu. drain_dsq (LSE_DSQ_PCP_BASE + cpu)) (for_each_online_cpu k) s;
            d = reset_rounds (snd s);
            d = d\<lparr>lse_dsq_sinfo := (lse_dsq_sinfo d)\<lparr>rtime := replicate LSE_MAX_GLOBAL_DSQS 0\<rparr>\<rparr>
        in (fst s, reset_pcp_info (for_each_online_cpu k) d))"

definition lse_dsq_init :: "kernel \<Rightarrow> u64 \<Rightarrow> dsq \<Rightarrow> dsq" where
  "lse_dsq_init k jiffies d =
     (let d = d\<lparr>lse_gdsqs := map (\<lambda>i. init_one_dsq jiffies (or LSE_DSQ_FLAG_BUILTIN (word_of_nat i)))
                 [0..<LSE_MAX_GLOBAL_DSQS]\<rparr>;
          d = fold (\<lambda>cpu d. d\<lparr>lse_pcp_dsq := (lse_pcp_dsq d)(cpu :=
                init_one_dsq jiffies (or LSE_DSQ_FLAG_BUILTIN (word_of_nat (LSE_DSQ_PCP_BASE + cpu))))\<rparr>)
                (cpu_possible k) d;
          d = reset_pcp_info (cpu_possible k) (reset_rounds d)
      in d\<lparr>lse_dsq_round := 0\<rparr>)"

text \<open>The module's data before \<open>lse_dsq_init\<close>: the initialisers of the globals, and zeroes.\<close>

definition boot_dsq :: dsq where
  "boot_dsq =
     \<lparr>lse_dsq_enable = 1, lse_dsq_rescue_enable = 1, lse_dsq_max_depth = 256,
      lse_dsq_deadlines = LSE_DSQ_DEFAULT_DEADLINES,
      lse_pcp_dsq_deadline_ms = LSE_PCP_DSQ_DEADLINE_MS,
      lse_gdsqs = replicate LSE_MAX_GLOBAL_DSQS (init_one_dsq 0 0),
      lse_pcp_dsq = (\<lambda>_. init_one_dsq 0 0),
      lse_dsq_sinfo = \<lparr>curr_idx = [0, 0], rtime = replicate LSE_MAX_GLOBAL_DSQS 0\<rparr>,
      lse_pcp_info = (\<lambda>_. \<lparr>pcp_rtime = 0, pcp_round = False\<rparr>),
      lse_dsq_round = 0, lse_dsq_last_scan_jf = (\<lambda>_. 0)\<rparr>"

text \<open>
  The handler behind the sysctls \<open>dsq_enable\<close> and \<open>dsq_rescue_enable\<close> (\<open>lse_sysctl.c\<close>); \<open>Inl\<close> is
  an error of \<open>proc_dointvec\<close>, \<open>Inr\<close> the value it left in \<open>val\<close>.
\<close>

datatype dsq_toggle = Toggle_Dsq_Enable | Toggle_Dsq_Rescue

fun dsq_toggle_value :: "dsq_toggle \<Rightarrow> dsq \<Rightarrow> int" where
  "dsq_toggle_value Toggle_Dsq_Enable d = lse_dsq_enable d"
| "dsq_toggle_value Toggle_Dsq_Rescue d = lse_dsq_rescue_enable d"

fun set_dsq_toggle :: "dsq_toggle \<Rightarrow> int \<Rightarrow> dsq \<Rightarrow> dsq" where
  "set_dsq_toggle Toggle_Dsq_Enable v d = d\<lparr>lse_dsq_enable := v\<rparr>"
| "set_dsq_toggle Toggle_Dsq_Rescue v d = d\<lparr>lse_dsq_rescue_enable := v\<rparr>"

definition lse_proc_dsq_toggle_update ::
  "kernel \<Rightarrow> dsq_toggle \<Rightarrow> bool \<Rightarrow> int + int \<Rightarrow> lts_table \<times> dsq \<Rightarrow> int \<times> lts_table \<times> dsq" where
  "lse_proc_dsq_toggle_update k table write dointvec s =
     (case dointvec of
        Inl ret \<Rightarrow> (ret, s)
      | Inr val \<Rightarrow>
          (0, if write \<and> val \<noteq> dsq_toggle_value table (snd s)
              then lse_dsq_sync k (fst s, set_dsq_toggle table val (snd s)) else s))"

section \<open>Reading and updating queues\<close>

definition dsq_fifo :: "dsq \<Rightarrow> nat \<Rightarrow> nat list" where
  "dsq_fifo d i = fifo (dsq_at i d)"

text \<open>The arrays have their declared length, and no operation resizes them.\<close>

definition dsq_shape :: "dsq \<Rightarrow> bool" where
  "dsq_shape d \<longleftrightarrow> length (lse_gdsqs d) = LSE_MAX_GLOBAL_DSQS \<and>
     length (rtime (lse_dsq_sinfo d)) = LSE_MAX_GLOBAL_DSQS \<and>
     length (lse_dsq_deadlines d) = LSE_MAX_GLOBAL_DSQS"

lemma dsq_at_upd:
  "dsq_shape d \<Longrightarrow> dsq_at i (dsq_upd idx f d) = (if i = idx then f (dsq_at idx d) else dsq_at i d)"
  by (auto simp: dsq_at_def dsq_upd_def dsq_shape_def dsq_consts)

lemma dsq_at_del:
  "dsq_shape d \<Longrightarrow> dsq_at i (list_del_init t d) = (dsq_at i d)\<lparr>fifo := remove1 t (fifo (dsq_at i d))\<rparr>"
  by (auto simp: dsq_at_def list_del_init_def dsq_shape_def dsq_consts Let_def)

lemma dsq_shape_upd [simp]:
  "dsq_shape (dsq_upd idx f d) \<longleftrightarrow> dsq_shape d"
  "dsq_shape (list_del_init t d) \<longleftrightarrow> dsq_shape d"
  by (auto simp: dsq_shape_def dsq_upd_def list_del_init_def Let_def)

lemma dsq_upd_frame [simp]:
  "lse_dsq_enable (dsq_upd idx f d) = lse_dsq_enable d"
  "lse_dsq_deadlines (dsq_upd idx f d) = lse_dsq_deadlines d"
  "lse_pcp_dsq_deadline_ms (dsq_upd idx f d) = lse_pcp_dsq_deadline_ms d"
  "lse_dsq_last_scan_jf (dsq_upd idx f d) = lse_dsq_last_scan_jf d"
  "lse_dsq_sinfo (dsq_upd idx f d) = lse_dsq_sinfo d"
  "lse_dsq_enable (list_del_init t d) = lse_dsq_enable d"
  "lse_dsq_last_scan_jf (list_del_init t d) = lse_dsq_last_scan_jf d"
  by (simp_all add: dsq_upd_def list_del_init_def Let_def)

lemma dsq_at_frame [simp]:
  "dsq_at i (d\<lparr>lse_dsq_last_scan_jf := x\<rparr>) = dsq_at i d"
  "dsq_at i (d\<lparr>lse_pcp_info := y\<rparr>) = dsq_at i d"
  "dsq_at i (d\<lparr>lse_dsq_sinfo := z\<rparr>) = dsq_at i d"
  "dsq_at i (set_dsq_toggle tg v d) = dsq_at i d"
  "dsq_at i (reset_rounds d) = dsq_at i d"
  by (simp_all add: dsq_at_def reset_rounds_def) (cases tg; simp)

lemma dsq_shape_frame [simp]:
  "dsq_shape (d\<lparr>lse_dsq_last_scan_jf := x\<rparr>) = dsq_shape d"
  "dsq_shape (d\<lparr>lse_pcp_info := y\<rparr>) = dsq_shape d"
  "dsq_shape (set_dsq_toggle tg v d) = dsq_shape d"
  by (simp_all add: dsq_shape_def) (cases tg; simp)

lemma dsq_shape_sinfo:
  "dsq_shape d \<Longrightarrow> length (rtime z) = LSE_MAX_GLOBAL_DSQS \<Longrightarrow> dsq_shape (d\<lparr>lse_dsq_sinfo := z\<rparr>)"
  by (simp add: dsq_shape_def)

lemma dsq_shape_rounds: "dsq_shape d \<Longrightarrow> dsq_shape (reset_rounds d)"
  by (simp add: dsq_shape_def reset_rounds_def)

lemma dsq_fifo_frame [simp]:
  "dsq_fifo (d\<lparr>lse_dsq_last_scan_jf := x\<rparr>) i = dsq_fifo d i"
  "dsq_fifo (d\<lparr>lse_pcp_info := y\<rparr>) i = dsq_fifo d i"
  "dsq_fifo (d\<lparr>lse_dsq_sinfo := z\<rparr>) i = dsq_fifo d i"
  "dsq_fifo (set_dsq_toggle tg v d) i = dsq_fifo d i"
  by (simp_all add: dsq_fifo_def)

lemma dsq_at_global: "i < LSE_MAX_GLOBAL_DSQS \<Longrightarrow> dsq_at i d = lse_gdsqs d ! i"
  by (simp add: dsq_at_def dsq_consts)

lemma reset_pcp_info_frame [simp]:
  "dsq_at i (reset_pcp_info cpus d) = dsq_at i d"
  "dsq_shape (reset_pcp_info cpus d) = dsq_shape d"
  "lse_dsq_enable (reset_pcp_info cpus d) = lse_dsq_enable d"
  unfolding reset_pcp_info_def
  by (induction cpus arbitrary: d) (auto simp: dsq_shape_def)

lemma reset_pcp_info_deadlines [simp]:
  "lse_dsq_deadlines (reset_pcp_info cpus d) = lse_dsq_deadlines d"
  unfolding reset_pcp_info_def by (induction cpus arbitrary: d) auto

text \<open>The scan, queue by queue: it touches the CPU's own queue and the global queues 5 to 9.\<close>

lemma fold_dsq_upd_at:
  assumes "dsq_shape d" "distinct is"
    and g: "\<And>i d e. lse_dsq_deadlines d = lse_dsq_deadlines e \<Longrightarrow> g i d = g i e"
  shows "dsq_at i (fold (\<lambda>i d. dsq_upd i (g i d) d) is d) =
     (if i \<in> set is then g i d (dsq_at i d) else dsq_at i d)"
  using assms(1,2)
proof (induction "is" arbitrary: d)
  case (Cons a "is")
  have eq: "g j (dsq_upd a (g a d) d) = g j d" for j by (rule g) simp
  from Cons show ?case by (auto simp: dsq_at_upd eq)
qed simp

lemma fold_dsq_upd_frame:
  "dsq_shape (fold (\<lambda>i d. dsq_upd i (g i d) d) is d) \<longleftrightarrow> dsq_shape d"
  "lse_dsq_enable (fold (\<lambda>i d. dsq_upd i (g i d) d) is d) = lse_dsq_enable d"
  "lse_dsq_last_scan_jf (fold (\<lambda>i d. dsq_upd i (g i d) d) is d) = lse_dsq_last_scan_jf d"
  by (induction "is" arbitrary: d) auto

lemma scan_timeout_at:
  assumes "dsq_shape d" "lse_dsq_enable d \<noteq> 0"
  shows "dsq_at i (lse_dsq_scan_timeout k j cpu d) =
     (if i = LSE_DSQ_PCP_BASE + cpu then scan_mark k j (lse_pcp_dsq_deadline_ms d) (dsq_at i d)
      else if LSE_DSQ_NON_PERIOD_START \<le> i \<and> i < LSE_DSQ_NON_PERIOD_END
      then scan_reset j (scan_mark k j (lse_dsq_deadlines d ! i) (dsq_at i d))
      else dsq_at i d)"
  using assms
  by (subst lse_dsq_scan_timeout_def, subst if_not_P, simp, unfold Let_def, subst fold_dsq_upd_at)
     (auto simp: dsq_at_upd dsq_consts)

lemma scan_timeout_frame [simp]:
  "dsq_shape (lse_dsq_scan_timeout k j cpu d) \<longleftrightarrow> dsq_shape d"
  "lse_dsq_enable (lse_dsq_scan_timeout k j cpu d) = lse_dsq_enable d"
  "lse_dsq_last_scan_jf (lse_dsq_scan_timeout k j cpu d) = lse_dsq_last_scan_jf d"
  by (simp_all add: lse_dsq_scan_timeout_def fold_dsq_upd_frame Let_def)

lemma scan_fields [simp]:
  "fifo (scan_mark k j x q) = fifo q" "nr (scan_mark k j x q) = nr q"
  "fifo (scan_reset j q) = fifo q" "nr (scan_reset j q) = nr q"
  by (simp_all add: scan_mark_def scan_reset_def)

lemma scan_timeout_off: "lse_dsq_enable d = 0 \<Longrightarrow> lse_dsq_scan_timeout k j cpu d = d"
  by (simp add: lse_dsq_scan_timeout_def)

lemma scan_timeout_fifo [simp]:
  "dsq_shape d \<Longrightarrow> dsq_fifo (lse_dsq_scan_timeout k j cpu d) i = dsq_fifo d i"
  "dsq_shape d \<Longrightarrow> nr (dsq_at i (lse_dsq_scan_timeout k j cpu d)) = nr (dsq_at i d)"
  by (cases "lse_dsq_enable d = 0"; simp add: scan_timeout_at scan_timeout_off dsq_fifo_def)+

section \<open>One place per task\<close>

text \<open>
  The invariant of the queues: a task is linked into at most one queue and once, and its
  \<open>on_dsq\<close> flag tells whether it is linked.
\<close>

definition on_dsq_flag :: "lts_table \<Rightarrow> nat \<Rightarrow> bool" where
  "on_dsq_flag L t = (case L t of None \<Rightarrow> False | Some l \<Rightarrow> on_dsq l)"

definition dsq_wf :: "lts_table \<times> dsq \<Rightarrow> bool" where
  "dsq_wf s \<longleftrightarrow> dsq_shape (snd s) \<and>
     (\<forall>i. distinct (dsq_fifo (snd s) i)) \<and>
     (\<forall>i j t. t \<in> set (dsq_fifo (snd s) i) \<longrightarrow> t \<in> set (dsq_fifo (snd s) j) \<longrightarrow> i = j) \<and>
     (\<forall>t. on_dsq_flag (fst s) t \<longleftrightarrow> (\<exists>i. t \<in> set (dsq_fifo (snd s) i)))"

lemma dsq_wfI:
  assumes "dsq_shape d" "\<And>i. distinct (dsq_fifo d i)"
    and "\<And>i j t. t \<in> set (dsq_fifo d i) \<Longrightarrow> t \<in> set (dsq_fifo d j) \<Longrightarrow> i = j"
    and "\<And>t. on_dsq_flag L t \<longleftrightarrow> (\<exists>i. t \<in> set (dsq_fifo d i))"
  shows "dsq_wf (L, d)"
  using assms unfolding dsq_wf_def by (metis fst_conv snd_conv)

lemma dsq_wfD:
  assumes "dsq_wf (L, d)"
  shows "dsq_shape d" "distinct (dsq_fifo d i)"
    and "t \<in> set (dsq_fifo d i) \<Longrightarrow> t \<in> set (dsq_fifo d j) \<Longrightarrow> i = j"
    and "on_dsq_flag L t \<longleftrightarrow> (\<exists>i. t \<in> set (dsq_fifo d i))"
  using assms unfolding dsq_wf_def by auto

lemma on_dsq_flag_set:
  "on_dsq_flag (set_on_dsq t b L) u = (if u = t then b \<and> L t \<noteq> None else on_dsq_flag L u)"
  by (auto simp: on_dsq_flag_def set_on_dsq_def split: option.split)

lemma dsq_wf_cong:
  assumes "dsq_wf (L, d)" "\<And>i. dsq_fifo e i = dsq_fifo d i" "dsq_shape e"
    and "\<And>t. on_dsq_flag M t = on_dsq_flag L t"
  shows "dsq_wf (M, e)"
  using assms by (simp add: dsq_wf_def)

lemma enqueue_fifo:
  "dsq_shape d \<Longrightarrow> dsq_fifo (snd (dsq_enqueue j idx t (L, d))) i =
     (if i = idx then dsq_fifo d i @ [t] else dsq_fifo d i)"
  by (auto simp: dsq_enqueue_def dsq_fifo_def dsq_at_upd Let_def)

lemma dequeue_fifo:
  "dsq_shape d \<Longrightarrow> on_dsq_flag L t \<Longrightarrow>
     dsq_fifo (snd (dsq_dequeue j idx t (L, d))) i = remove1 t (dsq_fifo d i)"
  by (auto simp: dsq_dequeue_def dsq_fifo_def dsq_at_upd dsq_at_del Let_def on_dsq_flag_def
      split: option.splits)

lemma enqueue_wf:
  assumes wf: "dsq_wf (L, d)" and t: "L t = Some lts" "\<not> on_dsq lts"
  shows "dsq_wf (dsq_enqueue j idx t (L, d))"
proof -
  note w = dsq_wfD [OF wf]
  obtain M e where s: "dsq_enqueue j idx t (L, d) = (M, e)" by fastforce
  have fifo: "dsq_fifo e i = (if i = idx then dsq_fifo d i @ [t] else dsq_fifo d i)" for i
    using enqueue_fifo [OF w(1), of j idx t L i] by (simp add: s)
  have M: "M = set_on_dsq t True L" and shape: "dsq_shape e"
    using s w(1) by (auto simp: dsq_enqueue_def)
  have fresh: "t \<notin> set (dsq_fifo d i)" for i
    using w(4) [of t] t by (auto simp: on_dsq_flag_def)
  show ?thesis unfolding s
  proof (rule dsq_wfI [OF shape])
    show "distinct (dsq_fifo e i)" for i using w(2) fresh by (simp add: fifo)
    show "u \<in> set (dsq_fifo e i) \<Longrightarrow> u \<in> set (dsq_fifo e j) \<Longrightarrow> i = j" for i j u
      using w(3) fresh by (auto simp: fifo split: if_splits)
    show "on_dsq_flag M u \<longleftrightarrow> (\<exists>i. u \<in> set (dsq_fifo e i))" for u
      using w(4) [of u] t(1) by (auto simp: M on_dsq_flag_set fifo)
  qed
qed

lemma dequeue_wf:
  assumes wf: "dsq_wf (L, d)"
  shows "dsq_wf (dsq_dequeue j idx t (L, d))"
proof (cases "on_dsq_flag L t")
  case True
  note w = dsq_wfD [OF wf]
  obtain M e where s: "dsq_dequeue j idx t (L, d) = (M, e)" by fastforce
  have fifo: "dsq_fifo e i = remove1 t (dsq_fifo d i)" for i
    using dequeue_fifo [OF w(1) True, of j idx i] by (simp add: s)
  have M: "M = set_on_dsq t False L" and shape: "dsq_shape e"
    using s w(1) True by (auto simp: dsq_dequeue_def on_dsq_flag_def split: option.splits)
  show ?thesis unfolding s
  proof (rule dsq_wfI [OF shape])
    show "distinct (dsq_fifo e i)" for i using w(2) by (simp add: fifo)
    show "u \<in> set (dsq_fifo e i) \<Longrightarrow> u \<in> set (dsq_fifo e j) \<Longrightarrow> i = j" for i j u
      using w(3) set_remove1_subset by (metis fifo subsetD)
    show "on_dsq_flag M u \<longleftrightarrow> (\<exists>i. u \<in> set (dsq_fifo e i))" for u
      using w(2) w(4) [of u] by (auto simp: M on_dsq_flag_set fifo)
  qed
next
  case False
  then have "dsq_dequeue j idx t (L, d) = (L, d)"
    by (auto simp: dsq_dequeue_def on_dsq_flag_def split: option.splits)
  with wf show ?thesis by simp
qed

lemma enqueue_task_cases:
  obtains (skip) "lse_dsq_enqueue_task k j cpu_rq p cpu s = s"
  | (enq) t lts where "p = Some t" "fst s (ts_id t) = Some lts" "\<not> on_dsq lts"
      "lse_dsq_enable (snd s) \<noteq> 0" "task_on_rq_queued t"
      "dsq_idx_valid k (lse_dsq_classify_lts k (Some lts) t)"
      "lse_dsq_enqueue_task k j cpu_rq p cpu s =
         dsq_enqueue j (lse_dsq_classify_lts k (Some lts) t) (ts_id t) s"
proof -
  have "lse_dsq_enqueue_task k j cpu_rq p cpu s = s \<or>
    (\<exists>t lts. p = Some t \<and> fst s (ts_id t) = Some lts \<and> \<not> on_dsq lts \<and>
      lse_dsq_enable (snd s) \<noteq> 0 \<and> task_on_rq_queued t \<and>
      dsq_idx_valid k (lse_dsq_classify_lts k (Some lts) t) \<and>
      lse_dsq_enqueue_task k j cpu_rq p cpu s =
        dsq_enqueue j (lse_dsq_classify_lts k (Some lts) t) (ts_id t) s)"
    by (cases s) (auto simp: lse_dsq_enqueue_task_def Let_def split: option.split)
  then show ?thesis using that by blast
qed

lemma dequeue_task_cases:
  obtains (skip) "lse_dsq_dequeue_task k j p s = s"
  | (deq) t lts where "p = Some t" "fst s (ts_id t) = Some lts" "on_dsq lts"
      "lse_dsq_enable (snd s) \<noteq> 0"
      "lse_dsq_dequeue_task k j p s =
         dsq_dequeue j (lse_dsq_classify_lts k (Some lts) t) (ts_id t) s"
proof -
  have "lse_dsq_dequeue_task k j p s = s \<or>
    (\<exists>t lts. p = Some t \<and> fst s (ts_id t) = Some lts \<and> on_dsq lts \<and>
      lse_dsq_enable (snd s) \<noteq> 0 \<and>
      lse_dsq_dequeue_task k j p s =
        dsq_dequeue j (lse_dsq_classify_lts k (Some lts) t) (ts_id t) s)"
    by (cases s) (auto simp: lse_dsq_dequeue_task_def Let_def split: option.split)
  then show ?thesis using that by blast
qed

lemma enqueue_task_wf: "dsq_wf s \<Longrightarrow> dsq_wf (lse_dsq_enqueue_task k j cpu_rq p cpu s)"
  by (cases s, cases rule: enqueue_task_cases [of k j cpu_rq p cpu s]) (auto intro: enqueue_wf)

lemma dequeue_task_wf: "dsq_wf s \<Longrightarrow> dsq_wf (lse_dsq_dequeue_task k j p s)"
  by (cases s, cases rule: dequeue_task_cases [of k j p s]) (auto intro: dequeue_wf)

lemma switch_wf: "dsq_wf s \<Longrightarrow> dsq_wf (dsq_switch k j cpu_rq cpu prev n s)"
  by (auto simp: dsq_switch_def Let_def split: option.split intro: enqueue_task_wf dequeue_task_wf)

lemma throttled_scan_wf: "dsq_wf s \<Longrightarrow> dsq_wf (dsq_throttled_scan k j cpu s)"
proof (cases s)
  case (Pair L d)
  assume wf: "dsq_wf s"
  have "dsq_wf (L, lse_dsq_scan_timeout k j cpu
      (d\<lparr>lse_dsq_last_scan_jf := (lse_dsq_last_scan_jf d)(cpu := j)\<rparr>))"
    using wf unfolding Pair
    by (elim dsq_wf_cong) (use dsq_wfD(1) [OF wf [unfolded Pair]] in simp_all)
  with wf show ?thesis by (simp add: Pair dsq_throttled_scan_def)
qed

lemma on_schedule_wf:
  "dsq_wf s \<Longrightarrow> dsq_wf (lse_dsq_on_schedule k j cpu_rq st rq p n s)"
  by (auto simp: lse_dsq_on_schedule_def Let_def split: option.split
      intro: throttled_scan_wf switch_wf)

lemma on_dsq_flag_clear:
  "on_dsq_flag (fold (\<lambda>t L. set_on_dsq t False L) ts L) u \<longleftrightarrow> on_dsq_flag L u \<and> u \<notin> set ts"
  by (induction ts arbitrary: L) (auto simp: on_dsq_flag_set)

lemma drain_at:
  assumes "dsq_shape (snd s)"
  shows "dsq_at i (snd (drain_dsq idx s)) =
      (if i = idx then (dsq_at i (snd s))\<lparr>fifo := [], nr := 0, is_timeout := False\<rparr>
       else dsq_at i (snd s))"
    and "dsq_shape (snd (drain_dsq idx s))"
    and "lse_dsq_enable (snd (drain_dsq idx s)) = lse_dsq_enable (snd s)"
  using assms by (auto simp: drain_dsq_def dsq_at_upd split: prod.split)

lemma drain_fst:
  "fst (drain_dsq idx (L, d)) = fold (\<lambda>t L. set_on_dsq t False L) (dsq_fifo d idx) L"
  by (simp add: drain_dsq_def dsq_fifo_def)

lemma drain_wf:
  assumes "dsq_wf s"
  shows "dsq_wf (drain_dsq idx s)"
proof (cases s)
  case (Pair L d)
  note w = dsq_wfD [OF assms [unfolded Pair]]
  have fifo: "dsq_fifo (snd (drain_dsq idx s)) i = (if i = idx then [] else dsq_fifo d i)" for i
    using drain_at(1) [of s i idx] w(1) by (auto simp: Pair dsq_fifo_def)
  have "dsq_wf (fst (drain_dsq idx s), snd (drain_dsq idx s))"
  proof (rule dsq_wfI)
    show "dsq_shape (snd (drain_dsq idx s))" using drain_at(2) w(1) by (simp add: Pair)
    fix i j t
    show "distinct (dsq_fifo (snd (drain_dsq idx s)) i)" using w(2) by (simp add: fifo)
    show "t \<in> set (dsq_fifo (snd (drain_dsq idx s)) i) \<Longrightarrow>
        t \<in> set (dsq_fifo (snd (drain_dsq idx s)) j) \<Longrightarrow> i = j"
      using w(3) by (auto simp: fifo split: if_splits)
    show "on_dsq_flag (fst (drain_dsq idx s)) t \<longleftrightarrow>
        (\<exists>i. t \<in> set (dsq_fifo (snd (drain_dsq idx s)) i))"
      using w(3) w(4) [of t]
      by (auto simp: fifo [unfolded Pair] drain_fst Pair on_dsq_flag_clear split: if_splits) metis
  qed
  then show ?thesis by simp
qed

lemma fold_drain:
  assumes "dsq_wf s"
  shows "dsq_wf (fold (\<lambda>i. drain_dsq (f i)) is s)"
    and "dsq_at i (snd (fold (\<lambda>i. drain_dsq (f i)) is s)) =
      (if i \<in> f ` set is then (dsq_at i (snd s))\<lparr>fifo := [], nr := 0, is_timeout := False\<rparr>
       else dsq_at i (snd s))"
proof -
  have "dsq_wf (fold (\<lambda>i. drain_dsq (f i)) is s) \<and>
    dsq_at i (snd (fold (\<lambda>i. drain_dsq (f i)) is s)) =
      (if i \<in> f ` set is then (dsq_at i (snd s))\<lparr>fifo := [], nr := 0, is_timeout := False\<rparr>
       else dsq_at i (snd s))"
    using assms
  proof (induction "is" arbitrary: s)
    case (Cons a "is")
    have "dsq_shape (snd s)" using Cons.prems by (simp add: dsq_wf_def)
    then show ?case using Cons.IH [OF drain_wf [OF Cons.prems]] by (auto simp: drain_at)
  qed simp
  then show "dsq_wf (fold (\<lambda>i. drain_dsq (f i)) is s)"
    "dsq_at i (snd (fold (\<lambda>i. drain_dsq (f i)) is s)) =
      (if i \<in> f ` set is then (dsq_at i (snd s))\<lparr>fifo := [], nr := 0, is_timeout := False\<rparr>
       else dsq_at i (snd s))" by simp_all
qed

lemma dsq_sync_on: "lse_dsq_enable (snd s) \<noteq> 0 \<Longrightarrow> lse_dsq_sync k s = s"
  by (simp add: lse_dsq_sync_def)

lemma dsq_sync_off:
  assumes "lse_dsq_enable (snd s) = 0" "dsq_wf s"
  shows "dsq_wf (lse_dsq_sync k s)"
    and "dsq_at i (snd (lse_dsq_sync k s)) =
      (if i < LSE_MAX_GLOBAL_DSQS \<or> i - LSE_DSQ_PCP_BASE \<in> set (for_each_online_cpu k)
       then (dsq_at i (snd s))\<lparr>fifo := [], nr := 0, is_timeout := False\<rparr> else dsq_at i (snd s))"
proof -
  define s1 where "s1 = fold (\<lambda>i. drain_dsq i) [0..<LSE_MAX_GLOBAL_DSQS] s"
  define s2 where "s2 = fold (\<lambda>cpu. drain_dsq (LSE_DSQ_PCP_BASE + cpu)) (for_each_online_cpu k) s1"
  have wf1: "dsq_wf s1" unfolding s1_def by (rule fold_drain(1) [OF assms(2)])
  have wf2: "dsq_wf s2" unfolding s2_def by (rule fold_drain(1) [OF wf1])
  have at2: "dsq_at i (snd s2) =
      (if i < LSE_MAX_GLOBAL_DSQS \<or> i - LSE_DSQ_PCP_BASE \<in> set (for_each_online_cpu k)
       then (dsq_at i (snd s))\<lparr>fifo := [], nr := 0, is_timeout := False\<rparr> else dsq_at i (snd s))" for i
  proof -
    have "i \<in> (+) LSE_DSQ_PCP_BASE ` set (for_each_online_cpu k) \<longleftrightarrow>
        LSE_DSQ_PCP_BASE \<le> i \<and> i - LSE_DSQ_PCP_BASE \<in> set (for_each_online_cpu k)"
      by (auto simp: image_iff) (metis le_add_diff_inverse)
    then show ?thesis
      unfolding s2_def fold_drain(2) [OF wf1] unfolding s1_def fold_drain(2) [OF assms(2)]
      by (auto simp: dsq_consts)
  qed
  have "snd (lse_dsq_sync k s) = reset_pcp_info (for_each_online_cpu k)
      ((reset_rounds (snd s2))\<lparr>lse_dsq_sinfo :=
        (lse_dsq_sinfo (reset_rounds (snd s2)))\<lparr>rtime := replicate LSE_MAX_GLOBAL_DSQS 0\<rparr>\<rparr>)"
    and fst: "fst (lse_dsq_sync k s) = fst s2"
    using assms(1) by (simp_all add: lse_dsq_sync_def Let_def s1_def s2_def)
  moreover have "dsq_shape (snd s2)" using wf2 by (simp add: dsq_wf_def)
  ultimately have at: "dsq_at i (snd (lse_dsq_sync k s)) = dsq_at i (snd s2)"
    and shape: "dsq_shape (snd (lse_dsq_sync k s))" for i
    by (simp_all add: dsq_shape_sinfo dsq_shape_rounds)
  have "dsq_wf (fst s2, snd s2)" using wf2 by simp
  then have "dsq_wf (fst (lse_dsq_sync k s), snd (lse_dsq_sync k s))"
    by (rule dsq_wf_cong) (simp_all add: dsq_fifo_def at shape fst)
  then show "dsq_wf (lse_dsq_sync k s)" by simp
  show "dsq_at i (snd (lse_dsq_sync k s)) =
      (if i < LSE_MAX_GLOBAL_DSQS \<or> i - LSE_DSQ_PCP_BASE \<in> set (for_each_online_cpu k)
       then (dsq_at i (snd s))\<lparr>fifo := [], nr := 0, is_timeout := False\<rparr> else dsq_at i (snd s))"
    by (simp add: at at2)
qed

section \<open>Steps of the queues\<close>

text \<open>
  Everything that changes the queues or the tasks' \<open>lse_task_struct\<close> after initialisation.  The
  rest of the module writes other fields of a \<open>lse_task_struct\<close> and allocates new ones
  (\<open>lts_write\<close>, \<open>lts_alloc\<close>); freeing one is a step only for a task that is in no queue, which the
  code does not check (see \<open>free_queued_dangles\<close>).
\<close>

inductive dsq_step :: "kernel \<Rightarrow> lts_table \<times> dsq \<Rightarrow> lts_table \<times> dsq \<Rightarrow> bool" for k where
  schedule: "dsq_step k s (lse_dsq_on_schedule k j cpu_rq stats rq prev n s)"
| runtime: "dsq_step k s (lse_dsq_add_runtime k p ns s)"
| toggle: "dsq_step k s (snd (lse_proc_dsq_toggle_update k table True io s))"
| set_depth: "dsq_step k (L, d) (L, d\<lparr>lse_dsq_max_depth := v\<rparr>)"
| boot_sync: "dsq_step k s (lse_dsq_sync k s)"
| lts_write: "L t = Some l \<Longrightarrow> on_dsq l' = on_dsq l \<Longrightarrow> dsq_step k (L, d) (L(t \<mapsto> l'), d)"
| lts_alloc: "L t = None \<Longrightarrow> \<not> on_dsq l \<Longrightarrow> dsq_step k (L, d) (L(t \<mapsto> l), d)"
| lts_free: "L t = Some l \<Longrightarrow> \<not> on_dsq l \<Longrightarrow> dsq_step k (L, d) (L(t := None), d)"

inductive_cases dsq_stepE: "dsq_step k s s'"

definition dsq_started :: "kernel \<Rightarrow> lts_table \<times> dsq \<Rightarrow> bool" where
  "dsq_started k s \<longleftrightarrow> (\<exists>L j. s = (L, lse_dsq_init k j boot_dsq) \<and> (\<forall>t. \<not> on_dsq_flag L t))"

lemma init_one_dsq_fields [simp]:
  "fifo (init_one_dsq j i) = []" "nr (init_one_dsq j i) = 0" "is_timeout (init_one_dsq j i) = False"
  by (simp_all add: init_one_dsq_def)

lemma init_pcp_loop:
  fixes g :: "nat \<Rightarrow> lse_dispatch_q"
  shows "lse_gdsqs (fold (\<lambda>cpu d. d\<lparr>lse_pcp_dsq := (lse_pcp_dsq d)(cpu := g cpu)\<rparr>) cpus d) = lse_gdsqs d"
    and "lse_pcp_dsq (fold (\<lambda>cpu d. d\<lparr>lse_pcp_dsq := (lse_pcp_dsq d)(cpu := g cpu)\<rparr>) cpus d) =
      (\<lambda>c. if c \<in> set cpus then g c else lse_pcp_dsq d c)"
    and "lse_dsq_sinfo (fold (\<lambda>cpu d. d\<lparr>lse_pcp_dsq := (lse_pcp_dsq d)(cpu := g cpu)\<rparr>) cpus d) = lse_dsq_sinfo d"
    and "lse_dsq_deadlines (fold (\<lambda>cpu d. d\<lparr>lse_pcp_dsq := (lse_pcp_dsq d)(cpu := g cpu)\<rparr>) cpus d) = lse_dsq_deadlines d"
    and "lse_dsq_enable (fold (\<lambda>cpu d. d\<lparr>lse_pcp_dsq := (lse_pcp_dsq d)(cpu := g cpu)\<rparr>) cpus d) = lse_dsq_enable d"
  by (induction cpus arbitrary: d) (auto simp: fun_eq_iff)

lemma dsq_at_round: "dsq_at i (d\<lparr>lse_dsq_round := r\<rparr>) = dsq_at i d"
  "dsq_shape (d\<lparr>lse_dsq_round := r\<rparr>) = dsq_shape d"
  by (simp_all add: dsq_at_def dsq_shape_def)

lemma dsq_init_state:
  fixes k j
  defines "d \<equiv> lse_dsq_init k j boot_dsq"
  shows "dsq_shape d" "dsq_fifo d i = []" "nr (dsq_at i d) = 0" "\<not> is_timeout (dsq_at i d)"
proof -
  have at: "dsq_at i d = (if i < LSE_MAX_GLOBAL_DSQS
      then init_one_dsq j (or LSE_DSQ_FLAG_BUILTIN (word_of_nat i))
      else if i - LSE_DSQ_PCP_BASE \<in> set (cpu_possible k)
      then init_one_dsq j (or LSE_DSQ_FLAG_BUILTIN (word_of_nat (LSE_DSQ_PCP_BASE + (i - LSE_DSQ_PCP_BASE))))
      else init_one_dsq 0 0)"
    by (simp add: d_def lse_dsq_init_def Let_def dsq_at_round)
       (simp add: dsq_at_def init_pcp_loop boot_dsq_def dsq_consts)
  then show "dsq_fifo d i = []" "nr (dsq_at i d) = 0" "\<not> is_timeout (dsq_at i d)"
    by (simp_all add: dsq_fifo_def)
  show "dsq_shape d"
    unfolding d_def lse_dsq_init_def Let_def dsq_at_round reset_pcp_info_frame
    by (rule dsq_shape_rounds)
       (simp add: dsq_shape_def init_pcp_loop boot_dsq_def LSE_DSQ_DEFAULT_DEADLINES_def dsq_consts)
qed

lemma dsq_init_tunables:
  "lse_dsq_enable (lse_dsq_init k j boot_dsq) = 1"
  "lse_dsq_deadlines (lse_dsq_init k j boot_dsq) = LSE_DSQ_DEFAULT_DEADLINES"
  by (simp_all add: lse_dsq_init_def Let_def)
     (simp_all add: reset_rounds_def init_pcp_loop boot_dsq_def)

lemma started_wf: "dsq_started k s \<Longrightarrow> dsq_wf s"
  by (auto simp: dsq_started_def dsq_init_state intro!: dsq_wfI)

lemma add_runtime_fields:
  assumes "dsq_shape (snd s)"
  shows "fst (lse_dsq_add_runtime k p ns s) = fst s"
    and "dsq_at i (snd (lse_dsq_add_runtime k p ns s)) = dsq_at i (snd s)"
    and "dsq_shape (snd (lse_dsq_add_runtime k p ns s))"
  using assms
  by (auto simp: lse_dsq_add_runtime_def Let_def dsq_shape_sinfo dsq_shape_def split: prod.split option.split)

lemma add_runtime_wf:
  assumes "dsq_wf s" shows "dsq_wf (lse_dsq_add_runtime k p ns s)"
proof -
  have shape: "dsq_shape (snd s)" and wf: "dsq_wf (fst s, snd s)" using assms by (simp_all add: dsq_wf_def)
  have "dsq_wf (fst (lse_dsq_add_runtime k p ns s), snd (lse_dsq_add_runtime k p ns s))"
    by (rule dsq_wf_cong [OF wf]) (simp_all add: dsq_fifo_def add_runtime_fields [OF shape])
  then show ?thesis by simp
qed

lemma sync_wf: "dsq_wf s \<Longrightarrow> dsq_wf (lse_dsq_sync k s)"
  by (cases "lse_dsq_enable (snd s) = 0") (simp_all add: dsq_sync_off dsq_sync_on)

lemma set_toggle_wf:
  assumes "dsq_wf s" shows "dsq_wf (fst s, set_dsq_toggle table v (snd s))"
proof -
  have "dsq_wf (fst s, snd s)" "dsq_shape (snd s)" using assms by (simp_all add: dsq_wf_def)
  then show ?thesis by (elim dsq_wf_cong) simp_all
qed

lemma toggle_wf:
  assumes "dsq_wf s" shows "dsq_wf (snd (lse_proc_dsq_toggle_update k table w io s))"
  using set_toggle_wf [OF assms]
  by (cases io) (simp_all add: lse_proc_dsq_toggle_update_def sync_wf assms)

lemma dsq_wf_table:
  "dsq_wf (L, d) \<Longrightarrow> (\<And>t. on_dsq_flag M t = on_dsq_flag L t) \<Longrightarrow> dsq_wf (M, d)"
  by (simp add: dsq_wf_def)

lemma dsq_step_wf: "dsq_step k s s' \<Longrightarrow> dsq_wf s \<Longrightarrow> dsq_wf s'"
proof (induction rule: dsq_step.induct)
  case (set_depth L d v)
  have "dsq_fifo (d\<lparr>lse_dsq_max_depth := v\<rparr>) i = dsq_fifo d i" for i
    by (simp add: dsq_fifo_def dsq_at_def)
  moreover have "dsq_shape (d\<lparr>lse_dsq_max_depth := v\<rparr>)"
    using dsq_wfD(1) [OF set_depth] by (simp add: dsq_shape_def)
  ultimately show ?case using set_depth by (elim dsq_wf_cong) simp_all
next
  case (lts_write L t l l' d)
  then show ?case by (elim dsq_wf_table) (auto simp: on_dsq_flag_def)
next
  case (lts_alloc L t l d)
  then show ?case by (elim dsq_wf_table) (auto simp: on_dsq_flag_def)
next
  case (lts_free L t l d)
  then show ?case by (elim dsq_wf_table) (auto simp: on_dsq_flag_def)
qed (simp_all add: on_schedule_wf add_runtime_wf toggle_wf sync_wf)

interpretation dsq_sys: invariant_system "dsq_started k" "dsq_step k" dsq_wf for k
  by unfold_locales (rule started_wf, assumption, rule dsq_step_wf, assumption+)

section \<open>Where tasks are queued\<close>

lemma classify_lts_range:
  "lse_dsq_classify_lts k (Some l) p \<in> {0, 2, 3, 6, 8, 9} \<or>
   lse_dsq_classify_lts k (Some l) p = LSE_DSQ_PCP_BASE + cpumask_any k (cpus_ptr p)"
  by (auto simp: lse_dsq_classify_lts_def dsq_prios split: lse_task_class.split)

lemma classify_lts_global:
  "lse_dsq_classify_lts k (Some l) p < LSE_DSQ_PCP_BASE \<Longrightarrow>
   lse_dsq_classify_lts k (Some l) p \<in> {0, 2, 3, 6, 8, 9}"
  using classify_lts_range [of k l p] by auto

lemma classify_by_prio_mono:
  assumes "task_nice p = prio p - DEFAULT_PRIO" "task_nice q = prio q - DEFAULT_PRIO"
    and "prio p \<le> prio q"
  shows "classify_by_prio p \<le> classify_by_prio q"
  using assms by (auto simp: classify_by_prio_def dsq_prios DEFAULT_PRIO_def)

lemma classify_on_dsq: "lse_dsq_classify_lts k (Some (l\<lparr>on_dsq := b\<rparr>)) p = lse_dsq_classify_lts k (Some l) p"
  by (simp add: lse_dsq_classify_lts_def)

section \<open>Timeouts and urgency\<close>

definition timeouts_confined :: "dsq \<Rightarrow> bool" where
  "timeouts_confined d \<longleftrightarrow> dsq_shape d \<and>
     (\<forall>i < LSE_MAX_GLOBAL_DSQS. dsq_fifo d i \<noteq> [] \<longrightarrow> i \<in> {0, 2, 3, 6, 8, 9}) \<and>
     (\<forall>i < LSE_MAX_GLOBAL_DSQS. is_timeout (dsq_at i d) \<longrightarrow> i \<in> {6, 8, 9})"

lemma confined_mono:
  assumes "timeouts_confined d" "dsq_shape e"
    and "\<And>i. i < LSE_MAX_GLOBAL_DSQS \<Longrightarrow> dsq_fifo e i \<noteq> [] \<Longrightarrow> dsq_fifo d i \<noteq> []"
    and "\<And>i. i < LSE_MAX_GLOBAL_DSQS \<Longrightarrow> is_timeout (dsq_at i e) \<Longrightarrow> is_timeout (dsq_at i d)"
  shows "timeouts_confined e"
  using assms unfolding timeouts_confined_def by blast

lemma enqueue_at:
  "dsq_shape d \<Longrightarrow> is_timeout (dsq_at i (snd (dsq_enqueue j idx t (L, d)))) = is_timeout (dsq_at i d)"
  "dsq_shape d \<Longrightarrow> dsq_shape (snd (dsq_enqueue j idx t (L, d)))"
  by (simp_all add: dsq_enqueue_def dsq_at_upd Let_def)

lemma enqueue_confined:
  assumes "timeouts_confined d" "LSE_DSQ_PCP_BASE \<le> idx \<or> idx \<in> {0, 2, 3, 6, 8, 9}"
  shows "timeouts_confined (snd (dsq_enqueue j idx t (L, d)))"
  using assms by (auto simp: timeouts_confined_def enqueue_at enqueue_fifo dsq_consts split: if_splits)

lemma dequeue_shape:
  "dsq_shape (snd s) \<Longrightarrow> dsq_shape (snd (dsq_dequeue j idx t s))"
  by (auto simp: dsq_dequeue_def split: prod.split option.split)

lemma dequeue_shrinks:
  assumes "dsq_shape d" 
  shows "dsq_fifo (snd (dsq_dequeue j idx t (L, d))) i \<noteq> [] \<Longrightarrow> dsq_fifo d i \<noteq> []"
    and "is_timeout (dsq_at i (snd (dsq_dequeue j idx t (L, d)))) \<Longrightarrow> is_timeout (dsq_at i d)"
  using assms
  by (auto simp: dsq_dequeue_def dsq_fifo_def dsq_at_upd dsq_at_del Let_def split: option.splits if_splits)

lemma dequeue_confined:
  assumes "timeouts_confined d" shows "timeouts_confined (snd (dsq_dequeue j idx t (L, d)))"
proof -
  have shape: "dsq_shape d" using assms by (simp add: timeouts_confined_def)
  show ?thesis
    by (rule confined_mono [OF assms dequeue_shape]) (auto simp: shape dest: dequeue_shrinks [OF shape])
qed

lemma scan_is_timeout:
  "is_timeout (scan_mark k j ms q) \<longleftrightarrow> is_timeout q \<or>
     (fifo q \<noteq> [] \<and> time_after j (last_consume_at q + msecs_to_jiffies k ms))"
  "is_timeout (scan_reset j q) \<longleftrightarrow> is_timeout q \<and> fifo q \<noteq> []"
  by (auto simp: scan_mark_def scan_reset_def)

lemma scan_confined:
  assumes conf: "timeouts_confined d" shows "timeouts_confined (lse_dsq_scan_timeout k j cpu d)"
proof (cases "lse_dsq_enable d = 0")
  case False
  have shape: "dsq_shape d" using conf by (simp add: timeouts_confined_def)
  have "is_timeout (dsq_at i d) \<or> (5 \<le> i \<and> dsq_fifo d i \<noteq> [])"
    if "is_timeout (dsq_at i (lse_dsq_scan_timeout k j cpu d))" "i < LSE_MAX_GLOBAL_DSQS" for i
    using that by (auto simp: scan_timeout_at [OF shape False] scan_is_timeout dsq_fifo_def dsq_consts
        split: if_splits)
  then have "is_timeout (dsq_at i (lse_dsq_scan_timeout k j cpu d)) \<longrightarrow> i \<in> {6, 8, 9}"
    if "i < LSE_MAX_GLOBAL_DSQS" for i
    using conf that unfolding timeouts_confined_def by fastforce
  then show ?thesis using conf shape by (simp add: timeouts_confined_def)
qed (simp add: scan_timeout_off conf)

lemma enqueue_task_confined:
  "timeouts_confined (snd s) \<Longrightarrow> timeouts_confined (snd (lse_dsq_enqueue_task k j cpu_rq p cpu s))"
  by (cases s, cases rule: enqueue_task_cases [of k j cpu_rq p cpu s])
     (use classify_lts_global in \<open>force intro!: enqueue_confined\<close>)+

lemma dequeue_task_confined:
  "timeouts_confined (snd s) \<Longrightarrow> timeouts_confined (snd (lse_dsq_dequeue_task k j p s))"
  by (cases s, cases rule: dequeue_task_cases [of k j p s]) (auto intro: dequeue_confined)

lemma confined_frame [simp]:
  "timeouts_confined (d\<lparr>lse_dsq_last_scan_jf := x\<rparr>) = timeouts_confined d"
  "timeouts_confined (set_dsq_toggle tg v d) = timeouts_confined d"
  by (simp_all add: timeouts_confined_def)

lemma on_schedule_confined:
  assumes "timeouts_confined (snd s)"
  shows "timeouts_confined (snd (lse_dsq_on_schedule k j cpu_rq st rq p n s))"
proof -
  have "timeouts_confined (snd (dsq_switch k j cpu_rq cpu p n s))" for cpu
    using assms by (auto simp: dsq_switch_def Let_def split: option.split
        intro: enqueue_task_confined dequeue_task_confined)
  moreover have "timeouts_confined (snd s) \<Longrightarrow> timeouts_confined (snd (dsq_throttled_scan k j cpu s))" for s cpu
    by (auto simp: dsq_throttled_scan_def split: prod.split intro: scan_confined)
  ultimately show ?thesis using assms
    by (simp add: lse_dsq_on_schedule_def Let_def split: option.split)
qed

lemma sync_confined:
  assumes "timeouts_confined (snd s)" "dsq_wf s"
  shows "timeouts_confined (snd (lse_dsq_sync k s))"
proof (cases "lse_dsq_enable (snd s) = 0")
  case True
  have "dsq_shape (snd (lse_dsq_sync k s))" using dsq_sync_off(1) [OF True assms(2)] by (simp add: dsq_wf_def)
  then show ?thesis
    by (rule confined_mono [OF assms(1)])
       (simp_all add: dsq_sync_off(2) [OF True assms(2)] dsq_fifo_def)
qed (simp add: dsq_sync_on assms)

lemma dsq_step_confined:
  "dsq_step k s s' \<Longrightarrow> dsq_wf s \<Longrightarrow> timeouts_confined (snd s) \<Longrightarrow> timeouts_confined (snd s')"
proof (induction rule: dsq_step.induct)
  case (runtime s p ns)
  have "dsq_shape (snd s)" using runtime by (simp add: dsq_wf_def)
  note f = add_runtime_fields [OF this]
  show ?case by (rule confined_mono [OF runtime(2)]) (simp_all add: f dsq_fifo_def)
next
  case (toggle s table io)
  have "timeouts_confined (snd (lse_dsq_sync k (fst s, set_dsq_toggle table v (snd s))))" for v
    using toggle by (intro sync_confined set_toggle_wf) simp_all
  then show ?case using toggle(2)
    by (cases io) (simp_all add: lse_proc_dsq_toggle_update_def)
next
  case (set_depth L d v)
  have "dsq_shape (d\<lparr>lse_dsq_max_depth := v\<rparr>)"
    using dsq_wfD(1) [OF set_depth(1)] by (simp add: dsq_shape_def)
  moreover have "dsq_at i (d\<lparr>lse_dsq_max_depth := v\<rparr>) = dsq_at i d" for i
    by (simp add: dsq_at_def)
  ultimately show ?case using set_depth(2)
    by (elim confined_mono) (simp_all add: dsq_fifo_def)
qed (simp_all add: on_schedule_confined sync_confined)

lemma started_confined: "dsq_started k s \<Longrightarrow> timeouts_confined (snd s)"
  by (auto simp: dsq_started_def timeouts_confined_def dsq_init_state)

interpretation dsq_urgency_sys: layered_invariant "dsq_started k" "dsq_step k" dsq_wf "\<lambda>s. timeouts_confined (snd s)" for k
  by unfold_locales (rule started_confined, assumption, rule dsq_step_confined, assumption+)

lemma fold_count: "fold (\<lambda>i n. if P i then n + 1 else n) is a = a + length (filter P is)"
  by (induction "is" arbitrary: a) auto

definition timed_out :: "dsq \<Rightarrow> nat set" where
  "timed_out d = {i. i < LSE_MAX_GLOBAL_DSQS \<and> is_timeout (dsq_at i d)}"

lemma timed_out_card: "card (timed_out d) \<le> LSE_MAX_GLOBAL_DSQS"
proof -
  have "timed_out d \<subseteq> {..<LSE_MAX_GLOBAL_DSQS}" by (auto simp: timed_out_def)
  then show ?thesis using card_mono [of "{..<LSE_MAX_GLOBAL_DSQS}"] by simp
qed

lemma urgency_eq:
  "unat (lse_dsq_urgency_signal d) =
     (if lse_dsq_enable d = 0 then 0 else min (256 * card (timed_out d)) 1024)"
proof -
  have "length (filter (\<lambda>i. lse_dsq_has_timeout (int i) d) [0..<LSE_MAX_GLOBAL_DSQS]) = card (timed_out d)"
    by (subst distinct_card [symmetric], simp, rule arg_cong [of _ _ card])
       (auto simp: timed_out_def lse_dsq_has_timeout_def dsq_at_global)
  moreover have "unat (word_of_nat (card (timed_out d) * 256) :: u32) = card (timed_out d) * 256"
    using timed_out_card [of d] by (simp only: unat_of_nat) (simp add: dsq_consts)
  ultimately show ?thesis
    by (simp add: lse_dsq_urgency_signal_def fold_count unat_min mult.commute)
qed

lemma confined_urgency:
  assumes "timeouts_confined d" shows "unat (lse_dsq_urgency_signal d) \<le> 768"
proof -
  have "timed_out d \<subseteq> {6, 8, 9}" using assms by (auto simp: timed_out_def timeouts_confined_def)
  then have "card (timed_out d) \<le> card {6, 8, 9 :: nat}" by (intro card_mono) simp_all
  then show ?thesis by (simp add: urgency_eq)
qed

section \<open>The counters\<close>

text \<open>
  As long as no queued task changes its class, every counter is the length of its queue.  The table
  may change in other fields of the tasks; what decides the class is compared with the table \<open>L0\<close>
  of the start.  Task identities are bounded, as PIDs are, so that a counter cannot wrap.
\<close>

definition same_class :: "lts_table \<Rightarrow> lts_table \<Rightarrow> bool" where
  "same_class L0 L \<longleftrightarrow>
     (\<forall>t. map_option (\<lambda>l. l\<lparr>on_dsq := False\<rparr>) (L t) = map_option (\<lambda>l. l\<lparr>on_dsq := False\<rparr>) (L0 t))"

definition nr_exact :: "(nat \<Rightarrow> nat) \<Rightarrow> nat \<Rightarrow> lts_table \<Rightarrow> lts_table \<times> dsq \<Rightarrow> bool" where
  "nr_exact cls N L0 s \<longleftrightarrow> dsq_wf s \<and> same_class L0 (fst s) \<and>
     (\<forall>i. nr (dsq_at i (snd s)) = int (length (dsq_fifo (snd s) i))) \<and>
     (\<forall>i. \<forall>t \<in> set (dsq_fifo (snd s) i). cls t = i \<and> t < N)"

definition class_stable ::
  "kernel \<Rightarrow> (nat \<Rightarrow> nat) \<Rightarrow> nat \<Rightarrow> lts_table \<Rightarrow> task_struct option \<Rightarrow> bool" where
  "class_stable k cls N L0 p \<longleftrightarrow>
     (case p of None \<Rightarrow> True
      | Some p \<Rightarrow> ts_id p < N \<and>
          (L0 (ts_id p) \<noteq> None \<longrightarrow> lse_dsq_classify_task k L0 p = cls (ts_id p)))"

lemma wrap_int_small: "- (2 ^ 31) \<le> x \<Longrightarrow> x < 2 ^ 31 \<Longrightarrow> wrap_int x = x"
  unfolding wrap_int_def by (rule signed_take_bit_int_eq_self) simp_all

lemma same_class_classify:
  assumes "same_class L0 L" "L (ts_id p) = Some l"
  shows "lse_dsq_classify_lts k (Some l) p = lse_dsq_classify_task k L0 p" "L0 (ts_id p) \<noteq> None"
proof -
  have *: "map_option (\<lambda>l. l\<lparr>on_dsq := False\<rparr>) (L (ts_id p)) =
      map_option (\<lambda>l. l\<lparr>on_dsq := False\<rparr>) (L0 (ts_id p))"
    using assms(1) unfolding same_class_def by blast
  then obtain l0 where l0: "L0 (ts_id p) = Some l0" "l\<lparr>on_dsq := False\<rparr> = l0\<lparr>on_dsq := False\<rparr>"
    using assms(2) by (cases "L0 (ts_id p)") auto
  then show "L0 (ts_id p) \<noteq> None" by simp
  show "lse_dsq_classify_lts k (Some l) p = lse_dsq_classify_task k L0 p"
    using l0 by (metis classify_on_dsq lse_dsq_classify_task_def)
qed

lemma same_class_set: "same_class L0 L \<Longrightarrow> same_class L0 (set_on_dsq t b L)"
  by (auto simp: same_class_def set_on_dsq_def option.map_comp comp_def)

lemma class_stableD:
  assumes "class_stable k cls N L0 (Some p)" "same_class L0 L" "L (ts_id p) = Some l"
  shows "lse_dsq_classify_lts k (Some l) p = cls (ts_id p)" "ts_id p < N"
  using assms same_class_classify [OF assms(2,3)] by (auto simp: class_stable_def)

lemma nr_exact_fifo_short:
  assumes "nr_exact cls N L0 s" "t \<notin> set (dsq_fifo (snd s) i)" "t < N"
  shows "length (dsq_fifo (snd s) i) < N"
proof -
  have "distinct (t # dsq_fifo (snd s) i)"
    using assms dsq_wfD(2) [of "fst s" "snd s" i] by (simp add: nr_exact_def)
  moreover have "set (t # dsq_fifo (snd s) i) \<subseteq> {..<N}"
    using assms by (auto simp: nr_exact_def)
  ultimately have "length (t # dsq_fifo (snd s) i) \<le> N"
    by (metis card_lessThan card_mono distinct_card finite_lessThan)
  then show ?thesis by simp
qed

lemma enqueue_exact:
  assumes ex: "nr_exact cls N L0 (L, d)" and N: "N < 2 ^ 31"
    and t: "L t = Some l" "\<not> on_dsq l" "t < N"
  shows "nr_exact cls N L0 (dsq_enqueue j (cls t) t (L, d))"
proof -
  have wf: "dsq_wf (L, d)" and shape: "dsq_shape d"
    using ex dsq_wfD(1) by (auto simp: nr_exact_def)
  have "t \<notin> set (dsq_fifo d (cls t))"
    using dsq_wfD(4) [OF wf, of t] t by (auto simp: on_dsq_flag_def)
  then have len: "length (dsq_fifo d (cls t)) < N"
    using nr_exact_fifo_short [OF ex] t(3) by simp
  have nr: "nr (dsq_at i (snd (dsq_enqueue j (cls t) t (L, d)))) =
      (if i = cls t then wrap_int (nr (dsq_at i d) + 1) else nr (dsq_at i d))" for i
    using shape by (simp add: dsq_enqueue_def dsq_at_upd Let_def)
  have wrap: "wrap_int (int (length (dsq_fifo d (cls t))) + 1) = int (length (dsq_fifo d (cls t))) + 1"
    using len N by (intro wrap_int_small) auto
  show ?thesis unfolding nr_exact_def
  proof (intro conjI allI)
    show "dsq_wf (dsq_enqueue j (cls t) t (L, d))" by (rule enqueue_wf [OF wf t(1,2)])
    show "same_class L0 (fst (dsq_enqueue j (cls t) t (L, d)))"
      using ex by (simp add: dsq_enqueue_def nr_exact_def same_class_set)
    show "nr (dsq_at i (snd (dsq_enqueue j (cls t) t (L, d)))) =
        int (length (dsq_fifo (snd (dsq_enqueue j (cls t) t (L, d))) i))" for i
      using ex wrap by (simp add: nr enqueue_fifo [OF shape] nr_exact_def)
    show "\<forall>u \<in> set (dsq_fifo (snd (dsq_enqueue j (cls t) t (L, d))) i). cls u = i \<and> u < N" for i
      using ex t(3) by (auto simp: enqueue_fifo [OF shape] nr_exact_def)
  qed
qed

lemma dequeue_exact:
  assumes ex: "nr_exact cls N L0 (L, d)" and N: "N < 2 ^ 31"
    and t: "L t = Some l" "on_dsq l" "t < N"
  shows "nr_exact cls N L0 (dsq_dequeue j (cls t) t (L, d))"
proof -
  have wf: "dsq_wf (L, d)" and shape: "dsq_shape d"
    using ex dsq_wfD(1) by (auto simp: nr_exact_def)
  have flag: "on_dsq_flag L t" using t by (simp add: on_dsq_flag_def)
  have cls_mem: "u \<in> set (dsq_fifo d i) \<Longrightarrow> cls u = i \<and> u < N" for u i
    using ex by (simp add: nr_exact_def)
  have nr_len: "nr (dsq_at i d) = int (length (dsq_fifo d i))" for i
    using ex by (simp add: nr_exact_def)
  obtain i0 where i0: "t \<in> set (dsq_fifo d i0)" using dsq_wfD(4) [OF wf] flag by blast
  have mem: "t \<in> set (dsq_fifo d i) \<longleftrightarrow> i = cls t" for i
    using ex i0 unfolding nr_exact_def snd_conv by metis
  have "t \<notin> set (remove1 t (dsq_fifo d (cls t)))" "distinct (dsq_fifo d (cls t))"
    using dsq_wfD(2) [OF wf] by auto
  then have "length (dsq_fifo d (cls t)) \<le> N"
    using ex card_mono [of "{..<N}" "set (dsq_fifo d (cls t))"]
    by (auto simp: nr_exact_def distinct_card subset_iff)
  moreover have pos: "0 < length (dsq_fifo d (cls t))" using mem [of "cls t"] by auto
  ultimately have wrap: "wrap_int (int (length (dsq_fifo d (cls t))) - 1) = int (length (dsq_fifo d (cls t))) - 1"
    using N by (intro wrap_int_small) auto
  have nr: "nr (dsq_at i (snd (dsq_dequeue j (cls t) t (L, d)))) =
      (if i = cls t then max 0 (wrap_int (nr (dsq_at i d) - 1)) else nr (dsq_at i d))" for i
    using shape t by (simp add: dsq_dequeue_def dsq_at_upd dsq_at_del Let_def)
  show ?thesis unfolding nr_exact_def
  proof (intro conjI allI)
    show "dsq_wf (dsq_dequeue j (cls t) t (L, d))" by (rule dequeue_wf [OF wf])
    show "same_class L0 (fst (dsq_dequeue j (cls t) t (L, d)))"
      using ex t by (simp add: dsq_dequeue_def nr_exact_def same_class_set)
    show "nr (dsq_at i (snd (dsq_dequeue j (cls t) t (L, d)))) =
        int (length (dsq_fifo (snd (dsq_dequeue j (cls t) t (L, d))) i))" for i
      using wrap pos mem [of i]
      by (simp add: nr nr_len dequeue_fifo [OF shape flag] length_remove1 of_nat_diff Suc_leI
          del: length_greater_0_conv)
    show "\<forall>u \<in> set (dsq_fifo (snd (dsq_dequeue j (cls t) t (L, d))) i). cls u = i \<and> u < N" for i
      using cls_mem [of _ i] set_remove1_subset [of t "dsq_fifo d i"]
      unfolding dequeue_fifo [OF shape flag] by blast
  qed
qed

lemma enqueue_task_exact:
  assumes "nr_exact cls N L0 s" "N < 2 ^ 31" "class_stable k cls N L0 p"
  shows "nr_exact cls N L0 (lse_dsq_enqueue_task k j cpu_rq p cpu s)"
proof (cases rule: enqueue_task_cases [of k j cpu_rq p cpu s])
  case (enq t l)
  then show ?thesis using assms class_stableD [of k cls N L0 t "fst s" l]
    by (cases s) (auto simp: nr_exact_def [of _ _ _ "(_, _)"] intro!: enqueue_exact)
qed (simp add: assms)

lemma dequeue_task_exact:
  assumes "nr_exact cls N L0 s" "N < 2 ^ 31" "class_stable k cls N L0 p"
  shows "nr_exact cls N L0 (lse_dsq_dequeue_task k j p s)"
proof (cases rule: dequeue_task_cases [of k j p s])
  case (deq t l)
  then show ?thesis using assms class_stableD [of k cls N L0 t "fst s" l]
    by (cases s) (auto simp: nr_exact_def [of _ _ _ "(_, _)"] intro!: dequeue_exact)
qed (simp add: assms)

lemma scan_exact:
  assumes "nr_exact cls N L0 s" shows "nr_exact cls N L0 (dsq_throttled_scan k j cpu s)"
proof -
  obtain L d where s: "s = (L, d)" by fastforce
  have shape: "dsq_shape d" using assms dsq_wfD(1) by (auto simp: nr_exact_def s)
  have "dsq_wf (dsq_throttled_scan k j cpu s)" using assms by (simp add: nr_exact_def throttled_scan_wf)
  then show ?thesis using assms shape by (auto simp: s nr_exact_def dsq_throttled_scan_def)
qed

lemma on_schedule_exact:
  assumes "nr_exact cls N L0 s" "N < 2 ^ 31" "class_stable k cls N L0 p" "class_stable k cls N L0 n"
  shows "nr_exact cls N L0 (lse_dsq_on_schedule k j cpu_rq st rq p n s)"
proof -
  have "nr_exact cls N L0 (dsq_switch k j cpu_rq cpu p n s)" for cpu
    using assms unfolding dsq_switch_def Let_def
    by (cases p; cases n) (auto intro!: enqueue_task_exact dequeue_task_exact)
  then show ?thesis using assms(1)
    by (simp add: lse_dsq_on_schedule_def Let_def scan_exact split: option.split)
qed

text \<open>A run of the schedule hook: time, the run queues, \<open>slim_stats\<close>, and the hook's arguments.\<close>

type_synonym schedule_event =
  "u64 \<times> (nat \<Rightarrow> rq) \<times> int \<times> rq option \<times> task_struct option \<times> task_struct option"

definition run_schedule :: "kernel \<Rightarrow> schedule_event list \<Rightarrow> lts_table \<times> dsq \<Rightarrow> lts_table \<times> dsq" where
  "run_schedule k evs s =
     fold (\<lambda>(j, cpu_rq, stats, rq, p, n). lse_dsq_on_schedule k j cpu_rq stats rq p n) evs s"

lemma run_schedule_exact:
  assumes "nr_exact cls N L0 s" "N < 2 ^ 31"
    and "\<forall>(j, cpu_rq, stats, rq, p, n) \<in> set evs. class_stable k cls N L0 p \<and> class_stable k cls N L0 n"
  shows "nr_exact cls N L0 (run_schedule k evs s)"
  using assms(1,3) unfolding run_schedule_def
proof (induction evs arbitrary: s)
  case (Cons ev evs)
  obtain j cpu_rq st rq p n where ev: "ev = (j, cpu_rq, st, rq, p, n)" by (cases ev)
  with Cons.prems have "nr_exact cls N L0 (lse_dsq_on_schedule k j cpu_rq st rq p n s)"
    by (intro on_schedule_exact assms(2)) auto
  with Cons ev show ?case by simp
qed simp

lemma started_exact:
  assumes "\<forall>t. \<not> on_dsq_flag L t"
  shows "nr_exact cls N L (L, lse_dsq_init k j boot_dsq)"
proof -
  have "dsq_wf (L, lse_dsq_init k j boot_dsq)"
    using assms by (intro started_wf) (auto simp: dsq_started_def)
  then show ?thesis by (simp add: nr_exact_def dsq_init_state same_class_def)
qed

text \<open>A task whose class changed while it was queued is taken off its queue, but another counter
  is decreased.\<close>

lemma reclassified_drift:
  assumes "dsq_wf (L, d)" "L t = Some l" "on_dsq l" "t \<in> set (dsq_fifo d i)" "idx \<noteq> i"
  shows "nr (dsq_at i (snd (dsq_dequeue j idx t (L, d)))) = nr (dsq_at i d) \<and>
    length (dsq_fifo (snd (dsq_dequeue j idx t (L, d))) i) + 1 = length (dsq_fifo d i)"
  using assms dsq_wfD(1) [OF assms(1)]
  by (simp add: dequeue_fifo on_dsq_flag_def length_remove1)
     (auto simp: dsq_dequeue_def dsq_at_upd dsq_at_del Let_def dest: length_pos_if_in_set)

lemma reclassified_other:
  assumes "dsq_wf (L, d)" "L t = Some l" "on_dsq l" "t \<in> set (dsq_fifo d i)" "idx \<noteq> i"
  shows "dsq_fifo (snd (dsq_dequeue j idx t (L, d))) i = remove1 t (dsq_fifo d i) \<and>
    dsq_fifo (snd (dsq_dequeue j idx t (L, d))) idx = dsq_fifo d idx \<and>
    nr (dsq_at idx (snd (dsq_dequeue j idx t (L, d)))) = max 0 (wrap_int (nr (dsq_at idx d) - 1)) \<and>
    \<not> on_dsq_flag (fst (dsq_dequeue j idx t (L, d))) t"
proof -
  have flag: "on_dsq_flag L t" using assms(2,3) by (simp add: on_dsq_flag_def)
  have "t \<notin> set (dsq_fifo d idx)" using dsq_wfD(3) [OF assms(1) assms(4)] assms(5) by metis
  moreover have "nr (dsq_at idx (snd (dsq_dequeue j idx t (L, d)))) = max 0 (wrap_int (nr (dsq_at idx d) - 1)) \<and>
      fst (dsq_dequeue j idx t (L, d)) = set_on_dsq t False L"
    using assms(2,3) dsq_wfD(1) [OF assms(1)] by (simp add: dsq_dequeue_def dsq_at_upd dsq_at_del Let_def)
  ultimately show ?thesis
    using dequeue_fifo [OF dsq_wfD(1) [OF assms(1)] flag] by (simp add: remove1_idem on_dsq_flag_set)
qed

text \<open>Freeing the \<open>lse_task_struct\<close> of a queued task leaves its node in the queue.\<close>

lemma free_queued_dangles:
  assumes "dsq_wf (L, d)" "L t = Some l" "on_dsq l"
  shows "\<exists>i. t \<in> set (dsq_fifo d i)" "\<not> dsq_wf (L(t := None), d)"
proof -
  show ex: "\<exists>i. t \<in> set (dsq_fifo d i)"
    using dsq_wfD(4) [OF assms(1), of t] assms(2,3) by (simp add: on_dsq_flag_def)
  show "\<not> dsq_wf (L(t := None), d)"
    using ex dsq_wfD(4) [of "L(t := None)" d t] by (auto simp: on_dsq_flag_def)
qed

section \<open>The set of waiting tasks\<close>

text \<open>
  What the schedule hook relies on: a set of waiting tasks with an operation that may add one task
  and one that removes one.  \<open>removable\<close> is the condition under which the removal takes effect.
\<close>

locale waiting_tasks =
  fixes inv :: "'s \<Rightarrow> bool"
    and waiting :: "'s \<Rightarrow> nat set"
    and enq :: "'p \<Rightarrow> 's \<Rightarrow> 's"
    and deq :: "'p \<Rightarrow> 's \<Rightarrow> 's"
    and ident :: "'p \<Rightarrow> nat"
    and removable :: "'p \<Rightarrow> bool"
  assumes enq_inv: "inv s \<Longrightarrow> inv (enq p s)"
    and deq_inv: "inv s \<Longrightarrow> inv (deq p s)"
    and waiting_enq: "inv s \<Longrightarrow> waiting (enq p s) = waiting s \<or> waiting (enq p s) = insert (ident p) (waiting s)"
    and waiting_deq: "inv s \<Longrightarrow> removable p \<Longrightarrow> waiting (deq p s) = waiting s - {ident p}"
begin

lemma switch_waiting:
  assumes "inv s" "removable n"
  shows "waiting (deq n (enq p s)) \<subseteq> insert (ident p) (waiting s) - {ident n}"
    and "waiting s - {ident n} \<subseteq> waiting (deq n (enq p s))"
  using waiting_enq [OF assms(1), of p] waiting_deq [OF enq_inv [OF assms(1)] assms(2), of p] by auto

lemma switch_inv: "inv s \<Longrightarrow> inv (deq n (enq p s))"
  by (intro deq_inv enq_inv)

text \<open>A CPU that runs through a chain of tasks leaves waiting only tasks it has switched away from.\<close>

fun switches :: "'p \<Rightarrow> 'p list \<Rightarrow> 's \<Rightarrow> 's" where
  "switches p [] s = s"
| "switches p (n # ns) s = switches n ns (deq n (enq p s))"

lemma switches_inv: "inv s \<Longrightarrow> inv (switches p ns s)"
  by (induction ns arbitrary: p s) (auto intro: switch_inv)

lemma switches_waiting:
  assumes "inv s" "\<forall>n \<in> set ns. removable n"
  shows "waiting (switches p ns s) \<subseteq> waiting s \<union> ident ` set (p # ns)"
    and "ns \<noteq> [] \<Longrightarrow> ident (last ns) \<notin> waiting (switches p ns s)"
proof -
  have "waiting (switches p ns s) \<subseteq> waiting s \<union> ident ` set (p # ns) \<and>
      (ns \<noteq> [] \<longrightarrow> ident (last ns) \<notin> waiting (switches p ns s))"
    using assms
  proof (induction ns arbitrary: p s)
    case (Cons n ns)
    have rem: "removable n" using Cons.prems by simp
    note sw = switch_waiting [OF Cons.prems(1) rem, of p]
    have IH: "waiting (switches n ns (deq n (enq p s))) \<subseteq> waiting (deq n (enq p s)) \<union> ident ` set (n # ns) \<and>
      (ns \<noteq> [] \<longrightarrow> ident (last ns) \<notin> waiting (switches n ns (deq n (enq p s))))"
      using Cons.prems by (intro Cons.IH) (auto intro: switch_inv)
    with sw show ?case by auto
  qed auto
  then show "waiting (switches p ns s) \<subseteq> waiting s \<union> ident ` set (p # ns)"
    "ns \<noteq> [] \<Longrightarrow> ident (last ns) \<notin> waiting (switches p ns s)" by auto
qed

end

definition dsq_live :: "lts_table \<times> dsq \<Rightarrow> bool" where
  "dsq_live s \<longleftrightarrow> dsq_wf s \<and> lse_dsq_enable (snd s) \<noteq> 0"

definition waiting_set :: "lts_table \<times> dsq \<Rightarrow> nat set" where
  "waiting_set s = {t. on_dsq_flag (fst s) t}"

text \<open>A pinned task is removed only when its mask names an existing CPU.\<close>

definition dequeuable :: "kernel \<Rightarrow> task_struct \<Rightarrow> bool" where
  "dequeuable k p \<longleftrightarrow>
     (nr_cpus_allowed p = 1 \<or> is_migration_disabled p \<longrightarrow> cpumask_any k (cpus_ptr p) < nr_cpu_ids k)"

lemma enable_frame:
  "lse_dsq_enable (snd (lse_dsq_enqueue_task k j cpu_rq p cpu s)) = lse_dsq_enable (snd s)"
  "lse_dsq_enable (snd (lse_dsq_dequeue_task k j p s)) = lse_dsq_enable (snd s)"
  by (cases s; cases rule: enqueue_task_cases [of k j cpu_rq p cpu s]; simp add: dsq_enqueue_def)
     (cases s; cases rule: dequeue_task_cases [of k j p s]; auto simp: dsq_dequeue_def)

lemma waiting_enqueue:
  "waiting_set (lse_dsq_enqueue_task k j cpu_rq (Some p) cpu s) = waiting_set s \<or>
   waiting_set (lse_dsq_enqueue_task k j cpu_rq (Some p) cpu s) = insert (ts_id p) (waiting_set s)"
  by (cases s; cases rule: enqueue_task_cases [of k j cpu_rq "Some p" cpu s])
     (auto simp: waiting_set_def dsq_enqueue_def on_dsq_flag_set)

lemma waiting_dequeue:
  assumes "lse_dsq_enable (snd s) \<noteq> 0" "dequeuable k p"
  shows "waiting_set (lse_dsq_dequeue_task k j (Some p) s) = waiting_set s - {ts_id p}"
proof (cases "on_dsq_flag (fst s) (ts_id p)")
  case True
  then obtain l where l: "fst s (ts_id p) = Some l" "on_dsq l"
    by (auto simp: on_dsq_flag_def split: option.splits)
  have "\<not> (LSE_DSQ_PCP_BASE \<le> lse_dsq_classify_lts k (Some l) p \<and>
      nr_cpu_ids k \<le> lse_dsq_classify_lts k (Some l) p - LSE_DSQ_PCP_BASE)"
    using assms(2)
    by (auto simp: dequeuable_def lse_dsq_classify_lts_def dsq_prios dsq_consts split: lse_task_class.splits if_splits)
  then have "lse_dsq_dequeue_task k j (Some p) s = dsq_dequeue j (lse_dsq_classify_lts k (Some l) p) (ts_id p) s"
    using assms(1) l by (cases s) (auto simp: lse_dsq_dequeue_task_def Let_def)
  then show ?thesis using l
    by (cases s) (auto simp: dsq_dequeue_def waiting_set_def on_dsq_flag_set)
next
  case False
  then have "lse_dsq_dequeue_task k j (Some p) s = s"
    by (cases s) (auto simp: lse_dsq_dequeue_task_def on_dsq_flag_def split: option.split)
  with False show ?thesis by (simp add: waiting_set_def)
qed

interpretation dsq_waiting: waiting_tasks dsq_live waiting_set
  "\<lambda>p. lse_dsq_enqueue_task k j cpu_rq (Some p) cpu" "\<lambda>p. lse_dsq_dequeue_task k j (Some p)"
  ts_id "dequeuable k" for k j cpu_rq cpu
proof unfold_locales
  fix s p
  show "dsq_live s \<Longrightarrow> dsq_live (lse_dsq_enqueue_task k j cpu_rq (Some p) cpu s)"
    by (simp add: dsq_live_def enqueue_task_wf enable_frame)
  show "dsq_live s \<Longrightarrow> dsq_live (lse_dsq_dequeue_task k j (Some p) s)"
    by (simp add: dsq_live_def dequeue_task_wf enable_frame)
  show "waiting_set (lse_dsq_enqueue_task k j cpu_rq (Some p) cpu s) = waiting_set s \<or>
      waiting_set (lse_dsq_enqueue_task k j cpu_rq (Some p) cpu s) = insert (ts_id p) (waiting_set s)"
    by (rule waiting_enqueue)
  show "dsq_live s \<Longrightarrow> dequeuable k p \<Longrightarrow>
      waiting_set (lse_dsq_dequeue_task k j (Some p) s) = waiting_set s - {ts_id p}"
    by (rule waiting_dequeue) (simp_all add: dsq_live_def)
qed

lemma waiting_scan: "waiting_set (dsq_throttled_scan k j cpu s) = waiting_set s"
  by (auto simp: waiting_set_def dsq_throttled_scan_def split: prod.split)

lemma on_schedule_waiting:
  assumes "dsq_live s" "stats \<noteq> 0" "ts_id p \<noteq> ts_id n" "\<not> is_idle_task n" "dequeuable k n"
  shows "waiting_set (lse_dsq_on_schedule k j cpu_rq stats (Some rq) (Some p) (Some n) s)
      \<subseteq> insert (ts_id p) (waiting_set s) - {ts_id n}"
    and "waiting_set s - {ts_id n}
      \<subseteq> waiting_set (lse_dsq_on_schedule k j cpu_rq stats (Some rq) (Some p) (Some n) s)"
proof -
  let ?s = "if \<not> is_idle_task p \<and> task_on_rq_queued p \<and> task_cpu p = rq_cpu rq
    then lse_dsq_enqueue_task k j cpu_rq (Some p) (rq_cpu rq) s else s"
  have eq: "lse_dsq_on_schedule k j cpu_rq stats (Some rq) (Some p) (Some n) s =
      dsq_throttled_scan k j (rq_cpu rq) (lse_dsq_dequeue_task k j (Some n) ?s)"
    using assms by (simp add: lse_dsq_on_schedule_def dsq_switch_def dsq_live_def Let_def)
  show "waiting_set (lse_dsq_on_schedule k j cpu_rq stats (Some rq) (Some p) (Some n) s)
      \<subseteq> insert (ts_id p) (waiting_set s) - {ts_id n}"
    and "waiting_set s - {ts_id n}
      \<subseteq> waiting_set (lse_dsq_on_schedule k j cpu_rq stats (Some rq) (Some p) (Some n) s)"
    unfolding eq waiting_scan
    using dsq_waiting.switch_waiting [OF assms(1,5)] dsq_waiting.waiting_deq [OF assms(1,5)]
    by (auto split: if_splits)
qed

section \<open>The hook as the kernel calls it\<close>

text \<open>
  \<open>__schedule\<close> calls the hook before it makes \<open>next\<close> the current task of the run queue, so at the
  call \<open>cpu_rq(cpu)->curr\<close> is \<open>prev\<close>.  Then \<open>lse_dsq_enqueue_task\<close> returns without effect.
\<close>

definition hook_event :: "schedule_event \<Rightarrow> bool" where
  "hook_event ev = (case ev of (j, cpu_rq, stats, rq, p, n) \<Rightarrow>
     (case (rq, p) of (Some r, Some p) \<Rightarrow> rq_curr (cpu_rq (rq_cpu r)) = ts_id p | _ \<Rightarrow> False))"

lemma enqueue_curr:
  "rq_curr (cpu_rq cpu) = ts_id p \<Longrightarrow> lse_dsq_enqueue_task k j cpu_rq (Some p) cpu s = s"
  by (auto simp: lse_dsq_enqueue_task_def split: prod.split option.split)

definition dsq_idle :: "lts_table \<times> dsq \<Rightarrow> bool" where
  "dsq_idle s \<longleftrightarrow> dsq_wf s \<and> (\<forall>i. dsq_fifo (snd s) i = [] \<and> \<not> is_timeout (dsq_at i (snd s)))"

lemma hook_idle:
  assumes "hook_event (j, cpu_rq, stats, rq, p, n)" "dsq_idle s"
  shows "dsq_idle (lse_dsq_on_schedule k j cpu_rq stats rq p n s)"
proof -
  obtain r q where rq: "rq = Some r" "p = Some q" "rq_curr (cpu_rq (rq_cpu r)) = ts_id q"
    using assms(1) by (auto simp: hook_event_def split: option.splits)
  have wf: "dsq_wf s" using assms(2) by (simp add: dsq_idle_def)
  have flags: "\<not> on_dsq_flag (fst s) t" for t using assms(2) wf by (simp add: dsq_idle_def dsq_wf_def)
  have "lse_dsq_dequeue_task k j (Some m) s = s" for m
  proof (cases rule: dequeue_task_cases [of k j "Some m" s])
    case (deq t lts)
    then show ?thesis using flags [of "ts_id t"] by (simp add: on_dsq_flag_def)
  qed
  then have switch: "dsq_switch k j cpu_rq (rq_cpu r) p n s = s"
    using rq by (auto simp: dsq_switch_def enqueue_curr Let_def split: option.split)
  have "\<not> is_timeout (dsq_at i (lse_dsq_scan_timeout k j cpu ((snd s)\<lparr>lse_dsq_last_scan_jf := x\<rparr>)))" for i cpu x
    using assms(2) dsq_wf_def [of s]
    by (cases "lse_dsq_enable (snd s) = 0")
      (auto simp: dsq_idle_def scan_timeout_off scan_timeout_at scan_is_timeout dsq_fifo_def)
  then have "dsq_idle (dsq_throttled_scan k j cpu s)" for cpu
    using assms(2) throttled_scan_wf [OF wf] dsq_wf_def [of s]
    by (cases s) (auto simp: dsq_idle_def dsq_throttled_scan_def)
  then show ?thesis using assms(2) rq switch by (simp add: lse_dsq_on_schedule_def Let_def)
qed

lemma run_hook_idle:
  assumes "\<forall>ev \<in> set evs. hook_event ev" "dsq_idle s"
  shows "dsq_idle (run_schedule k evs s)"
  using assms unfolding run_schedule_def
proof (induction evs arbitrary: s)
  case (Cons ev evs)
  obtain j cpu_rq st rq p n where ev: "ev = (j, cpu_rq, st, rq, p, n)" by (cases ev)
  with Cons show ?case by (simp add: hook_idle)
qed simp

lemma urgency_idle:
  assumes "\<And>i. \<not> is_timeout (dsq_at i d)" shows "lse_dsq_urgency_signal d = 0"
proof -
  have "unat (lse_dsq_urgency_signal d) = 0" using assms by (simp add: urgency_eq timed_out_def)
  then show ?thesis by (simp add: unat_eq_0)
qed

lemma run_schedule_steps: "(dsq_step k)\<^sup>*\<^sup>* s (run_schedule k evs s)"
  unfolding run_schedule_def
proof (induction evs arbitrary: s)
  case (Cons ev evs)
  obtain j cpu_rq st rq p n where ev: "ev = (j, cpu_rq, st, rq, p, n)" by (cases ev)
  have "dsq_step k s (lse_dsq_on_schedule k j cpu_rq st rq p n s)" by (rule dsq_step.schedule)
  with Cons [of "lse_dsq_on_schedule k j cpu_rq st rq p n s"] show ?case
    by (simp add: ev converse_rtranclp_into_rtranclp)
qed simp

section \<open>Since when a queue has been waiting\<close>

text \<open>\<open>last_consume_at\<close> is written when a task enters an empty queue, and when a queue that has become
  empty loses its mark: consuming a task leaves it alone.  The time at which a queue last became
  non-empty is kept beside the state, as a history of the run.\<close>

definition age_kept :: "u64 \<Rightarrow> dsq \<Rightarrow> dsq \<Rightarrow> bool" where
  "age_kept j d d' \<longleftrightarrow> (\<forall>i. dsq_fifo d' i \<noteq> [] \<longrightarrow>
     last_consume_at (dsq_at i d') = (if dsq_fifo d i = [] then j else last_consume_at (dsq_at i d)))"

text \<open>An operation that fills no empty queue and marks none.\<close>

definition drains :: "dsq \<Rightarrow> dsq \<Rightarrow> bool" where
  "drains d d' \<longleftrightarrow> (\<forall>i. dsq_fifo d' i \<noteq> [] \<longrightarrow>
     dsq_fifo d i \<noteq> [] \<and> last_consume_at (dsq_at i d') = last_consume_at (dsq_at i d))"

lemma drains_refl: "drains d d"
  by (simp add: drains_def)

lemma age_kept_refl: "age_kept j d d"
  by (simp add: age_kept_def)

lemma age_kept_drains: "age_kept j d d' \<Longrightarrow> drains d' d'' \<Longrightarrow> age_kept j d d''"
  by (simp add: age_kept_def drains_def)

lemma drains_age_kept: "drains d d' \<Longrightarrow> age_kept j d d'"
  by (simp add: age_kept_def drains_def)

lemma drains_same: "(\<And>i. dsq_at i d' = dsq_at i d) \<Longrightarrow> drains d d'"
  by (simp add: drains_def dsq_fifo_def)

lemma enqueue_age: "dsq_shape d \<Longrightarrow> age_kept j d (snd (dsq_enqueue j idx t (L, d)))"
  by (auto simp: age_kept_def enqueue_fifo) (auto simp: dsq_enqueue_def dsq_at_upd dsq_fifo_def Let_def)

lemma dequeue_drains: "dsq_shape d \<Longrightarrow> drains d (snd (dsq_dequeue j idx t (L, d)))"
  by (auto simp: drains_def dsq_dequeue_def dsq_fifo_def dsq_at_upd dsq_at_del Let_def split: option.split if_splits)

lemma scan_age [simp]: "last_consume_at (scan_mark k j x q) = last_consume_at q"
  "fifo q \<noteq> [] \<Longrightarrow> last_consume_at (scan_reset j q) = last_consume_at q"
  by (simp_all add: scan_mark_def scan_reset_def)

lemma scan_deadlines: "lse_dsq_deadlines (lse_dsq_scan_timeout k j cpu d) = lse_dsq_deadlines d"
proof -
  have "lse_dsq_deadlines (fold (\<lambda>i d. dsq_upd i (g i d) d) is d) = lse_dsq_deadlines d" for g "is" d
    by (induction "is" arbitrary: d) auto
  then show ?thesis by (simp add: lse_dsq_scan_timeout_def Let_def)
qed

lemma scan_drains: "dsq_shape d \<Longrightarrow> drains d (lse_dsq_scan_timeout k j cpu d)"
  by (cases "lse_dsq_enable d = 0") (auto simp: drains_def scan_timeout_at scan_timeout_off dsq_fifo_def)

lemma on_schedule_age:
  assumes "dsq_wf s" shows "age_kept j (snd s) (snd (lse_dsq_on_schedule k j cpu_rq st rq p n s))"
proof -
  have enq: "age_kept j (snd s) (snd (lse_dsq_enqueue_task k j cpu_rq q cpu s))" for q cpu
    using assms by (cases s, cases rule: enqueue_task_cases [of k j cpu_rq q cpu s])
      (auto simp: age_kept_refl dsq_wf_def intro: enqueue_age)
  have deq: "drains (snd u) (snd (lse_dsq_dequeue_task k j q u))" if "dsq_wf u" for q u
    using that by (cases u, cases rule: dequeue_task_cases [of k j q u])
      (auto simp: drains_refl dsq_wf_def intro: dequeue_drains)
  have "age_kept j (snd s) (snd (dsq_switch k j cpu_rq cpu p n s))" for cpu
    using assms by (auto simp: dsq_switch_def Let_def age_kept_refl split: option.split
        intro: enq age_kept_drains [OF enq deq] drains_age_kept [OF deq] enqueue_task_wf)
  then have switch: "age_kept j (snd s) (snd (dsq_switch k j cpu_rq cpu p n s))" for cpu .
  have scan: "drains (snd u) (snd (dsq_throttled_scan k j cpu u))" if "dsq_wf u" for u cpu
  proof -
    have "drains (snd u) (lse_dsq_scan_timeout k j cpu ((snd u)\<lparr>lse_dsq_last_scan_jf := x\<rparr>))" for x
      using scan_drains [of "(snd u)\<lparr>lse_dsq_last_scan_jf := x\<rparr>" k j cpu] that by (simp add: drains_def dsq_wf_def)
    then show ?thesis by (cases u) (simp add: dsq_throttled_scan_def drains_refl)
  qed
  show ?thesis
    using assms by (auto simp: lse_dsq_on_schedule_def Let_def age_kept_refl split: option.split
        intro: age_kept_drains [OF switch scan] switch_wf drains_age_kept [OF scan])
qed

lemma sync_drains: "dsq_wf s \<Longrightarrow> drains (snd s) (snd (lse_dsq_sync k s))"
  by (cases "lse_dsq_enable (snd s) = 0") (simp_all add: drains_def dsq_sync_off dsq_sync_on dsq_fifo_def)

lemma toggle_drains:
  assumes "dsq_wf s" shows "drains (snd s) (snd (snd (lse_proc_dsq_toggle_update k table w io s)))"
proof -
  have "drains (snd s) (snd (lse_dsq_sync k (fst s, set_dsq_toggle table v (snd s))))" for v
    using sync_drains [OF set_toggle_wf [OF assms, of table v], of k] by (simp add: drains_def)
  then show ?thesis by (cases io) (simp_all add: lse_proc_dsq_toggle_update_def drains_refl)
qed

text \<open>Only the schedule hook makes a queue non-empty.\<close>

lemma dsq_step_age:
  assumes "dsq_step k s s'" "dsq_wf s"
  obtains (hook) j cpu_rq st rq p n where "s' = lse_dsq_on_schedule k j cpu_rq st rq p n s"
      "age_kept j (snd s) (snd s')"
    | (other) "drains (snd s) (snd s')"
  using assms
proof (cases rule: dsq_step.cases)
  case schedule
  then show ?thesis using hook on_schedule_age [OF assms(2)] by blast
next
  case runtime
  then show ?thesis using other drains_same add_runtime_fields(2) assms(2) by (metis dsq_wf_def)
next
  case (set_depth L d v)
  then show ?thesis using other drains_same [of "d\<lparr>lse_dsq_max_depth := v\<rparr>" d] by (simp add: dsq_at_def)
qed (use assms(2) other in \<open>auto intro: toggle_drains sync_drains drains_refl\<close>)

text \<open>Steps with the history: \<open>since i\<close> is the reading of \<open>jiffies\<close> at which queue \<open>i\<close> last became
  non-empty.  Every step has its counterpart.\<close>

inductive timed_step ::
  "kernel \<Rightarrow> (lts_table \<times> dsq) \<times> (nat \<Rightarrow> u64) \<Rightarrow> (lts_table \<times> dsq) \<times> (nat \<Rightarrow> u64) \<Rightarrow> bool" for k where
  hook: "s' = lse_dsq_on_schedule k j cpu_rq stats rq prev n s \<Longrightarrow>
    timed_step k (s, since) (s', \<lambda>i. if dsq_fifo (snd s) i = [] \<and> dsq_fifo (snd s') i \<noteq> [] then j else since i)"
| other: "dsq_step k s s' \<Longrightarrow> \<forall>i. dsq_fifo (snd s) i = [] \<longrightarrow> dsq_fifo (snd s') i = [] \<Longrightarrow>
    timed_step k (s, since) (s', since)"

lemma timed_step_covers:
  assumes "dsq_step k s s'" "dsq_wf s" shows "\<exists>since'. timed_step k (s, since) (s', since')"
  using assms
proof (cases rule: dsq_step_age)
  case other
  then show ?thesis using timed_step.other [OF assms(1)] unfolding drains_def by blast
qed (blast intro: timed_step.hook)

definition waiting_since :: "(lts_table \<times> dsq) \<times> (nat \<Rightarrow> u64) \<Rightarrow> bool" where
  "waiting_since x \<longleftrightarrow> dsq_wf (fst x) \<and>
     (\<forall>i. dsq_fifo (snd (fst x)) i \<noteq> [] \<longrightarrow> last_consume_at (dsq_at i (snd (fst x))) = snd x i)"

lemma timed_step_since:
  assumes "timed_step k x y" "waiting_since x" shows "waiting_since y"
  using assms
proof (induction rule: timed_step.induct)
  case (hook s' j cpu_rq stats rq prev n s since)
  then have "dsq_wf s" by (simp add: waiting_since_def)
  then show ?case using hook on_schedule_age [of s j k cpu_rq stats rq prev n]
    by (auto simp: waiting_since_def age_kept_def on_schedule_wf)
next
  case (other s s' since)
  have wf: "dsq_wf s" using other(3) by (simp add: waiting_since_def)
  have "last_consume_at (dsq_at i (snd s')) = last_consume_at (dsq_at i (snd s)) \<and> dsq_fifo (snd s) i \<noteq> []"
    if "dsq_fifo (snd s') i \<noteq> []" for i
    using other(2) that by (cases rule: dsq_step_age [OF other(1) wf]) (auto simp: age_kept_def drains_def)
  then show ?case using other(3) dsq_step_wf [OF other(1) wf] by (simp add: waiting_since_def)
qed

interpretation timed_sys: invariant_system "\<lambda>x. dsq_started k (fst x)" "timed_step k" waiting_since for k
proof
  show "dsq_started k (fst x) \<Longrightarrow> waiting_since x" for x :: "(lts_table \<times> dsq) \<times> (nat \<Rightarrow> u64)"
    using started_wf by (auto simp: waiting_since_def dsq_started_def dsq_init_state)
qed (rule timed_step_since)

section \<open>Properties\<close>

text \<open>C2: In every reachable state a task is linked into at most one queue, at most once, and the
  flag \<open>on_dsq\<close> of its \<open>lse_task_struct\<close> is set exactly when it is linked into one: whatever the
  order of schedule events, sysctl writes and class changes, no list is corrupted by a double
  insertion and no task is lost from a list while flagged.\<close>

theorem dsq_one_place:
  assumes "dsq_started k s" and "(dsq_step k)\<^sup>*\<^sup>* s (L, d)"
  shows "distinct (dsq_fifo d i) \<and>
    (t \<in> set (dsq_fifo d i) \<longrightarrow> t \<in> set (dsq_fifo d j) \<longrightarrow> i = j) \<and>
    ((\<exists>l. L t = Some l \<and> on_dsq l) \<longleftrightarrow> (\<exists>i. t \<in> set (dsq_fifo d i)))"
proof -
  have wf: "dsq_wf (L, d)" by (rule dsq_sys.inv_reachable [OF assms])
  have "(\<exists>l. L t = Some l \<and> on_dsq l) \<longleftrightarrow> on_dsq_flag L t"
    by (auto simp: on_dsq_flag_def split: option.splits)
  with dsq_wfD [OF wf] show ?thesis by blast
qed

definition demo_table :: lts_table where
  "demo_table t = (if t \<in> {1, 2} then Some (demo_lts t) else None)"

text \<open>CPU 0 switches from task 1 to task 2 although its run queue already names task 2 as current.\<close>

definition demo_switch :: "lts_table \<times> dsq \<Rightarrow> lts_table \<times> dsq" where
  "demo_switch = lse_dsq_on_schedule demo_kernel 100 (\<lambda>c. demo_rq c 2) 1 (Some (demo_rq 0 2))
     (Some (demo_task 1)) (Some (demo_task 2))"

lemma demo_started: "dsq_started demo_kernel (demo_table, lse_dsq_init demo_kernel 7 boot_dsq)"
  by (auto simp: dsq_started_def on_dsq_flag_def demo_table_def demo_lts_def)

lemma demo_switch_step: "(dsq_step k)\<^sup>*\<^sup>* s (fst s, snd s)"
  "(dsq_step demo_kernel)\<^sup>*\<^sup>* s (fst (demo_switch s), snd (demo_switch s))"
  by (simp_all add: demo_switch_def) (blast intro: dsq_step.schedule)

theorem dsq_one_place_witness:
  "distinct (dsq_fifo (snd (demo_switch (demo_table, lse_dsq_init demo_kernel 7 boot_dsq))) 8)"
  using dsq_one_place [OF demo_started demo_switch_step(2)] by blast

lemma demo_switch_state:
  fixes d defines "d \<equiv> snd (demo_switch (demo_table, lse_dsq_init demo_kernel 7 boot_dsq))"
  shows "dsq_fifo d 8 = [1]" "\<not> is_timeout (dsq_at 8 d)" "lse_dsq_enable d = 1" "lse_dsq_deadlines d ! 8 = 64"
proof -
  let ?init = "(demo_table, lse_dsq_init demo_kernel 7 boot_dsq)"
  let ?q = "snd (dsq_enqueue 100 8 1 ?init)"
  have shape: "dsq_shape (lse_dsq_init demo_kernel 7 boot_dsq)" by (rule dsq_init_state)
  have idx: "lse_dsq_classify_lts demo_kernel (Some (demo_lts 1)) (demo_task 1) = 8"
    by (simp add: lse_dsq_classify_lts_def demo_task_def demo_lts_def demo_kernel_def dsq_prios)
  have ids: "ts_id (demo_task n) = n" "0 < n \<Longrightarrow> \<not> is_idle_task (demo_task n)" "task_on_rq_queued (demo_task n)" "task_cpu (demo_task n) = 0"
    "\<not> on_dsq (demo_lts n)" "rq_curr (demo_rq c n) = n" "rq_cpu (demo_rq c n) = c" for n c
    by (simp_all add: demo_task_def demo_lts_def demo_rq_def)
  have "lse_dsq_enqueue_task demo_kernel 100 (\<lambda>c. demo_rq c 2) (Some (demo_task 1)) 0 ?init = dsq_enqueue 100 8 1 ?init"
    using idx by (simp add: lse_dsq_enqueue_task_def dsq_init_tunables demo_table_def ids dsq_idx_valid_def dsq_consts)
  moreover have "lse_dsq_dequeue_task demo_kernel 100 (Some (demo_task 2)) (dsq_enqueue 100 8 1 ?init) = dsq_enqueue 100 8 1 ?init"
    by (simp add: lse_dsq_dequeue_task_def dsq_enqueue_def set_on_dsq_def demo_table_def ids)
  ultimately have run: "demo_switch ?init = dsq_throttled_scan demo_kernel 100 0 (dsq_enqueue 100 8 1 ?init)"
    by (simp add: demo_switch_def lse_dsq_on_schedule_def dsq_switch_def dsq_init_tunables ids)
  have "\<exists>x. snd (dsq_throttled_scan k j c u) = snd u \<or>
      snd (dsq_throttled_scan k j c u) = lse_dsq_scan_timeout k j c ((snd u)\<lparr>lse_dsq_last_scan_jf := x\<rparr>)" for k j c u
    by (cases u) (auto simp: dsq_throttled_scan_def)
  then obtain x where d: "d = ?q \<or> d = lse_dsq_scan_timeout demo_kernel 100 0 (?q\<lparr>lse_dsq_last_scan_jf := x\<rparr>)"
    unfolding d_def run by blast
  have q: "dsq_shape ?q" "dsq_fifo ?q 8 = [1]" "lse_dsq_enable ?q = 1" "lse_dsq_deadlines ?q ! 8 = 64"
    using shape by (simp_all add: enqueue_at enqueue_fifo dsq_init_state)
      (simp_all add: dsq_enqueue_def dsq_init_tunables LSE_DSQ_DEFAULT_DEADLINES_def)
  have age: "last_consume_at (dsq_at 8 ?q) = 100" using enqueue_age [OF shape, of 100 8 1 demo_table] q(2)
    by (simp add: age_kept_def dsq_init_state)
  have mark: "\<not> is_timeout (dsq_at 8 ?q)" using shape by (simp add: enqueue_at dsq_init_state)
  have "\<not> time_after 100 (100 + msecs_to_jiffies demo_kernel 64)" by (simp add: time_after_def demo_kernel_def)
  then show "\<not> is_timeout (dsq_at 8 d)"
    using d q age mark by (auto simp: scan_timeout_at scan_is_timeout dsq_consts)
  show "dsq_fifo d 8 = [1]" "lse_dsq_enable d = 1" "lse_dsq_deadlines d ! 8 = 64"
    using d q by (auto simp: scan_deadlines)
qed

text \<open>C37: The urgency signal is 256 per timed-out global queue, 0 while the queues are disabled, and
  never above 768 in a reachable state.  Only the queues 6, 8 and 9 are ever both filled and
  scanned, so the value 1024 that the comment at \<open>lse_dsq_urgency_signal\<close> announces for four or
  more timeouts cannot occur.\<close>

theorem dsq_urgency_bound:
  assumes "dsq_started k s" and "(dsq_step k)\<^sup>*\<^sup>* s (L, d)"
  shows "unat (lse_dsq_urgency_signal d) = (if lse_dsq_enable d = 0 then 0 else 256 * card (timed_out d)) \<and>
    unat (lse_dsq_urgency_signal d) \<le> 768"
proof
  have "dsq_wf (L, d) \<and> timeouts_confined (snd (L, d))" by (rule dsq_urgency_sys.both.inv_reachable [OF assms])
  then have b: "timed_out d \<subseteq> {6, 8, 9}" and u: "unat (lse_dsq_urgency_signal d) \<le> 768"
    by (auto simp: timed_out_def timeouts_confined_def intro: confined_urgency)
  have "card (timed_out d) \<le> card {6, 8, 9 :: nat}" using b by (intro card_mono) simp_all
  then show "unat (lse_dsq_urgency_signal d) =
      (if lse_dsq_enable d = 0 then 0 else 256 * card (timed_out d))"
    by (simp add: urgency_eq)
  show "unat (lse_dsq_urgency_signal d) \<le> 768" by (rule u)
qed

theorem dsq_urgency_bound_witness:
  "unat (lse_dsq_urgency_signal (snd (demo_switch (demo_table, lse_dsq_init demo_kernel 7 boot_dsq)))) \<le> 768"
  using dsq_urgency_bound [OF demo_started demo_switch_step(2)] by blast

text \<open>C24: While no task changes its class, the depth the module reports for a queue is the number of
  tasks in it, after any sequence of schedule events from the initial state.\<close>

theorem dsq_depth_exact:
  assumes "\<forall>t. \<not> on_dsq_flag L t" and "N < 2 ^ 31"
    and "\<forall>(j, cpu_rq, stats, rq, p, n) \<in> set evs. class_stable k cls N L p \<and> class_stable k cls N L n"
    and "run_schedule k evs (L, lse_dsq_init k j0 boot_dsq) = (L', d)"
  shows "(i < LSE_MAX_GLOBAL_DSQS \<longrightarrow> lse_dsq_depth_global (int i) d = int (length (dsq_fifo d i))) \<and>
    (cpu < nr_cpu_ids k \<longrightarrow>
       lse_dsq_depth_pcp k (int cpu) d = int (length (dsq_fifo d (LSE_DSQ_PCP_BASE + cpu))))"
proof -
  have "nr_exact cls N L (L', d)"
    using run_schedule_exact [OF started_exact [OF assms(1), of cls N k j0] assms(2,3)] assms(4) by simp
  then have "nr (dsq_at i d) = int (length (dsq_fifo d i))" for i by (simp add: nr_exact_def)
  from this [of i] this [of "LSE_DSQ_PCP_BASE + cpu"] show ?thesis
    by (auto simp: lse_dsq_depth_global_def lse_dsq_depth_pcp_def dsq_at_def dsq_consts split: if_splits)
qed

definition demo_event :: schedule_event where
  "demo_event = (100, \<lambda>c. demo_rq c 2, 1, Some (demo_rq 0 2), Some (demo_task 1), Some (demo_task 2))"

lemma demo_event_run: "run_schedule demo_kernel [demo_event] s = demo_switch s"
  by (simp add: run_schedule_def demo_event_def demo_switch_def)

theorem dsq_depth_exact_witness:
  "lse_dsq_depth_global 8 (snd (demo_switch (demo_table, lse_dsq_init demo_kernel 7 boot_dsq))) =
   int (length (dsq_fifo (snd (demo_switch (demo_table, lse_dsq_init demo_kernel 7 boot_dsq))) 8))"
proof -
  let ?r = "demo_switch (demo_table, lse_dsq_init demo_kernel 7 boot_dsq)"
  have flags: "\<forall>t. \<not> on_dsq_flag demo_table t"
    by (simp add: on_dsq_flag_def demo_table_def demo_lts_def)
  have stable: "\<forall>(j, cpu_rq, stats, rq, p, n) \<in> set [demo_event].
      class_stable demo_kernel (\<lambda>_. 8) 3 demo_table p \<and> class_stable demo_kernel (\<lambda>_. 8) 3 demo_table n"
    by (simp add: demo_event_def class_stable_def demo_table_def lse_dsq_classify_task_def
        lse_dsq_classify_lts_def demo_defs dsq_prios)
  have "run_schedule demo_kernel [demo_event] (demo_table, lse_dsq_init demo_kernel 7 boot_dsq) = (fst ?r, snd ?r)"
    by (simp add: demo_event_run)
  from dsq_depth_exact [OF flags _ stable this, of 8] show ?thesis by (simp add: dsq_consts)
qed

text \<open>C36: A class change while a task is queued makes two depths wrong.  The task is in queue \<open>i\<close>, its
  structure is rewritten so that it is now classified into another queue \<open>idx\<close>, and it is dequeued: it
  leaves queue \<open>i\<close> and its flag is cleared, but the counter of \<open>i\<close> stays, and the counter of \<open>idx\<close>,
  which loses no task, is decreased (not below 0).  So \<open>i\<close> then reports one task more than it holds
  compared with before, and \<open>idx\<close>, where it counted at least one, one less.\<close>

theorem dsq_reclassified_drift:
  assumes "dsq_wf (L, d)" "lse_dsq_enable d \<noteq> 0" "L (ts_id p) = Some l" "on_dsq l" "ts_id p \<in> set (dsq_fifo d i)"
    and "on_dsq l' = on_dsq l" "lse_dsq_classify_lts k (Some l') p = idx" "idx \<noteq> i" "dsq_idx_valid k idx"
    and "lse_dsq_dequeue_task k j (Some p) (L(ts_id p \<mapsto> l'), d) = (L2, d2)"
  shows "dsq_fifo d2 i = remove1 (ts_id p) (dsq_fifo d i) \<and> \<not> on_dsq_flag L2 (ts_id p) \<and>
    nr (dsq_at i d2) = nr (dsq_at i d) \<and>
    nr (dsq_at i d2) - int (length (dsq_fifo d2 i)) = nr (dsq_at i d) - int (length (dsq_fifo d i)) + 1 \<and>
    dsq_fifo d2 idx = dsq_fifo d idx \<and> nr (dsq_at idx d2) = max 0 (wrap_int (nr (dsq_at idx d) - 1))"
proof -
  let ?L = "L(ts_id p \<mapsto> l')"
  have wf: "dsq_wf (?L, d)" using assms(1,3,6) by (elim dsq_wf_table) (simp add: on_dsq_flag_def)
  have run: "(L2, d2) = dsq_dequeue j idx (ts_id p) (?L, d)"
    using assms(2,4,6,7,9,10)
    by (simp add: lse_dsq_dequeue_task_def dsq_idx_valid_def dsq_consts Let_def split: if_splits)
  from reclassified_drift [OF wf, of "ts_id p" l' i idx j] reclassified_other [OF wf, of "ts_id p" l' i idx j]
  show ?thesis using assms(4-6,8) by (simp add: run [symmetric])
qed

definition demo_queued :: "lts_table \<times> dsq" where
  "demo_queued = dsq_enqueue 50 8 1 (demo_table, lse_dsq_init demo_kernel 7 boot_dsq)"

lemma demo_queued_state:
  shows "dsq_wf demo_queued" "fst demo_queued 1 = Some ((demo_lts 1)\<lparr>on_dsq := True\<rparr>)" "lse_dsq_enable (snd demo_queued) = 1"
    "dsq_fifo (snd demo_queued) i = (if i = 8 then [1] else [])" "nr (dsq_at 8 (snd demo_queued)) = 1"
    "nr (dsq_at 6 (snd demo_queued)) = 0"
proof -
  have t: "demo_table 1 = Some (demo_lts 1)" "\<not> on_dsq (demo_lts 1)"
    by (simp_all add: demo_table_def demo_lts_def)
  show "dsq_wf demo_queued"
    using enqueue_wf [OF started_wf [OF demo_started] t, of 50 8] by (simp add: demo_queued_def)
  show "fst demo_queued 1 = Some ((demo_lts 1)\<lparr>on_dsq := True\<rparr>)"
    by (simp add: demo_queued_def dsq_enqueue_def set_on_dsq_def demo_table_def)
  show "lse_dsq_enable (snd demo_queued) = 1" by (simp add: demo_queued_def dsq_enqueue_def dsq_init_tunables)
  show "dsq_fifo (snd demo_queued) i = (if i = 8 then [1] else [])"
    by (simp add: demo_queued_def enqueue_fifo dsq_init_state)
  show "nr (dsq_at 8 (snd demo_queued)) = 1" "nr (dsq_at 6 (snd demo_queued)) = 0"
    by (simp_all add: demo_queued_def dsq_enqueue_def dsq_at_upd dsq_init_state wrap_int_small Let_def)
qed

text \<open>Task 1 waits in queue 8 as a normal task, becomes a foreground task, and is dequeued: queue 8 is
  empty but reports one task.\<close>

theorem dsq_reclassified_drift_witness:
  "\<exists>L2 d2. lse_dsq_dequeue_task demo_kernel 60 (Some (demo_task 1)) ((fst demo_queued)(1 \<mapsto>
      (demo_lts 1)\<lparr>on_dsq := True, task_class := LSE_TASK_CLASS_FOREGROUND\<rparr>), snd demo_queued) = (L2, d2) \<and>
    dsq_fifo d2 8 = [] \<and> nr (dsq_at 8 d2) = 1"
proof -
  let ?l = "(demo_lts 1)\<lparr>on_dsq := True, task_class := LSE_TASK_CLASS_FOREGROUND\<rparr>"
  obtain L2 d2 where run: "lse_dsq_dequeue_task demo_kernel 60 (Some (demo_task 1))
      ((fst demo_queued)(ts_id (demo_task 1) \<mapsto> ?l), snd demo_queued) = (L2, d2)" by fastforce
  have idx: "lse_dsq_classify_lts demo_kernel (Some ?l) (demo_task 1) = 6"
    by (simp add: lse_dsq_classify_lts_def demo_task_def demo_lts_def demo_kernel_def dsq_prios)
  have wf: "dsq_wf (fst demo_queued, snd demo_queued)" using demo_queued_state(1) by simp
  have id: "ts_id (demo_task n) = n" for n by (simp add: demo_task_def)
  from dsq_reclassified_drift [OF wf _ _ _ _ _ idx _ _ run, of "(demo_lts 1)\<lparr>on_dsq := True\<rparr>" 8]
  show ?thesis using run by (simp add: id demo_queued_state demo_queued_state(2) [unfolded One_nat_def] dsq_idx_valid_def dsq_consts)
qed

text \<open>A switch from \<open>p\<close> to \<open>n\<close> takes \<open>n\<close> off the queues, adds at most \<open>p\<close>, and leaves every
  other waiting task waiting.\<close>

theorem dsq_switch_effect:
  assumes "dsq_wf s" "lse_dsq_enable (snd s) \<noteq> 0" "stats \<noteq> 0" "ts_id p \<noteq> ts_id n"
    and "\<not> is_idle_task n" "dequeuable k n"
  shows "waiting_set s - {ts_id n}
      \<subseteq> waiting_set (lse_dsq_on_schedule k j cpu_rq stats (Some rq) (Some p) (Some n) s) \<and>
    waiting_set (lse_dsq_on_schedule k j cpu_rq stats (Some rq) (Some p) (Some n) s)
      \<subseteq> insert (ts_id p) (waiting_set s) - {ts_id n}"
proof -
  have "dsq_live s" using assms by (simp add: dsq_live_def)
  then show ?thesis using on_schedule_waiting [of s stats p n k] assms by blast
qed

theorem dsq_switch_effect_witness:
  "2 \<notin> waiting_set (demo_switch (demo_table, lse_dsq_init demo_kernel 7 boot_dsq))"
proof -
  let ?s = "(demo_table, lse_dsq_init demo_kernel 7 boot_dsq)"
  have en: "lse_dsq_enable (snd ?s) \<noteq> 0"
    by (simp add: dsq_init_tunables)
  have t: "ts_id (demo_task 1) \<noteq> ts_id (demo_task 2)" "\<not> is_idle_task (demo_task 2)"
    "dequeuable demo_kernel (demo_task 2)" "ts_id (demo_task 2) = 2"
    by (simp_all add: demo_task_def dequeuable_def)
  have "waiting_set (demo_switch ?s) \<subseteq> insert (ts_id (demo_task 1)) (waiting_set ?s) - {ts_id (demo_task 2)}"
    unfolding demo_switch_def
    using dsq_switch_effect [OF started_wf [OF demo_started] en _ t(1,2,3), of 1] by simp
  then show ?thesis using t(4) by auto
qed

text \<open>C32: As the kernel calls the schedule hook, with \<open>prev\<close> still the run queue's current task,
  \<open>lse_dsq_enqueue_task\<close> never queues anything: from the initial state, after any sequence of
  schedule events, every queue is empty, none is marked, and the urgency signal is 0.\<close>

theorem dsq_hook_never_queues:
  assumes "\<forall>t. \<not> on_dsq_flag L t" and "\<forall>ev \<in> set evs. hook_event ev"
    and "run_schedule k evs (L, lse_dsq_init k j boot_dsq) = (L', d)"
  shows "dsq_fifo d i = [] \<and> \<not> is_timeout (dsq_at i d) \<and> lse_dsq_urgency_signal d = 0"
proof -
  have st: "dsq_started k (L, lse_dsq_init k j boot_dsq)" using assms(1) by (auto simp: dsq_started_def)
  have "dsq_idle (run_schedule k evs (L, lse_dsq_init k j boot_dsq))"
    by (rule run_hook_idle [OF assms(2)]) (simp add: dsq_idle_def started_wf [OF st] dsq_init_state)
  then show ?thesis by (simp add: assms(3) dsq_idle_def urgency_idle)
qed

theorem dsq_hook_never_queues_witness:
  "dsq_fifo (snd (run_schedule demo_kernel
     [(100, \<lambda>c. demo_rq c 1, 1, Some (demo_rq 0 1), Some (demo_task 1), Some (demo_task 2))]
     (demo_table, lse_dsq_init demo_kernel 7 boot_dsq))) 8 = []"
  by (rule dsq_hook_never_queues [OF _ _ prod.collapse [symmetric], THEN conjunct1])
     (simp_all add: on_dsq_flag_def demo_table_def demo_lts_def hook_event_def demo_rq_def demo_task_def)

text \<open>C28: In every reachable state of the queues with \<open>dsq_enable\<close> on, a scan marks a global queue of the range 5 to 9 as timed
  out exactly when it holds a task and more jiffies than its deadline have passed since it last
  became non-empty, however many tasks were consumed from it since; a queue already marked stays
  marked while it holds a task, and an empty one is unmarked.  (The header calls \<open>last_consume_at\<close> the
  time of the last consumption, and the mark one for the age of the head task.)\<close>

theorem dsq_scan_deadline:
  assumes "dsq_started k s0" "(timed_step k)\<^sup>*\<^sup>* (s0, since0) ((L, d), since)" "lse_dsq_enable d \<noteq> 0"
    and "LSE_DSQ_NON_PERIOD_START \<le> i" "i < LSE_DSQ_NON_PERIOD_END"
    and "unat (msecs_to_jiffies k (lse_dsq_deadlines d ! i)) < 2 ^ 63" "unat (j - since i) < 2 ^ 63"
  shows "is_timeout (dsq_at i (lse_dsq_scan_timeout k j cpu d)) \<longleftrightarrow>
    dsq_fifo d i \<noteq> [] \<and>
    (is_timeout (dsq_at i d) \<or> unat (msecs_to_jiffies k (lse_dsq_deadlines d ! i)) < unat (j - since i))"
proof -
  have inv: "waiting_since ((L, d), since)" by (rule timed_sys.inv_reachable [OF _ assms(2)]) (simp add: assms(1))
  then have shape: "dsq_shape d" by (simp add: waiting_since_def dsq_wf_def)
  have at: "is_timeout (dsq_at i (lse_dsq_scan_timeout k j cpu d)) \<longleftrightarrow> dsq_fifo d i \<noteq> [] \<and>
      (is_timeout (dsq_at i d) \<or> time_after j (last_consume_at (dsq_at i d) + msecs_to_jiffies k (lse_dsq_deadlines d ! i)))"
    using assms(4,5) by (auto simp: scan_timeout_at [OF shape assms(3)] scan_is_timeout dsq_fifo_def dsq_consts)
  have "dsq_fifo d i \<noteq> [] \<Longrightarrow> last_consume_at (dsq_at i d) = since i"
    using inv by (simp add: waiting_since_def)
  then show ?thesis unfolding at using time_after_elapsed [OF assms(6,7)] by auto
qed

text \<open>Task 1 enters queue 8 at jiffy 100: with a deadline of 64 ms, 16 jiffies, it is marked at 117.\<close>

theorem dsq_scan_deadline_witness:
  "is_timeout (dsq_at 8 (lse_dsq_scan_timeout demo_kernel 117 0 (snd (demo_switch
     (demo_table, lse_dsq_init demo_kernel 7 boot_dsq))))) \<and>
   \<not> is_timeout (dsq_at 8 (lse_dsq_scan_timeout demo_kernel 116 0 (snd (demo_switch
     (demo_table, lse_dsq_init demo_kernel 7 boot_dsq)))))"
proof -
  let ?init = "(demo_table, lse_dsq_init demo_kernel 7 boot_dsq)"
  let ?s = "demo_switch ?init" and ?since = "\<lambda>i. if dsq_fifo (snd ?init) i = [] \<and> dsq_fifo (snd (demo_switch ?init)) i \<noteq> [] then 100 else 0 :: u64"
  have "timed_step demo_kernel (?init, \<lambda>_. 0) (?s, ?since)" unfolding demo_switch_def by (rule timed_step.hook) simp
  then have run: "(timed_step demo_kernel)\<^sup>*\<^sup>* (?init, \<lambda>_. 0) ((fst ?s, snd ?s), ?since)" by (simp add: r_into_rtranclp)
  have since: "?since 8 = 100" by (simp add: demo_switch_state dsq_init_state)
  have ms: "msecs_to_jiffies demo_kernel 64 = 16" by (simp add: demo_kernel_def)
  from dsq_scan_deadline [OF demo_started run, of 8 117 0] dsq_scan_deadline [OF demo_started run, of 8 116 0]
  show ?thesis unfolding since by (simp add: demo_switch_state ms dsq_consts)
qed


text \<open>Writing 0 to \<open>dsq_enable\<close> while it is on empties every global queue and the queue of every
  online CPU and resets their counters and timeouts; only a task in the queue of an offline CPU
  keeps its flag.\<close>

theorem dsq_disable_empties:
  assumes wf: "dsq_wf s" and on: "lse_dsq_enable (snd s) \<noteq> 0"
    and s': "lse_proc_dsq_toggle_update k Toggle_Dsq_Enable True (Inr 0) s = (r, L, d)"
  shows "(i < LSE_MAX_GLOBAL_DSQS \<or> i - LSE_DSQ_PCP_BASE \<in> set (for_each_online_cpu k) \<longrightarrow>
      dsq_fifo d i = [] \<and> nr (dsq_at i d) = 0 \<and> \<not> is_timeout (dsq_at i d)) \<and>
    (on_dsq_flag L t \<longrightarrow> (\<exists>i. t \<in> set (dsq_fifo d i) \<and> LSE_MAX_GLOBAL_DSQS \<le> i \<and>
      i - LSE_DSQ_PCP_BASE \<notin> set (for_each_online_cpu k)))"
proof -
  let ?s = "(fst s, set_dsq_toggle Toggle_Dsq_Enable 0 (snd s))"
  have wf2: "dsq_wf ?s" by (rule set_toggle_wf [OF wf])
  have off: "lse_dsq_enable (snd ?s) = 0" by simp
  have eq: "lse_dsq_sync k ?s = (L, d)"
    using s' on by (auto simp: lse_proc_dsq_toggle_update_def)
  note at = dsq_sync_off(2) [OF off wf2, where k = k, unfolded eq snd_conv]
  have wfd: "dsq_wf (L, d)" by (rule dsq_sync_off(1) [OF off wf2, of k, unfolded eq])
  have empty: "i < LSE_MAX_GLOBAL_DSQS \<or> i - LSE_DSQ_PCP_BASE \<in> set (for_each_online_cpu k) \<Longrightarrow>
      dsq_fifo d i = [] \<and> nr (dsq_at i d) = 0 \<and> \<not> is_timeout (dsq_at i d)" for i
    unfolding dsq_fifo_def at by simp
  have "\<exists>i. t \<in> set (dsq_fifo d i) \<and> LSE_MAX_GLOBAL_DSQS \<le> i \<and>
      i - LSE_DSQ_PCP_BASE \<notin> set (for_each_online_cpu k)" if flag: "on_dsq_flag L t"
  proof -
    obtain i where i: "t \<in> set (dsq_fifo d i)" using dsq_wfD(4) [OF wfd] flag by blast
    then show ?thesis using empty [of i] by (metis empty_iff empty_set not_le)
  qed
  with empty [of i] show ?thesis by blast
qed

theorem dsq_disable_empties_witness:
  "dsq_fifo (snd (snd (lse_proc_dsq_toggle_update demo_kernel Toggle_Dsq_Enable True (Inr 0) demo_queued))) 8 = []"
proof -
  have "demo_table 1 = Some (demo_lts 1)" "\<not> on_dsq (demo_lts 1)"
    by (simp_all add: demo_table_def demo_lts_def)
  then have wf: "dsq_wf demo_queued" unfolding demo_queued_def
    by (intro enqueue_wf started_wf [OF demo_started])
  have on: "lse_dsq_enable (snd demo_queued) \<noteq> 0"
    by (simp add: demo_queued_def dsq_enqueue_def dsq_init_tunables)
  obtain r L d where eq:
    "lse_proc_dsq_toggle_update demo_kernel Toggle_Dsq_Enable True (Inr 0) demo_queued = (r, L, d)"
    by (metis prod.collapse)
  from dsq_disable_empties [OF wf on eq, of 8] eq show ?thesis by (simp add: dsq_consts)
qed

text \<open>A task with an \<open>lse_task_struct\<close> goes to one of the queues 0, 2, 3, 6, 8 and 9 or, when it
  is pinned, to the queue of a CPU of its mask; 4, 5 and 7 are never used.  Without one, a task of
  higher static priority never goes to a later queue.\<close>

theorem dsq_classify_range:
  "lse_dsq_classify_task k L p \<in>
     (if L (ts_id p) = None then {0, 1, 6, 8, 9}
      else if nr_cpus_allowed p = 1 \<or> is_migration_disabled p
      then {LSE_DSQ_PCP_BASE + cpumask_any k (cpus_ptr p)} else {0, 2, 3, 6, 8, 9})"
  by (auto simp: lse_dsq_classify_task_def lse_dsq_classify_lts_def classify_by_prio_def dsq_prios
      split: lse_task_class.split option.split)

theorem dsq_classify_prio_order:
  assumes "L (ts_id p) = None" "L (ts_id q) = None" "prio p \<le> prio q"
    and "task_nice p = prio p - DEFAULT_PRIO" "task_nice q = prio q - DEFAULT_PRIO"
  shows "lse_dsq_classify_task k L p \<le> lse_dsq_classify_task k L q"
  using classify_by_prio_mono [OF assms(4,5,3)] assms(1,2)
  by (simp add: lse_dsq_classify_task_def lse_dsq_classify_lts_def)

theorem dsq_classify_prio_order_witness:
  "lse_dsq_classify_task demo_kernel (\<lambda>_. None) ((demo_task 1)\<lparr>prio := 110, task_nice := - 10\<rparr>)
     \<le> lse_dsq_classify_task demo_kernel (\<lambda>_. None) (demo_task 2)"
  by (rule dsq_classify_prio_order) (simp_all add: demo_task_def DEFAULT_PRIO_def)

end
