(* ===== verification/Lse_Cluster.thy ===== *)
theory Lse_Cluster
  imports Lse_Types "HOL-Library.Multiset"
begin

text \<open>
  \<open>lse_sched_cluster.c\<close>: the table of CPU clusters, built once from the CPU topology, and the
  cpufreq notifiers that keep the clusters' frequencies.

  Clusters are objects on a heap and lists of clusters are lists of their addresses; address 0 is
  the static \<open>init_cluster\<close>.  A cpumask is the ascending list of its CPUs.  \<open>kzalloc\<close> is given by
  which of its calls succeed.  A QoS chain holds the clusters whose notifier blocks were added.
\<close>

section \<open>State\<close>

datatype freq_qos = FREQ_QOS_MIN | FREQ_QOS_MAX

record cluster_state =
  lse_num_sched_clusters :: int
  lse_cluster_head :: "nat list"
  cl_heap :: "nat \<Rightarrow> lse_sched_cluster option"
  cl_next :: nat
  cl_lrq :: "nat \<Rightarrow> lse_rq"
  qos_chain :: "(nat \<times> freq_qos \<times> nat) list"

definition init_cluster_ptr :: nat where "init_cluster_ptr = 0"

definition init_cluster :: "nat list \<Rightarrow> lse_sched_cluster" where
  "init_cluster cpus =
     \<lparr>cl_cpus = cpus, cl_id = 0, max_possible_capacity = int SCHED_CAPACITY_SCALE,
      cl_cur_freq = 1, cl_max_freq = 1, cl_min_freq = 1, capacity_margin = 1280,
      sd_capacity_margin = 1280, freq_init_done = False\<rparr>"

text \<open>The fields of the object at an address; the C code follows only pointers to live objects.\<close>

definition cl :: "cluster_state \<Rightarrow> nat \<Rightarrow> lse_sched_cluster" where
  "cl s c = (case cl_heap s c of Some x \<Rightarrow> x | None \<Rightarrow> init_cluster [])"

definition set_lrq_cluster :: "nat list \<Rightarrow> nat \<Rightarrow> cluster_state \<Rightarrow> cluster_state" where
  "set_lrq_cluster cpus c s =
     s\<lparr>cl_lrq := fold (\<lambda>i lrq. lrq(i := (lrq i)\<lparr>lrq_cluster := Some c\<rparr>)) cpus (cl_lrq s)\<rparr>"

definition init_clusters :: "kernel \<Rightarrow> cluster_state \<Rightarrow> cluster_state" where
  "init_clusters k s =
     s\<lparr>cl_heap := (cl_heap s)(init_cluster_ptr \<mapsto> init_cluster (cpu_possible k)),
       lse_cluster_head := [init_cluster_ptr],
       cl_lrq := fold (\<lambda>cpu lrq. lrq(cpu := (lrq cpu)
                   \<lparr>lrq_cluster := Some init_cluster_ptr, freq_domain_cpumask := [cpu]\<rparr>))
                   (cpu_possible k) (cl_lrq s)\<rparr>"

section \<open>Building the table\<close>

text \<open>\<open>arch_scale_cpu_capacity(cpumask_first(&cluster->cpus))\<close>; \<open>cpumask_first\<close> of an empty mask
  is \<open>nr_cpu_ids\<close>.\<close>

definition cpumask_first :: "kernel \<Rightarrow> nat list \<Rightarrow> nat" where
  "cpumask_first k cpus = (case cpus of [] \<Rightarrow> nr_cpu_ids k | c # _ \<Rightarrow> c)"

definition cluster_capacity :: "kernel \<Rightarrow> cluster_state \<Rightarrow> nat \<Rightarrow> u64" where
  "cluster_capacity k s c = arch_scale_cpu_capacity k (cpumask_first k (cl_cpus (cl s c)))"

fun insert_cluster :: "kernel \<Rightarrow> cluster_state \<Rightarrow> nat \<Rightarrow> nat list \<Rightarrow> nat list" where
  "insert_cluster k s c [] = [c]"
| "insert_cluster k s c (tmp # rest) =
     (if cluster_capacity k s c < cluster_capacity k s tmp then c # tmp # rest
      else tmp # insert_cluster k s c rest)"

definition alloc_new_cluster ::
  "kernel \<Rightarrow> (nat \<Rightarrow> bool) \<Rightarrow> nat list \<Rightarrow> cluster_state \<Rightarrow> fault + (nat \<times> cluster_state)" where
  "alloc_new_cluster k kzalloc_ok cpus s =
     (let c = cl_next s in
      if \<not> kzalloc_ok c then Inl Kernel_Bug
      else Inr (c, s\<lparr>cl_next := c + 1, cl_heap := (cl_heap s)(c \<mapsto>
             \<lparr>cl_cpus = cpus, cl_id = 0,
              max_possible_capacity = to_int (arch_scale_cpu_capacity k (cpumask_first k cpus)),
              cl_cur_freq = 1, cl_max_freq = 1, cl_min_freq = 1, capacity_margin = 1280,
              sd_capacity_margin = 1280, freq_init_done = False\<rparr>)\<rparr>))"

definition add_cluster ::
  "kernel \<Rightarrow> (nat \<Rightarrow> bool) \<Rightarrow> nat list \<Rightarrow> nat list \<times> cluster_state
    \<Rightarrow> fault + (nat list \<times> cluster_state)" where
  "add_cluster k kzalloc_ok cpus hs =
     (case hs of (head, s) \<Rightarrow>
        ebind (alloc_new_cluster k kzalloc_ok cpus s) (\<lambda>(c, s).
        if lse_num_sched_clusters s \<ge> MAX_LSE_CLUSTERS then Inl Kernel_Bug
        else
          let s = set_lrq_cluster cpus c s;
              head = insert_cluster k s c head
          in Inr (head, s\<lparr>lse_num_sched_clusters := lse_num_sched_clusters s + 1\<rparr>)))"

fun cleanup_clusters :: "nat list \<Rightarrow> cluster_state \<Rightarrow> cluster_state" where
  "cleanup_clusters [] s = s"
| "cleanup_clusters (c # head) s =
     (let s = set_lrq_cluster (cl_cpus (cl s c)) init_cluster_ptr s
      in cleanup_clusters head
           (s\<lparr>lse_num_sched_clusters := lse_num_sched_clusters s - 1,
              cl_heap := (cl_heap s)(c := None)\<rparr>))"

text \<open>\<open>list_swap\<close> of the second and the third entry.\<close>

definition align_clusters :: "kernel \<Rightarrow> cluster_state \<Rightarrow> nat list \<Rightarrow> nat list" where
  "align_clusters k s head =
     (if lse_num_sched_clusters s \<noteq> 4 then head
      else if 2 < length head \<and>
              cluster_capacity k s (head ! 1) < cluster_capacity k s (head ! 2)
      then head[1 := head ! 2, 2 := head ! 1] else head)"

definition assign_cluster_ids :: "kernel \<Rightarrow> nat list \<Rightarrow> cluster_state \<Rightarrow> cluster_state" where
  "assign_cluster_ids k head s =
     fold (\<lambda>c s. s\<lparr>cl_heap := (cl_heap s)(c \<mapsto> (cl s c)
       \<lparr>cl_id := topology_cluster_id k (cpumask_first k (cl_cpus (cl s c)))\<rparr>)\<rparr>) head s"

definition get_possible_siblings :: "kernel \<Rightarrow> nat \<Rightarrow> nat list" where
  "get_possible_siblings k cpuid =
     (if topology_cluster_id k cpuid = - 1 then []
      else filter (\<lambda>cpu. topology_cluster_id k cpuid = topology_cluster_id k cpu) (cpu_possible k))"

text \<open>
  The loop of \<open>update_cluster_topology\<close> over the CPUs that are still in the mask; the body removes
  the siblings of the current CPU from the mask.  The flag of the result says whether the loop ran
  to its end; if not, the clusters built so far have been freed.
\<close>

function topology_loop ::
  "kernel \<Rightarrow> (nat \<Rightarrow> bool) \<Rightarrow> nat list \<Rightarrow> nat list \<times> cluster_state
    \<Rightarrow> fault + (bool \<times> nat list \<times> cluster_state)" where
  "topology_loop k kzalloc_ok [] hs = Inr (True, hs)"
| "topology_loop k kzalloc_ok (i # cpus) hs =
     (let cluster_cpus = get_possible_siblings k i in
      if cluster_cpus = [] then Inr (False, [], cleanup_clusters (fst hs) (snd hs))
      else
        ebind (add_cluster k kzalloc_ok cluster_cpus hs)
          (topology_loop k kzalloc_ok (filter (\<lambda>c. c \<notin> set cluster_cpus) cpus)))"
  by pat_completeness auto
termination
  by (relation "measure (\<lambda>(k, ok, cpus, hs). length cpus)") (auto simp: le_imp_less_Suc length_filter_le)

definition update_cluster_topology ::
  "kernel \<Rightarrow> (nat \<Rightarrow> bool) \<Rightarrow> cluster_state \<Rightarrow> fault + cluster_state" where
  "update_cluster_topology k kzalloc_ok s =
     ebind (topology_loop k kzalloc_ok (cpu_possible k) ([], s)) (\<lambda>(complete, head, s).
       if \<not> complete then Inr s
       else
         let head = align_clusters k s head;
             s = assign_cluster_ids k head s
         in Inr (s\<lparr>lse_cluster_head := head\<rparr>))"

definition lse_sched_cluster_init ::
  "kernel \<Rightarrow> (nat \<Rightarrow> bool) \<Rightarrow> cluster_state \<Rightarrow> fault + cluster_state" where
  "lse_sched_cluster_init k kzalloc_ok s = update_cluster_topology k kzalloc_ok (init_clusters k s)"

text \<open>The module's data before \<open>lse_sched_cluster_init\<close>.\<close>

definition boot_clusters :: "(nat \<Rightarrow> lse_rq) \<Rightarrow> cluster_state" where
  "boot_clusters lrq =
     \<lparr>lse_num_sched_clusters = 0, lse_cluster_head = [], cl_heap = (\<lambda>_. None), cl_next = 1,
      cl_lrq = lrq, qos_chain = []\<rparr>"

section \<open>The cpufreq notifiers\<close>

definition upd_cluster ::
  "nat \<Rightarrow> (lse_sched_cluster \<Rightarrow> lse_sched_cluster) \<Rightarrow> cluster_state \<Rightarrow> cluster_state" where
  "upd_cluster c f s = s\<lparr>cl_heap := (cl_heap s)(c := map_option f (cl_heap s c))\<rparr>"

definition cpufreq_update_min :: "nat \<Rightarrow> u64 \<Rightarrow> cluster_state \<Rightarrow> cluster_state" where
  "cpufreq_update_min c freq = upd_cluster c (\<lambda>x. x\<lparr>cl_min_freq := ucast freq\<rparr>)"

definition cpufreq_update_max :: "nat \<Rightarrow> u64 \<Rightarrow> cluster_state \<Rightarrow> cluster_state" where
  "cpufreq_update_max c freq = upd_cluster c (\<lambda>x. x\<lparr>cl_max_freq := ucast freq\<rparr>)"

datatype policy_event = CPUFREQ_CREATE_POLICY | CPUFREQ_REMOVE_POLICY

definition EINVAL :: int where "EINVAL = 22"

text \<open>The loop of the creation branch; it returns the cluster variable after the loop.\<close>

function create_policy_loop ::
  "cpufreq_policy \<Rightarrow> nat list \<Rightarrow> nat option \<times> cluster_state
    \<Rightarrow> fault + (nat option \<times> cluster_state)" where
  "create_policy_loop p [] cs = Inr cs"
| "create_policy_loop p (i # cpus) cs =
     (case cs of (_, s) \<Rightarrow>
        case lrq_cluster (cl_lrq s i) of
          None \<Rightarrow> Inl Null_Deref
        | Some c \<Rightarrow>
            let s' = (if \<not> freq_init_done (cl s c) then
                        (upd_cluster c (\<lambda>x. x\<lparr>cl_min_freq := pol_min p, cl_max_freq := pol_max p,
                                             freq_init_done := True\<rparr>) s)
                        \<lparr>cl_lrq := fold (\<lambda>j lrq. lrq(j := (lrq j)
                                    \<lparr>freq_domain_cpumask := related_cpus p\<rparr>))
                                    (cl_cpus (cl s c)) (cl_lrq s)\<rparr>
                      else s)
            in create_policy_loop p (filter (\<lambda>j. j \<notin> set (cl_cpus (cl s c))) cpus) (Some c, s'))"
  by pat_completeness auto
termination
  by (relation "measure (\<lambda>(p, cpus, cs). length cpus)") (auto simp: le_imp_less_Suc length_filter_le)

text \<open>
  \<open>cpufreq_notifier_policy\<close>.  Adding the notifier block of a NULL cluster is a fault; removing it
  looks for an address that is not in the chain and leaves the chain as it is.  The argument
  \<open>add_ret\<close> is what \<open>freq_qos_add_notifier\<close> returns; on 0 the block is in the chain.
\<close>

definition qos_add :: "(freq_qos \<Rightarrow> int) \<Rightarrow> nat \<Rightarrow> freq_qos \<Rightarrow> nat \<Rightarrow> cluster_state \<Rightarrow> cluster_state" where
  "qos_add add_ret pol q c s = (if add_ret q = 0 then s\<lparr>qos_chain := (pol, q, c) # qos_chain s\<rparr> else s)"

definition cpufreq_notifier_policy ::
  "(freq_qos \<Rightarrow> int) \<Rightarrow> policy_event option \<Rightarrow> cpufreq_policy \<Rightarrow> cluster_state
    \<Rightarrow> fault + (int \<times> cluster_state)" where
  "cpufreq_notifier_policy add_ret val p s =
     (case val of
        Some CPUFREQ_CREATE_POLICY \<Rightarrow>
          ebind (create_policy_loop p (related_cpus p) (None, s)) (\<lambda>(cluster, s).
            case cluster of None \<Rightarrow> Inl Null_Deref
            | Some c \<Rightarrow>
                Inr (add_ret FREQ_QOS_MAX,
                     qos_add add_ret (pol_cpu p) FREQ_QOS_MAX c
                       (qos_add add_ret (pol_cpu p) FREQ_QOS_MIN c s)))
      | Some CPUFREQ_REMOVE_POLICY \<Rightarrow> Inr (0, s)
      | None \<Rightarrow> Inr (- EINVAL, s))"

text \<open>\<open>cpufreq_notifier_trans\<close>; the loop reads the cluster of the policy's CPU each time.\<close>

function trans_loop :: "nat option \<Rightarrow> u32 \<Rightarrow> nat list \<Rightarrow> cluster_state \<Rightarrow> fault + cluster_state" where
  "trans_loop cluster new_freq [] s = Inr s"
| "trans_loop cluster new_freq (i # cpus) s =
     (case cluster of None \<Rightarrow> Inl Null_Deref
      | Some c \<Rightarrow>
          trans_loop cluster new_freq (filter (\<lambda>j. j \<notin> set (cl_cpus (cl s c))) cpus)
            (upd_cluster c (\<lambda>x. x\<lparr>cl_cur_freq := new_freq\<rparr>) s))"
  by pat_completeness auto
termination
  by (relation "measure (\<lambda>(c, f, cpus, s). length cpus)") (auto simp: le_imp_less_Suc length_filter_le)

definition cpufreq_notifier_trans ::
  "bool \<Rightarrow> cpufreq_policy \<Rightarrow> u32 \<Rightarrow> cluster_state \<Rightarrow> fault + (int \<times> cluster_state)" where
  "cpufreq_notifier_trans postchange p new_freq s =
     (let lrq = cl_lrq s (pol_cpu p) in
      if \<not> postchange then Inr (0, s)
      else if new_freq = 0 then Inl Kernel_Bug
      else ebind (trans_loop (lrq_cluster lrq) new_freq (freq_domain_cpumask lrq) s)
             (\<lambda>s. Inr (0, s)))"

section \<open>Pieces of the construction\<close>

lemma lrq_cluster_fold:
  "lrq_cluster (fold (\<lambda>i lrq. lrq(i := (lrq i)\<lparr>lrq_cluster := Some c\<rparr>)) cpus lrq cpu) =
     (if cpu \<in> set cpus then Some c else lrq_cluster (lrq cpu))"
  by (induction cpus arbitrary: lrq) auto

lemma set_lrq_cluster_simps [simp]:
  "lrq_cluster (cl_lrq (set_lrq_cluster cpus c s) cpu) =
     (if cpu \<in> set cpus then Some c else lrq_cluster (cl_lrq s cpu))"
  "cl_heap (set_lrq_cluster cpus c s) = cl_heap s"
  "cl_next (set_lrq_cluster cpus c s) = cl_next s"
  "lse_num_sched_clusters (set_lrq_cluster cpus c s) = lse_num_sched_clusters s"
  "lse_cluster_head (set_lrq_cluster cpus c s) = lse_cluster_head s"
  by (simp_all add: set_lrq_cluster_def lrq_cluster_fold)

definition cpus_of :: "cluster_state \<Rightarrow> nat \<Rightarrow> nat list" where
  "cpus_of s c = cl_cpus (cl s c)"

text \<open>CPUs of one topology cluster, and the capacity a mask is sorted by.\<close>

definition siblings :: "kernel \<Rightarrow> nat \<Rightarrow> nat list" where
  "siblings k i = filter (\<lambda>c. topology_cluster_id k i = topology_cluster_id k c) (cpu_possible k)"

definition mask_capacity :: "kernel \<Rightarrow> nat list \<Rightarrow> u64" where
  "mask_capacity k cpus = arch_scale_cpu_capacity k (cpumask_first k cpus)"

lemma cluster_capacity_eq: "cluster_capacity k s c = mask_capacity k (cpus_of s c)"
  by (simp add: cluster_capacity_def mask_capacity_def cpus_of_def)

text \<open>The insertion depends on the masks only.\<close>

fun insert_mask :: "kernel \<Rightarrow> nat list \<Rightarrow> nat list list \<Rightarrow> nat list list" where
  "insert_mask k m [] = [m]"
| "insert_mask k m (n # ms) =
     (if mask_capacity k m < mask_capacity k n then m # n # ms else n # insert_mask k m ms)"

definition by_capacity :: "kernel \<Rightarrow> nat list list \<Rightarrow> bool" where
  "by_capacity k ms = sorted_wrt (\<lambda>m n. mask_capacity k m \<le> mask_capacity k n) ms"

lemma insert_cluster_masks:
  "map (cpus_of s) (insert_cluster k s c head) = insert_mask k (cpus_of s c) (map (cpus_of s) head)"
  by (induction head) (auto simp: cluster_capacity_eq)

lemma insert_cluster_list:
  "length (insert_cluster k s c head) = Suc (length head)"
  "set (insert_cluster k s c head) = insert c (set head)"
  "distinct (insert_cluster k s c head) \<longleftrightarrow> c \<notin> set head \<and> distinct head"
proof -
  show "length (insert_cluster k s c head) = Suc (length head)" by (induction head) auto
  show set: "set (insert_cluster k s c head) = insert c (set head)" for head
    by (induction head) auto
  show "distinct (insert_cluster k s c head) \<longleftrightarrow> c \<notin> set head \<and> distinct head"
    by (induction head) (auto simp: set)
qed

lemma insert_mask_set: "set (insert_mask k m ms) = insert m (set ms)"
  by (induction ms) auto

lemma insert_mask_distinct: "distinct (insert_mask k m ms) \<longleftrightarrow> m \<notin> set ms \<and> distinct ms"
  by (induction ms) (auto simp: insert_mask_set)

lemma insert_mask_sorted: "by_capacity k ms \<Longrightarrow> by_capacity k (insert_mask k m ms)"
  unfolding by_capacity_def
proof (induction ms)
  case (Cons n ms)
  show ?case
  proof (cases "mask_capacity k m < mask_capacity k n")
    case True
    then show ?thesis using Cons.prems by (auto intro: less_imp_le order_trans)
  next
    case False
    then show ?thesis using Cons by (auto simp: insert_mask_set)
  qed
qed simp

section \<open>The invariant of the topology loop\<close>

text \<open>
  After the CPUs \<open>D\<close> have been assigned: the clusters of the list are live objects, their masks
  are the sibling sets of \<open>D\<close>, each once, in ascending order of capacity, and every CPU of \<open>D\<close>
  points to the cluster that holds it.
\<close>

definition clusters_built :: "kernel \<Rightarrow> nat set \<Rightarrow> nat list \<Rightarrow> cluster_state \<Rightarrow> bool" where
  "clusters_built k D head s \<longleftrightarrow>
     lse_num_sched_clusters s = int (length head) \<and> distinct head \<and>
     (\<forall>c \<in> set head. 0 < c \<and> c < cl_next s \<and> cl_heap s c \<noteq> None) \<and>
     set (map (cpus_of s) head) = siblings k ` D \<and> distinct (map (cpus_of s) head) \<and>
     by_capacity k (map (cpus_of s) head) \<and>
     (\<forall>cpu \<in> D. \<exists>c \<in> set head. lrq_cluster (cl_lrq s cpu) = Some c \<and> cpu \<in> set (cpus_of s c))"

lemma siblings_refl: "i \<in> set (cpu_possible k) \<Longrightarrow> i \<in> set (siblings k i)"
  by (simp add: siblings_def)

lemma siblings_eq_iff:
  "i \<in> set (cpu_possible k) \<Longrightarrow>
   siblings k i = siblings k j \<longleftrightarrow> topology_cluster_id k i = topology_cluster_id k j"
proof
  assume "i \<in> set (cpu_possible k)" "siblings k i = siblings k j"
  then have "i \<in> set (siblings k j)" using siblings_refl by metis
  then show "topology_cluster_id k i = topology_cluster_id k j" by (simp add: siblings_def)
qed (simp add: siblings_def)

lemma clusters_card:
  assumes "clusters_built k D head s" "D \<subseteq> set (cpu_possible k)"
  shows "length head = card (topology_cluster_id k ` D)"
proof -
  have "length head = card (set (map (cpus_of s) head))"
    using assms(1) by (metis clusters_built_def distinct_card length_map)
  also have "\<dots> = card (siblings k ` D)" using assms(1) by (simp add: clusters_built_def)
  also have "siblings k ` D =
      (\<lambda>id. filter (\<lambda>c. id = topology_cluster_id k c) (cpu_possible k)) ` topology_cluster_id k ` D"
    by (auto simp: siblings_def)
  also have "card \<dots> = card (topology_cluster_id k ` D)"
  proof (rule card_image, rule inj_onI)
    fix a b assume ab: "a \<in> topology_cluster_id k ` D" "b \<in> topology_cluster_id k ` D"
      and eq: "filter (\<lambda>c. a = topology_cluster_id k c) (cpu_possible k) =
        filter (\<lambda>c. b = topology_cluster_id k c) (cpu_possible k)"
    obtain i where "i \<in> D" "a = topology_cluster_id k i" using ab(1) by auto
    then have "i \<in> set (filter (\<lambda>c. a = topology_cluster_id k c) (cpu_possible k))"
      using assms(2) by auto
    then show "a = b" unfolding eq using \<open>a = _\<close> by auto
  qed
  finally show ?thesis .
qed

lemma add_cluster_built:
  assumes inv: "clusters_built k D head s" and D: "D \<subseteq> set (cpu_possible k)"
    and i: "i \<in> set (cpu_possible k)" "set (siblings k i) \<inter> D = {}"
    and ok: "kzalloc_ok (cl_next s)" and room: "length head < 4" and pos: "0 < cl_next s"
  shows "\<exists>head' s'. add_cluster k kzalloc_ok (siblings k i) (head, s) = Inr (head', s') \<and>
    clusters_built k (D \<union> set (siblings k i)) head' s' \<and> cl_next s' = cl_next s + 1"
proof -
  let ?c = "cl_next s" and ?m = "siblings k i"
  define x where "x = \<lparr>cl_cpus = ?m, cl_id = 0,
    max_possible_capacity = to_int (arch_scale_cpu_capacity k (cpumask_first k ?m)),
    cl_cur_freq = 1, cl_max_freq = 1, cl_min_freq = 1, capacity_margin = 1280,
    sd_capacity_margin = 1280, freq_init_done = False\<rparr>"
  define s1 where "s1 = set_lrq_cluster ?m ?c (s\<lparr>cl_next := ?c + 1, cl_heap := (cl_heap s)(?c \<mapsto> x)\<rparr>)"
  define s2 where "s2 = s1\<lparr>lse_num_sched_clusters := lse_num_sched_clusters s1 + 1\<rparr>"
  have num: "lse_num_sched_clusters s = int (length head)" and dist: "distinct head"
    and live: "\<forall>c \<in> set head. 0 < c \<and> c < cl_next s \<and> cl_heap s c \<noteq> None"
    and masks: "set (map (cpus_of s) head) = siblings k ` D" "distinct (map (cpus_of s) head)"
      "by_capacity k (map (cpus_of s) head)"
    and ptr: "\<forall>cpu \<in> D. \<exists>c \<in> set head. lrq_cluster (cl_lrq s cpu) = Some c \<and> cpu \<in> set (cpus_of s c)"
    using inv by (auto simp: clusters_built_def)
  have c: "?c \<notin> set head" using live by auto
  have old: "cpus_of s2 d = cpus_of s d" if "d \<in> set head" for d
    using that c by (auto simp: s2_def s1_def cpus_of_def cl_def)
  have old1: "cpus_of s1 = cpus_of s2" by (rule ext) (simp add: s2_def cpus_of_def cl_def)
  have new: "cpus_of s2 ?c = ?m" by (simp add: s2_def s1_def cpus_of_def cl_def x_def)
  have maps: "map (cpus_of s2) head = map (cpus_of s) head" using old by simp
  have "map (cpus_of s1) (insert_cluster k s1 ?c head) = insert_mask k ?m (map (cpus_of s) head)"
    by (subst insert_cluster_masks) (simp only: old1 new maps)
  then have heads: "map (cpus_of s2) (insert_cluster k s1 ?c head) = insert_mask k ?m (map (cpus_of s) head)"
    by (simp only: old1)
  have fresh: "?m \<notin> siblings k ` D"
  proof
    assume "?m \<in> siblings k ` D"
    then obtain j where j: "j \<in> D" "siblings k i = siblings k j" by auto
    then have "j \<in> set ?m" using siblings_refl D by (metis subsetD)
    then show False using i(2) j(1) by auto
  qed
  have sib: "siblings k ` (D \<union> set ?m) = insert ?m (siblings k ` D)"
  proof -
    have "siblings k j = ?m" if "j \<in> set ?m" for j using that by (auto simp: siblings_def)
    then have "siblings k ` set ?m = (\<lambda>_. ?m) ` set ?m" by (intro image_cong refl)
    also have "\<dots> = {?m}" using siblings_refl [OF i(1)] by (rule image_constant)
    finally show ?thesis by (simp only: image_Un Un_insert_right Un_empty_right)
  qed
  have "clusters_built k (D \<union> set ?m) (insert_cluster k s1 ?c head) s2"
    unfolding clusters_built_def heads
  proof (intro conjI)
    show "lse_num_sched_clusters s2 = int (length (insert_cluster k s1 ?c head))"
      by (simp add: s2_def s1_def num insert_cluster_list)
    show "distinct (insert_cluster k s1 ?c head)" by (simp add: insert_cluster_list c dist)
    show "\<forall>c \<in> set (insert_cluster k s1 ?c head). 0 < c \<and> c < cl_next s2 \<and> cl_heap s2 c \<noteq> None"
      using live pos by (auto simp: insert_cluster_list s2_def s1_def)
    show "set (insert_mask k ?m (map (cpus_of s) head)) = siblings k ` (D \<union> set ?m)"
      using masks(1) by (simp only: insert_mask_set sib)
    show "distinct (insert_mask k ?m (map (cpus_of s) head))"
      using masks fresh by (simp only: insert_mask_distinct) simp
    show "by_capacity k (insert_mask k ?m (map (cpus_of s) head))"
      by (rule insert_mask_sorted [OF masks(3)])
    show "\<forall>cpu \<in> D \<union> set ?m. \<exists>c \<in> set (insert_cluster k s1 ?c head).
        lrq_cluster (cl_lrq s2 cpu) = Some c \<and> cpu \<in> set (cpus_of s2 c)"
    proof
      fix cpu assume "cpu \<in> D \<union> set ?m"
      show "\<exists>c \<in> set (insert_cluster k s1 ?c head).
        lrq_cluster (cl_lrq s2 cpu) = Some c \<and> cpu \<in> set (cpus_of s2 c)"
      proof (cases "cpu \<in> set ?m")
        case True
        then show ?thesis by (intro bexI [of _ ?c]) (auto simp: insert_cluster_list new, auto simp: s2_def s1_def)
      next
        case False
        then obtain c where "c \<in> set head" "lrq_cluster (cl_lrq s cpu) = Some c" "cpu \<in> set (cpus_of s c)"
          using \<open>cpu \<in> D \<union> set ?m\<close> ptr by blast
        then show ?thesis using False old [of c]
          by (intro bexI [of _ c]) (auto simp: insert_cluster_list, auto simp: s2_def s1_def)
      qed
    qed
  qed
  moreover have "add_cluster k kzalloc_ok ?m (head, s) = Inr (insert_cluster k s1 ?c head, s2)"
    using ok room num
    by (simp add: add_cluster_def alloc_new_cluster_def Let_def x_def s1_def s2_def MAX_LSE_CLUSTERS_def)
  ultimately show ?thesis by (auto simp: s2_def s1_def)
qed

lemma get_possible_siblings_eq:
  "topology_cluster_id k i \<noteq> - 1 \<Longrightarrow> get_possible_siblings k i = siblings k i"
  by (simp add: get_possible_siblings_def siblings_def)

lemma siblings_disjoint:
  assumes "i \<in> set (cpu_possible k)" "i \<notin> D" "\<forall>j \<in> D. set (siblings k j) \<subseteq> D"
  shows "set (siblings k i) \<inter> D = {}"
proof -
  have "j \<notin> D" if j: "j \<in> set (siblings k i)" for j
  proof
    assume "j \<in> D"
    moreover have "i \<in> set (siblings k j)" using j assms(1) by (auto simp: siblings_def)
    ultimately show False using assms(2,3) by blast
  qed
  then show ?thesis by blast
qed

lemma add_cluster_frame:
  assumes "add_cluster k kzalloc_ok cpus (head, s) = Inr (head', s')"
  shows "lse_cluster_head s' = lse_cluster_head s" "cl_next s' = cl_next s + 1"
    and "cpu \<notin> set cpus \<Longrightarrow> lrq_cluster (cl_lrq s' cpu) = lrq_cluster (cl_lrq s cpu)"
  using assms by (auto simp: add_cluster_def alloc_new_cluster_def Let_def split: if_splits)

text \<open>Freeing the clusters gives their CPUs back to \<open>init_cluster\<close>.\<close>

lemma cleanup_clusters_state:
  assumes "distinct head"
  shows "lse_num_sched_clusters (cleanup_clusters head s) = lse_num_sched_clusters s - int (length head)"
    and "lse_cluster_head (cleanup_clusters head s) = lse_cluster_head s"
    and "lrq_cluster (cl_lrq (cleanup_clusters head s) cpu) =
      (if \<exists>c \<in> set head. cpu \<in> set (cpus_of s c) then Some init_cluster_ptr
       else lrq_cluster (cl_lrq s cpu))"
proof -
  have "lse_num_sched_clusters (cleanup_clusters head s) = lse_num_sched_clusters s - int (length head) \<and>
    lse_cluster_head (cleanup_clusters head s) = lse_cluster_head s \<and>
    lrq_cluster (cl_lrq (cleanup_clusters head s) cpu) =
      (if \<exists>c \<in> set head. cpu \<in> set (cpus_of s c) then Some init_cluster_ptr
       else lrq_cluster (cl_lrq s cpu))"
    using assms
  proof (induction head arbitrary: s)
    case (Cons c head)
    let ?s = "set_lrq_cluster (cl_cpus (cl s c)) init_cluster_ptr s"
    let ?t = "?s\<lparr>lse_num_sched_clusters := lse_num_sched_clusters ?s - 1, cl_heap := (cl_heap ?s)(c := None)\<rparr>"
    have eq: "cleanup_clusters (c # head) s = cleanup_clusters head ?t" by (simp add: Let_def)
    have "cpus_of ?t d = cpus_of s d" if "d \<in> set head" for d
      using that Cons.prems by (auto simp: cpus_of_def cl_def)
    then have "(\<exists>d \<in> set head. cpu \<in> set (cpus_of ?t d)) = (\<exists>d \<in> set head. cpu \<in> set (cpus_of s d))"
      by (intro bex_cong) auto
    moreover have "distinct head" using Cons.prems by simp
    ultimately show ?case unfolding eq using Cons.IH [of ?t]
      by (auto simp: cpus_of_def [of s c])
  qed simp
  then show "lse_num_sched_clusters (cleanup_clusters head s) = lse_num_sched_clusters s - int (length head)"
    and "lse_cluster_head (cleanup_clusters head s) = lse_cluster_head s"
    and "lrq_cluster (cl_lrq (cleanup_clusters head s) cpu) =
      (if \<exists>c \<in> set head. cpu \<in> set (cpus_of s c) then Some init_cluster_ptr
       else lrq_cluster (cl_lrq s cpu))" by simp_all
qed

lemma topology_loop_result:
  assumes "clusters_built k D head s" "set cpus = set (cpu_possible k) - D" "D \<subseteq> set (cpu_possible k)"
    and "\<forall>i \<in> D. topology_cluster_id k i \<noteq> - 1" and "\<forall>i \<in> D. set (siblings k i) \<subseteq> D"
    and "card (topology_cluster_id k ` {i \<in> set (cpu_possible k). topology_cluster_id k i \<noteq> - 1}) \<le> 4"
    and "\<forall>n. kzalloc_ok n" "0 < cl_next s"
    and "\<forall>cpu \<in> set (cpu_possible k) - D. lrq_cluster (cl_lrq s cpu) = Some init_cluster_ptr"
  shows "\<exists>b head' s'. topology_loop k kzalloc_ok cpus (head, s) = Inr (b, head', s') \<and>
    (b \<longleftrightarrow> (\<forall>i \<in> set (cpu_possible k). topology_cluster_id k i \<noteq> - 1)) \<and>
    lse_cluster_head s' = lse_cluster_head s \<and>
    (b \<longrightarrow> clusters_built k (set (cpu_possible k)) head' s') \<and>
    (\<not> b \<longrightarrow> lse_num_sched_clusters s' = 0 \<and>
       (\<forall>cpu \<in> set (cpu_possible k). lrq_cluster (cl_lrq s' cpu) = Some init_cluster_ptr))"
  using assms
proof (induction "length cpus" arbitrary: cpus D head s rule: less_induct)
  case less
  show ?case
  proof (cases cpus)
    case Nil
    then have "D = set (cpu_possible k)" using less.prems(2,3) by auto
    then show ?thesis using less.prems(1,4) Nil by (intro exI [of _ True]) simp
  next
    case (Cons i rest)
    let ?m = "siblings k i"
    have i: "i \<in> set (cpu_possible k)" "i \<notin> D" using less.prems(2) Cons by auto
    show ?thesis
    proof (cases "topology_cluster_id k i = - 1")
      case True
      have dist: "distinct head" and num: "lse_num_sched_clusters s = int (length head)"
        using less.prems(1) by (simp_all add: clusters_built_def)
      have "lrq_cluster (cl_lrq (cleanup_clusters head s) cpu) = Some init_cluster_ptr"
        if "cpu \<in> set (cpu_possible k)" for cpu
        using that less.prems(1,9) by (auto simp: cleanup_clusters_state(3) [OF dist] clusters_built_def)
      then show ?thesis using True i(1) num
        by (auto simp: Cons get_possible_siblings_def cleanup_clusters_state(1,2) [OF dist])
    next
      case False
      have disj: "set ?m \<inter> D = {}" using siblings_disjoint [OF i less.prems(5)] .
      have new: "topology_cluster_id k i \<notin> topology_cluster_id k ` D"
      proof
        assume "topology_cluster_id k i \<in> topology_cluster_id k ` D"
        then obtain j where j: "j \<in> D" "topology_cluster_id k i = topology_cluster_id k j" by auto
        then have "j \<in> set ?m" using less.prems(3) by (auto simp: siblings_def)
        with disj j(1) show False by blast
      qed
      have "topology_cluster_id k ` D \<subset>
          topology_cluster_id k ` {i \<in> set (cpu_possible k). topology_cluster_id k i \<noteq> - 1}"
        using i(1) less.prems(3,4) new False by blast
      then have "card (topology_cluster_id k ` D) <
          card (topology_cluster_id k ` {i \<in> set (cpu_possible k). topology_cluster_id k i \<noteq> - 1})"
        by (rule psubset_card_mono [rotated]) simp
      then have room: "length head < 4"
        using clusters_card [OF less.prems(1,3)] less.prems(6) by linarith
      have "kzalloc_ok (cl_next s)" using less.prems(7) by simp
      from add_cluster_built [where kzalloc_ok = kzalloc_ok, OF less.prems(1,3) i(1) disj this room less.prems(8)]
      obtain head' s' where add: "add_cluster k kzalloc_ok ?m (head, s) = Inr (head', s')"
        and built: "clusters_built k (D \<union> set ?m) head' s'" by blast
      note frame = add_cluster_frame [OF add]
      let ?rest = "filter (\<lambda>c. c \<notin> set ?m) rest"
      have ne: "?m \<noteq> []" using siblings_refl [OF i(1)] by auto
      have loop: "topology_loop k kzalloc_ok cpus (head, s) = topology_loop k kzalloc_ok ?rest (head', s')"
        by (simp add: Cons get_possible_siblings_eq [OF False] ne add)
      have rest: "set ?rest = set (cpu_possible k) - (D \<union> set ?m)"
        using less.prems(2) Cons siblings_refl [OF i(1)] by auto
      have hyps: "set ?m \<subseteq> set (cpu_possible k)"
        "\<forall>j \<in> D \<union> set ?m. set (siblings k j) \<subseteq> D \<union> set ?m"
        "\<forall>j \<in> D \<union> set ?m. topology_cluster_id k j \<noteq> - 1"
        "length ?rest < length cpus"
        "\<forall>cpu \<in> set (cpu_possible k) - (D \<union> set ?m). lrq_cluster (cl_lrq s' cpu) = Some init_cluster_ptr"
        using less.prems(4,5,9) Cons False frame(3) length_filter_le [of _ rest]
        by (auto simp: siblings_def le_imp_less_Suc)
      show ?thesis unfolding loop frame(1) [symmetric]
        using less.prems(3) hyps frame(2)
        by (intro less.hyps [OF hyps(4) built rest] less.prems(6,7)) auto
    qed
  qed
qed

lemma topology_loop_crowded:
  assumes "clusters_built k D head s" "set cpus = set (cpu_possible k) - D" "D \<subseteq> set (cpu_possible k)"
    and "\<forall>i \<in> set (cpu_possible k). topology_cluster_id k i \<noteq> - 1"
    and "\<forall>i \<in> D. set (siblings k i) \<subseteq> D"
    and "card (topology_cluster_id k ` set (cpu_possible k)) > 4" "length head \<le> 4"
    and "0 < cl_next s"
  shows "topology_loop k kzalloc_ok cpus (head, s) = Inl Kernel_Bug"
  using assms
proof (induction "length cpus" arbitrary: cpus D head s rule: less_induct)
  case less
  show ?case
  proof (cases cpus)
    case Nil
    then have "D = set (cpu_possible k)" using less.prems(2,3) by auto
    then show ?thesis using clusters_card [OF less.prems(1,3)] less.prems(6,7) by simp
  next
    case (Cons i rest)
    let ?m = "siblings k i"
    have i: "i \<in> set (cpu_possible k)" "i \<notin> D" using less.prems(2) Cons by auto
    have ne: "?m \<noteq> []" using siblings_refl [OF i(1)] by auto
    have gps: "get_possible_siblings k i = ?m"
      using less.prems(4) i(1) by (simp add: get_possible_siblings_eq)
    have disj: "set ?m \<inter> D = {}" using siblings_disjoint [OF i less.prems(5)] .
    have num: "lse_num_sched_clusters s = int (length head)"
      using less.prems(1) by (simp add: clusters_built_def)
    show ?thesis
    proof (cases "kzalloc_ok (cl_next s) \<and> length head < 4")
      case False
      then have "add_cluster k kzalloc_ok ?m (head, s) = Inl Kernel_Bug"
        using num less.prems(7)
        by (auto simp: add_cluster_def alloc_new_cluster_def Let_def MAX_LSE_CLUSTERS_def)
      then show ?thesis by (simp add: Cons gps ne)
    next
      case True
      from add_cluster_built [OF less.prems(1,3) i(1) disj _ _ less.prems(8), of kzalloc_ok] True
      obtain head' s' where add: "add_cluster k kzalloc_ok ?m (head, s) = Inr (head', s')"
        and built: "clusters_built k (D \<union> set ?m) head' s'" and next': "cl_next s' = cl_next s + 1" by blast
      let ?rest = "filter (\<lambda>c. c \<notin> set ?m) rest"
      have loop: "topology_loop k kzalloc_ok cpus (head, s) = topology_loop k kzalloc_ok ?rest (head', s')"
        by (simp add: Cons gps ne add)
      have len: "length head' \<le> 4"
        using add True num unfolding add_cluster_def
        by (auto simp: alloc_new_cluster_def Let_def insert_cluster_list split: if_splits)
      have "set ?m \<subseteq> set (cpu_possible k)" by (auto simp: siblings_def)
      moreover have "set ?rest = set (cpu_possible k) - (D \<union> set ?m)"
        using less.prems(2) Cons siblings_refl [OF i(1)] by auto
      moreover have "\<forall>j \<in> D \<union> set ?m. set (siblings k j) \<subseteq> D \<union> set ?m"
        using less.prems(5) by (auto simp: siblings_def)
      moreover have "length ?rest < length cpus" using length_filter_le [of _ rest] by (simp add: Cons le_imp_less_Suc)
      ultimately show ?thesis
        unfolding loop using less.prems(3,4,6) built next' len
        by (intro less.hyps) auto
    qed
  qed
qed

section \<open>Order and identifiers\<close>

lemma assign_cluster_ids_cl:
  assumes "distinct head"
  shows "cl (assign_cluster_ids k head s) c =
      (if c \<in> set head then (cl s c)\<lparr>cl_id := topology_cluster_id k (cpumask_first k (cpus_of s c))\<rparr>
       else cl s c)"
    and "cl_lrq (assign_cluster_ids k head s) = cl_lrq s"
    and "lse_num_sched_clusters (assign_cluster_ids k head s) = lse_num_sched_clusters s"
  using assms unfolding assign_cluster_ids_def
  by (induction head arbitrary: s) (auto simp: cl_def cpus_of_def)

lemma align_clusters_perm:
  "set (align_clusters k s head) = set head" "length (align_clusters k s head) = length head"
  "distinct (align_clusters k s head) = distinct head"
proof -
  have sw: "1 < length head \<Longrightarrow> 2 < length head \<Longrightarrow> mset (head[1 := head ! 2, 2 := head ! 1]) = mset head"
    by (rule mset_swap)
  show "set (align_clusters k s head) = set head"
    using sw by (auto simp: align_clusters_def dest: mset_eq_setD)
  show "length (align_clusters k s head) = length head" by (simp add: align_clusters_def)
  show "distinct (align_clusters k s head) = distinct head"
    using sw by (auto simp: align_clusters_def dest: mset_eq_imp_distinct_iff)
qed


section \<open>The finished table\<close>

definition clusters_sorted :: "kernel \<Rightarrow> cluster_state \<Rightarrow> bool" where
  "clusters_sorted k s = sorted_wrt (\<lambda>c d. cluster_capacity k s c \<le> cluster_capacity k s d) (lse_cluster_head s)"

definition topology_ids :: "kernel \<Rightarrow> int set" where
  "topology_ids k = topology_cluster_id k ` set (cpu_possible k)"

lemma init_clusters_built: "clusters_built k {} [] (init_clusters k (boot_clusters lrq))"
  by (simp add: clusters_built_def by_capacity_def init_clusters_def boot_clusters_def)

lemma init_lrq_fold:
  "lrq_cluster (fold (\<lambda>cpu lrq. lrq(cpu := (lrq cpu)
      \<lparr>lrq_cluster := Some c, freq_domain_cpumask := [cpu]\<rparr>)) cpus lrq i) =
     (if i \<in> set cpus then Some c else lrq_cluster (lrq i))"
  by (induction cpus arbitrary: lrq) auto

lemma init_clusters_ptr:
  "cpu \<in> set (cpu_possible k) \<Longrightarrow>
   lrq_cluster (cl_lrq (init_clusters k s) cpu) = Some init_cluster_ptr"
  by (simp add: init_clusters_def init_lrq_fold)

lemma init_clusters_fields [simp]:
  "cl_next (init_clusters k s) = cl_next s" "lse_cluster_head (init_clusters k s) = [init_cluster_ptr]"
  by (simp_all add: init_clusters_def)

lemma init_loop_result:
  assumes "card (topology_cluster_id k ` {i \<in> set (cpu_possible k). topology_cluster_id k i \<noteq> - 1}) \<le> 4"
    and "\<forall>n. kzalloc_ok n"
  shows "\<exists>b head' s'. topology_loop k kzalloc_ok (cpu_possible k) ([], init_clusters k (boot_clusters lrq)) =
      Inr (b, head', s') \<and>
    (b \<longleftrightarrow> (\<forall>i \<in> set (cpu_possible k). topology_cluster_id k i \<noteq> - 1)) \<and>
    lse_cluster_head s' = [init_cluster_ptr] \<and>
    (b \<longrightarrow> clusters_built k (set (cpu_possible k)) head' s') \<and>
    (\<not> b \<longrightarrow> lse_num_sched_clusters s' = 0 \<and>
       (\<forall>cpu \<in> set (cpu_possible k). lrq_cluster (cl_lrq s' cpu) = Some init_cluster_ptr))"
  using topology_loop_result [OF init_clusters_built, of "cpu_possible k" k kzalloc_ok lrq] assms
  by (simp add: init_clusters_ptr boot_clusters_def)

lemma cluster_init_built:
  assumes "\<forall>i \<in> set (cpu_possible k). topology_cluster_id k i \<noteq> - 1"
    and "card (topology_ids k) \<le> 4" and "\<forall>n. kzalloc_ok n"
  obtains s0 head0 s where "lse_sched_cluster_init k kzalloc_ok (boot_clusters lrq) = Inr s"
    and "clusters_built k (set (cpu_possible k)) head0 s0"
    and "s = (assign_cluster_ids k (align_clusters k s0 head0) s0)\<lparr>lse_cluster_head := align_clusters k s0 head0\<rparr>"
proof -
  have "{i \<in> set (cpu_possible k). topology_cluster_id k i \<noteq> - 1} = set (cpu_possible k)"
    using assms(1) by blast
  then have "card (topology_cluster_id k ` {i \<in> set (cpu_possible k). topology_cluster_id k i \<noteq> - 1}) \<le> 4"
    using assms(2) by (simp add: topology_ids_def)
  from init_loop_result [OF this assms(3), of lrq] assms(1) obtain head0 s0 where
    "topology_loop k kzalloc_ok (cpu_possible k) ([], init_clusters k (boot_clusters lrq)) = Inr (True, head0, s0)"
    "clusters_built k (set (cpu_possible k)) head0 s0" by auto
  then show ?thesis
    by (intro that) (simp_all add: lse_sched_cluster_init_def update_cluster_topology_def Let_def)
qed

lemma built_pointer:
  assumes "clusters_built k (set (cpu_possible k)) head s" "cpu \<in> set (cpu_possible k)"
  shows "\<exists>c \<in> set head. lrq_cluster (cl_lrq s cpu) = Some c \<and> cpus_of s c = siblings k cpu"
proof -
  obtain c where c: "c \<in> set head" "lrq_cluster (cl_lrq s cpu) = Some c" "cpu \<in> set (cpus_of s c)"
    using assms unfolding clusters_built_def by blast
  obtain i where "i \<in> set (cpu_possible k)" "cpus_of s c = siblings k i"
    using assms(1) c(1) unfolding clusters_built_def set_map by (metis imageE imageI)
  then have "cpus_of s c = siblings k cpu" using c(3) by (auto simp: siblings_def)
  with c show ?thesis by blast
qed

lemma cluster_init_spec:
  assumes "\<forall>i \<in> set (cpu_possible k). topology_cluster_id k i \<noteq> - 1"
    and "card (topology_ids k) \<le> 4" and "\<forall>n. kzalloc_ok n"
  shows "\<exists>s. lse_sched_cluster_init k kzalloc_ok (boot_clusters lrq) = Inr s \<and>
    lse_num_sched_clusters s = int (card (topology_ids k)) \<and>
    length (lse_cluster_head s) = card (topology_ids k) \<and> distinct (lse_cluster_head s) \<and>
    (\<forall>cpu \<in> set (cpu_possible k). \<exists>c \<in> set (lse_cluster_head s).
       lrq_cluster (cl_lrq s cpu) = Some c \<and> cl_cpus (cl s c) = siblings k cpu \<and>
       cl_id (cl s c) = topology_cluster_id k cpu)"
proof -
  from cluster_init_built [OF assms, of lrq] obtain s0 head0 s where
    init: "lse_sched_cluster_init k kzalloc_ok (boot_clusters lrq) = Inr s"
    and built: "clusters_built k (set (cpu_possible k)) head0 s0"
    and s: "s = (assign_cluster_ids k (align_clusters k s0 head0) s0)\<lparr>lse_cluster_head := align_clusters k s0 head0\<rparr>" .
  let ?head = "align_clusters k s0 head0"
  have dist: "distinct ?head" using built by (simp add: align_clusters_perm clusters_built_def)
  note as = assign_cluster_ids_cl [OF dist, of k s0]
  have cl_s: "cl s c = cl (assign_cluster_ids k ?head s0) c" for c by (simp add: s cl_def)
  have len: "length head0 = card (topology_ids k)"
    using clusters_card [OF built] by (simp add: topology_ids_def)
  have ptr: "\<exists>c \<in> set ?head. lrq_cluster (cl_lrq s cpu) = Some c \<and> cl_cpus (cl s c) = siblings k cpu \<and>
       cl_id (cl s c) = topology_cluster_id k cpu" if cpu: "cpu \<in> set (cpu_possible k)" for cpu
  proof -
    obtain c where c: "c \<in> set head0" "lrq_cluster (cl_lrq s0 cpu) = Some c" "cpus_of s0 c = siblings k cpu"
      using built_pointer [OF built cpu] by blast
    have "cpumask_first k (siblings k cpu) \<in> set (siblings k cpu)"
      using siblings_refl [OF cpu] by (auto simp: cpumask_first_def split: list.split)
    then have "topology_cluster_id k (cpumask_first k (siblings k cpu)) = topology_cluster_id k cpu"
      by (simp add: siblings_def)
    then show ?thesis using c
      by (intro bexI [of _ c]) (auto simp: cl_s as align_clusters_perm, auto simp: s as cpus_of_def)
  qed
  show ?thesis
    using init ptr built len dist
    by (intro exI [of _ s]) (auto simp: s as align_clusters_perm clusters_built_def)
qed

lemma capacity_after_assign:
  assumes "distinct head"
  shows "cluster_capacity k ((assign_cluster_ids k head s)\<lparr>lse_cluster_head := h\<rparr>) c = cluster_capacity k s c"
proof -
  have "cl ((assign_cluster_ids k head s)\<lparr>lse_cluster_head := h\<rparr>) c = cl (assign_cluster_ids k head s) c"
    by (simp add: cl_def)
  then show ?thesis by (simp add: cluster_capacity_def assign_cluster_ids_cl [OF assms])
qed

lemma built_sorted:
  "clusters_built k D head s \<Longrightarrow> sorted_wrt (\<lambda>c d. cluster_capacity k s c \<le> cluster_capacity k s d) head"
  by (simp add: clusters_built_def by_capacity_def sorted_wrt_map cluster_capacity_eq)

lemma sorted_wrt_nthD: "sorted_wrt R xs \<Longrightarrow> i < j \<Longrightarrow> j < length xs \<Longrightarrow> R (xs ! i) (xs ! j)"
  by (simp add: sorted_wrt_iff_nth_less)

text \<open>The first cluster has the smallest capacity and the last the largest, also after the swap.\<close>

lemma length_4: "length xs = 4 \<Longrightarrow> \<exists>a b c d. xs = [a, b, c, d]"
  by (auto simp: numeral_eq_Suc length_Suc_conv)

lemma align_extremes:
  fixes k :: kernel and s :: cluster_state
  defines "R \<equiv> \<lambda>c d. cluster_capacity k s c \<le> cluster_capacity k s d"
  assumes sorted: "sorted_wrt R head" and num: "lse_num_sched_clusters s = int (length head)"
  shows "length head \<noteq> 4 \<Longrightarrow> sorted_wrt R (align_clusters k s head)"
    and "length head = 4 \<Longrightarrow> (let h = align_clusters k s head in
           R (h ! 0) (h ! 2) \<and> R (h ! 2) (h ! 1) \<and> R (h ! 1) (h ! 3))"
proof -
  show "length head \<noteq> 4 \<Longrightarrow> sorted_wrt R (align_clusters k s head)"
    using num sorted by (simp add: align_clusters_def)
  assume "length head = 4"
  then obtain a b c d where h: "head = [a, b, c, d]" using length_4 by blast
  show "let h = align_clusters k s head in R (h ! 0) (h ! 2) \<and> R (h ! 2) (h ! 1) \<and> R (h ! 1) (h ! 3)"
    using sorted num by (auto simp: h R_def align_clusters_def Let_def)
qed

lemma cluster_init_order:
  assumes "\<forall>i \<in> set (cpu_possible k). topology_cluster_id k i \<noteq> - 1"
    and "card (topology_ids k) \<le> 4" and "\<forall>n. kzalloc_ok n"
    and "lse_sched_cluster_init k kzalloc_ok (boot_clusters lrq) = Inr s"
  shows "card (topology_ids k) \<noteq> 4 \<Longrightarrow> clusters_sorted k s"
    and "card (topology_ids k) = 4 \<Longrightarrow>
      cluster_capacity k s (lse_cluster_head s ! 0) \<le> cluster_capacity k s (lse_cluster_head s ! 2) \<and>
      cluster_capacity k s (lse_cluster_head s ! 2) \<le> cluster_capacity k s (lse_cluster_head s ! 1) \<and>
      cluster_capacity k s (lse_cluster_head s ! 1) \<le> cluster_capacity k s (lse_cluster_head s ! 3)"
proof -
  from cluster_init_built [OF assms(1-3), of lrq] obtain s0 head0 where
    built: "clusters_built k (set (cpu_possible k)) head0 s0"
    and s: "s = (assign_cluster_ids k (align_clusters k s0 head0) s0)\<lparr>lse_cluster_head := align_clusters k s0 head0\<rparr>"
    using assms(4) by (metis sum.inject(2))
  have dist: "distinct (align_clusters k s0 head0)"
    using built by (simp add: align_clusters_perm clusters_built_def)
  have cap: "cluster_capacity k s c = cluster_capacity k s0 c" for c
    by (simp add: s capacity_after_assign [OF dist])
  have head: "lse_cluster_head s = align_clusters k s0 head0" by (simp add: s)
  have len: "length head0 = card (topology_ids k)"
    using clusters_card [OF built] by (simp add: topology_ids_def)
  have num: "lse_num_sched_clusters s0 = int (length head0)" using built by (simp add: clusters_built_def)
  note al = align_extremes [OF built_sorted [OF built] num]
  show "card (topology_ids k) \<noteq> 4 \<Longrightarrow> clusters_sorted k s"
    using al(1) len by (simp add: clusters_sorted_def cap head)
  show "card (topology_ids k) = 4 \<Longrightarrow>
      cluster_capacity k s (lse_cluster_head s ! 0) \<le> cluster_capacity k s (lse_cluster_head s ! 2) \<and>
      cluster_capacity k s (lse_cluster_head s ! 2) \<le> cluster_capacity k s (lse_cluster_head s ! 1) \<and>
      cluster_capacity k s (lse_cluster_head s ! 1) \<le> cluster_capacity k s (lse_cluster_head s ! 3)"
    using al(2) len by (simp add: cap head Let_def)
qed

lemma cluster_init_crowded:
  assumes "\<forall>i \<in> set (cpu_possible k). topology_cluster_id k i \<noteq> - 1" and "card (topology_ids k) > 4"
  shows "lse_sched_cluster_init k kzalloc_ok (boot_clusters lrq) = Inl Kernel_Bug"
proof -
  have "topology_loop k kzalloc_ok (cpu_possible k) ([], init_clusters k (boot_clusters lrq)) = Inl Kernel_Bug"
    using assms
    by (intro topology_loop_crowded [OF init_clusters_built]) (auto simp: topology_ids_def boot_clusters_def)
  then show ?thesis by (simp add: lse_sched_cluster_init_def update_cluster_topology_def)
qed

lemma cluster_init_no_topology:
  assumes "card (topology_cluster_id k ` {i \<in> set (cpu_possible k). topology_cluster_id k i \<noteq> - 1}) \<le> 4"
    and "\<forall>n. kzalloc_ok n" and "i \<in> set (cpu_possible k)" "topology_cluster_id k i = - 1"
  shows "\<exists>s. lse_sched_cluster_init k kzalloc_ok (boot_clusters lrq) = Inr s \<and>
    lse_num_sched_clusters s = 0 \<and> lse_cluster_head s = [init_cluster_ptr] \<and>
    (\<forall>cpu \<in> set (cpu_possible k). lrq_cluster (cl_lrq s cpu) = Some init_cluster_ptr)"
proof -
  have "\<not> (\<forall>i \<in> set (cpu_possible k). topology_cluster_id k i \<noteq> - 1)" using assms(3,4) by blast
  with init_loop_result [OF assms(1,2), of lrq] show ?thesis
    by (auto simp: lse_sched_cluster_init_def update_cluster_topology_def)
qed

section \<open>The notifiers\<close>

lemma upd_cluster_cl:
  "cl_heap s c \<noteq> None \<Longrightarrow> cl (upd_cluster c f s) d = (if d = c then f (cl s c) else cl s d)"
  by (auto simp: cl_def upd_cluster_def)

lemma trans_loop_one:
  assumes "cl_heap s c \<noteq> None" "cpus \<noteq> []"
  shows "\<exists>s'. trans_loop (Some c) f cpus s = Inr s' \<and> cl_lrq s' = cl_lrq s \<and>
    cl s' c = (cl s c)\<lparr>cl_cur_freq := f\<rparr> \<and> (\<forall>d. d \<noteq> c \<longrightarrow> cl s' d = cl s d)"
  using assms
proof (induction "length cpus" arbitrary: cpus s rule: less_induct)
  case less
  then obtain i rest where cpus: "cpus = i # rest" by (cases cpus) auto
  let ?s = "upd_cluster c (\<lambda>x. x\<lparr>cl_cur_freq := f\<rparr>) s"
  let ?rest = "filter (\<lambda>j. j \<notin> set (cl_cpus (cl s c))) rest"
  have live: "cl_lrq ?s = cl_lrq s" "cl_heap ?s c \<noteq> None"
    using less.prems(1) by (auto simp: upd_cluster_def)
  have fields: "cl ?s c = (cl s c)\<lparr>cl_cur_freq := f\<rparr>" "d \<noteq> c \<Longrightarrow> cl ?s d = cl s d" for d
    using less.prems(1) by (simp_all add: upd_cluster_cl)
  note s = live fields
  show ?case
  proof (cases "?rest = []")
    case True
    then show ?thesis using s by (simp add: cpus)
  next
    case False
    have "length ?rest < length cpus" using length_filter_le [of _ rest] by (simp add: cpus le_imp_less_Suc)
    from less.hyps [OF this s(2) False] show ?thesis by (auto simp: cpus s)
  qed
qed

lemma notifier_trans_spec:
  assumes "new_freq \<noteq> 0" "lrq_cluster (cl_lrq s (pol_cpu p)) = Some c" "cl_heap s c \<noteq> None"
    and "freq_domain_cpumask (cl_lrq s (pol_cpu p)) \<noteq> []"
  shows "\<exists>s'. cpufreq_notifier_trans True p new_freq s = Inr (0, s') \<and>
    cl s' c = (cl s c)\<lparr>cl_cur_freq := new_freq\<rparr> \<and> (\<forall>d. d \<noteq> c \<longrightarrow> cl s' d = cl s d)"
  using trans_loop_one [OF assms(3,4), of new_freq] assms(1,2)
  by (auto simp: cpufreq_notifier_trans_def Let_def)

section \<open>Properties\<close>

text \<open>C11: With a complete topology of at most four clusters, and when every allocation succeeds, the
  initialisation succeeds and builds
  exactly one cluster per topology identifier; every possible CPU points to a cluster of the list
  whose mask is the set of the CPUs with its identifier, and which carries that identifier.\<close>

theorem clusters_match_topology:
  assumes "\<forall>i \<in> set (cpu_possible k). topology_cluster_id k i \<noteq> - 1"
    and "card (topology_ids k) \<le> 4" and "\<forall>n. kzalloc_ok n"
  shows "\<exists>s. lse_sched_cluster_init k kzalloc_ok (boot_clusters lrq) = Inr s \<and>
    lse_num_sched_clusters s = int (card (topology_ids k)) \<and>
    length (lse_cluster_head s) = card (topology_ids k) \<and> distinct (lse_cluster_head s) \<and>
    (\<forall>cpu \<in> set (cpu_possible k). \<exists>c \<in> set (lse_cluster_head s).
       lrq_cluster (cl_lrq s cpu) = Some c \<and> cl_cpus (cl s c) = siblings k cpu \<and>
       cl_id (cl s c) = topology_cluster_id k cpu)"
  by (rule cluster_init_spec [OF assms])

definition demo_lrq :: lse_rq where
  "demo_lrq = \<lparr>lrq_cluster = None, freq_domain_cpumask = [], window_start = 0, latest_clock = 0,
     prev_window_size = 0, task_exec_scale = 0, prev_runnable_sum = 0, curr_runnable_sum = 0\<rparr>"

lemma demo_topology: "topology_ids demo_kernel = {0, 1, 2}"
  "\<forall>i \<in> set (cpu_possible demo_kernel). topology_cluster_id demo_kernel i \<noteq> - 1"
proof -
  have "cpu_possible demo_kernel = [0, 1, 2, 3, 4, 5, 6, 7]" by (simp add: demo_kernel_def upt_rec)
  then show "topology_ids demo_kernel = {0, 1, 2}"
    "\<forall>i \<in> set (cpu_possible demo_kernel). topology_cluster_id demo_kernel i \<noteq> - 1"
    by (simp_all add: topology_ids_def demo_kernel_def insert_commute)
qed

theorem clusters_match_topology_witness:
  "\<exists>s. lse_sched_cluster_init demo_kernel (\<lambda>_. True) (boot_clusters (\<lambda>_. demo_lrq)) = Inr s \<and>
     lse_num_sched_clusters s = 3"
  using clusters_match_topology [OF demo_topology(2), of "\<lambda>_. True" "\<lambda>_. demo_lrq"]
  by (auto simp: demo_topology(1))

text \<open>The list is in ascending order of capacity, except that with four clusters the second and
  the third are in descending order (against what the comment at \<open>for_each_lse_cluster\<close> says).\<close>

theorem clusters_order:
  assumes "\<forall>i \<in> set (cpu_possible k). topology_cluster_id k i \<noteq> - 1"
    and "card (topology_ids k) \<le> 4" and "\<forall>n. kzalloc_ok n"
    and "lse_sched_cluster_init k kzalloc_ok (boot_clusters lrq) = Inr s"
  shows "if card (topology_ids k) = 4 then
      cluster_capacity k s (lse_cluster_head s ! 0) \<le> cluster_capacity k s (lse_cluster_head s ! 2) \<and>
      cluster_capacity k s (lse_cluster_head s ! 2) \<le> cluster_capacity k s (lse_cluster_head s ! 1) \<and>
      cluster_capacity k s (lse_cluster_head s ! 1) \<le> cluster_capacity k s (lse_cluster_head s ! 3)
    else clusters_sorted k s"
  using cluster_init_order [OF assms] by simp

theorem clusters_order_witness:
  "\<exists>s. lse_sched_cluster_init demo_kernel (\<lambda>_. True) (boot_clusters (\<lambda>_. demo_lrq)) = Inr s \<and>
     clusters_sorted demo_kernel s"
proof -
  from cluster_init_spec [OF demo_topology(2), of "\<lambda>_. True" "\<lambda>_. demo_lrq"] obtain s where
    s: "lse_sched_cluster_init demo_kernel (\<lambda>_. True) (boot_clusters (\<lambda>_. demo_lrq)) = Inr s"
    by (auto simp: demo_topology(1))
  from clusters_order [OF demo_topology(2) _ _ s] s show ?thesis
    by (auto simp: demo_topology(1))
qed

text \<open>If one possible CPU has no cluster in the topology, everything built so far is undone:
  every CPU points to \<open>init_cluster\<close>, which is the only entry of the list, and the counter of
  clusters is 0.\<close>

theorem clusters_fallback:
  assumes "card (topology_cluster_id k ` {i \<in> set (cpu_possible k). topology_cluster_id k i \<noteq> - 1}) \<le> 4"
    and "\<forall>n. kzalloc_ok n" and "i \<in> set (cpu_possible k)" "topology_cluster_id k i = - 1"
  shows "\<exists>s. lse_sched_cluster_init k kzalloc_ok (boot_clusters lrq) = Inr s \<and>
    lse_num_sched_clusters s = 0 \<and> lse_cluster_head s = [init_cluster_ptr] \<and>
    (\<forall>cpu \<in> set (cpu_possible k). lrq_cluster (cl_lrq s cpu) = Some init_cluster_ptr)"
  by (rule cluster_init_no_topology [OF assms])

definition gappy_kernel :: kernel where
  "gappy_kernel = demo_kernel\<lparr>topology_cluster_id := (\<lambda>cpu. if cpu = 7 then - 1 else 0)\<rparr>"

theorem clusters_fallback_witness:
  "\<exists>s. lse_sched_cluster_init gappy_kernel (\<lambda>_. True) (boot_clusters (\<lambda>_. demo_lrq)) = Inr s \<and>
     lrq_cluster (cl_lrq s 3) = Some init_cluster_ptr"
proof -
  have "topology_cluster_id gappy_kernel ` {i \<in> set (cpu_possible gappy_kernel). topology_cluster_id gappy_kernel i \<noteq> - 1} \<subseteq> {0}"
    by (auto simp: gappy_kernel_def demo_kernel_def split: if_splits)
  then have "card (topology_cluster_id gappy_kernel ` {i \<in> set (cpu_possible gappy_kernel). topology_cluster_id gappy_kernel i \<noteq> - 1}) \<le> 1"
    using card_mono [of "{0 :: int}"] by fastforce
  from clusters_fallback [OF order_trans [OF this], of "\<lambda>_. True" 7 "\<lambda>_. demo_lrq"]
  show ?thesis by (auto simp: gappy_kernel_def demo_kernel_def)
qed

text \<open>A topology with more than four clusters crashes the kernel at module start.\<close>

theorem clusters_crowded_bug:
  assumes "\<forall>i \<in> set (cpu_possible k). topology_cluster_id k i \<noteq> - 1" and "card (topology_ids k) > 4"
  shows "lse_sched_cluster_init k kzalloc_ok (boot_clusters lrq) = Inl Kernel_Bug"
  by (rule cluster_init_crowded [OF assms])

theorem clusters_crowded_bug_witness:
  "lse_sched_cluster_init (demo_kernel\<lparr>topology_cluster_id := int\<rparr>) (\<lambda>_. True) (boot_clusters (\<lambda>_. demo_lrq)) =
     Inl Kernel_Bug"
proof (rule clusters_crowded_bug)
  have "topology_ids (demo_kernel\<lparr>topology_cluster_id := int\<rparr>) = int ` {0..<8}"
    by (simp add: topology_ids_def demo_kernel_def)
  then show "4 < card (topology_ids (demo_kernel\<lparr>topology_cluster_id := int\<rparr>))"
    by (simp add: card_image)
qed simp

text \<open>C38: A frequency transition is recorded in one cluster only, the cluster of the CPU that manages
  the policy (\<open>policy->cpu\<close>), even when the policy's frequency domain spans several clusters: the loop over the domain
  never moves on to the other ones.\<close>

theorem trans_updates_one_cluster:
  assumes "new_freq \<noteq> 0" "lrq_cluster (cl_lrq s (pol_cpu p)) = Some c" "cl_heap s c \<noteq> None"
    and "freq_domain_cpumask (cl_lrq s (pol_cpu p)) \<noteq> []"
  shows "\<exists>s'. cpufreq_notifier_trans True p new_freq s = Inr (0, s') \<and>
    cl s' c = (cl s c)\<lparr>cl_cur_freq := new_freq\<rparr> \<and> (\<forall>d. d \<noteq> c \<longrightarrow> cl s' d = cl s d)"
  by (rule notifier_trans_spec [OF assms])

definition demo_policy :: cpufreq_policy where
  "demo_policy = \<lparr>pol_cpu = 0, pol_cpus = [0, 1], related_cpus = [0, 1], cpuinfo_min_freq = 500000,
     cpuinfo_max_freq = 2000000, pol_min = 500000, pol_max = 2000000, pol_cur = 1000000,
     fast_switch_enabled = True, dvfs_possible_from_any_cpu = False\<rparr>"

text \<open>Two one-CPU clusters in one frequency domain.\<close>

definition split_domain :: cluster_state where
  "split_domain = (boot_clusters (\<lambda>cpu. demo_lrq\<lparr>lrq_cluster := Some (cpu + 1), freq_domain_cpumask := [0, 1]\<rparr>))
     \<lparr>cl_heap := (\<lambda>c. if c = 1 then Some (init_cluster [0]) else if c = 2 then Some (init_cluster [1]) else None)\<rparr>"

theorem trans_updates_one_cluster_witness:
  "\<exists>s'. cpufreq_notifier_trans True demo_policy 1500000 split_domain = Inr (0, s') \<and>
     cl_cur_freq (cl s' 1) = 1500000 \<and> cl_cur_freq (cl s' 2) = 1"
proof -
  have "lrq_cluster (cl_lrq split_domain (pol_cpu demo_policy)) = Some 1" "cl_heap split_domain 1 \<noteq> None"
    "freq_domain_cpumask (cl_lrq split_domain (pol_cpu demo_policy)) \<noteq> []"
    by (simp_all add: split_domain_def demo_policy_def boot_clusters_def)
  from trans_updates_one_cluster [OF _ this, of 1500000] obtain s' where
    s': "cpufreq_notifier_trans True demo_policy 1500000 split_domain = Inr (0, s')"
    "cl s' 1 = (cl split_domain 1)\<lparr>cl_cur_freq := 1500000\<rparr>" "cl s' 2 = cl split_domain 2" by auto
  moreover have "cl_cur_freq (cl split_domain 2) = 1"
    by (simp add: cl_def split_domain_def init_cluster_def)
  ultimately show ?thesis by (intro exI [of _ s']) simp
qed

end
