(* ===== verification/Lse_Shadow.thy ===== *)
theory Lse_Shadow
  imports Lse_Types
begin

text \<open>
  \<open>lse_shadow_tick.c\<close>: a one-millisecond timer per CPU that advances the accounting of the running
  task between scheduler ticks.  A timer of the kernel is the CPU on which it is queued, or \<open>None\<close>
  when it is not; of \<open>hrtimer\<close> the model uses that \<open>hrtimer_start\<close> with a pinned mode queues the
  timer on the calling CPU, that \<open>hrtimer_cancel\<close> leaves it not queued, and that the callback runs
  on the CPU where the timer is queued and requeues it there when it asks for a restart.
  \<open>here\<close> is the CPU that executes an operation (\<open>smp_processor_id()\<close>).
\<close>

section \<open>State and operations\<close>

record shadow =
  highres_tick_ctrl :: u32
  highres_tick_ctrl_dbg :: u32
  lse_shadow_tick_inited :: bool
  lse_shadow_tick_timer :: "nat \<Rightarrow> nat option"
  lse_shadow_tick_armed :: "nat \<Rightarrow> bool"

definition lse_shadow_tick_enabled :: "shadow \<Rightarrow> bool" where
  "lse_shadow_tick_enabled s \<longleftrightarrow> highres_tick_ctrl s \<noteq> 0"

definition set_shadow :: "nat \<Rightarrow> nat option \<Rightarrow> bool \<Rightarrow> shadow \<Rightarrow> shadow" where
  "set_shadow cpu timer armed s =
     s\<lparr>lse_shadow_tick_timer := (lse_shadow_tick_timer s)(cpu := timer),
       lse_shadow_tick_armed := (lse_shadow_tick_armed s)(cpu := armed)\<rparr>"

definition lse_shadow_tick_stop_cpu :: "nat \<Rightarrow> shadow \<Rightarrow> shadow" where
  "lse_shadow_tick_stop_cpu cpu s =
     (if \<not> lse_shadow_tick_armed s cpu then s else set_shadow cpu None False s)"

definition lse_shadow_tick_start_cpu :: "nat \<Rightarrow> nat \<Rightarrow> shadow \<Rightarrow> shadow" where
  "lse_shadow_tick_start_cpu here cpu s =
     (if \<not> lse_shadow_tick_enabled s then lse_shadow_tick_stop_cpu cpu s
      else if lse_shadow_tick_armed s cpu then s
      else set_shadow cpu (Some here) True s)"

text \<open>What the callback does for the CPU it runs on: account the current task, or only touch the
  monitor.  The first component of the result is false for \<open>HRTIMER_NORESTART\<close>.\<close>

datatype shadow_action = Shadow_Update nat | Shadow_Touch

definition lse_shadow_tick_cb ::
  "bool \<Rightarrow> (nat \<Rightarrow> lse_task_struct option) \<Rightarrow> rq \<Rightarrow> nat \<Rightarrow> shadow
    \<Rightarrow> bool \<times> shadow_action option \<times> shadow" where
  "lse_shadow_tick_cb slim_walt_ctrl lts_of rq here s =
     (if \<not> lse_shadow_tick_enabled s \<or> \<not> slim_walt_ctrl
      then (False, None, s\<lparr>lse_shadow_tick_armed := (lse_shadow_tick_armed s)(here := False)\<rparr>)
      else
        (True,
         Some (if lts_of (rq_curr rq) \<noteq> None \<and> rq_curr rq \<noteq> rq_idle rq
               then Shadow_Update (rq_curr rq) else Shadow_Touch),
         s))"

text \<open>The expiry of the timer of CPU \<open>owner\<close>, on the CPU where it is queued.\<close>

definition shadow_tick_expire ::
  "bool \<Rightarrow> (nat \<Rightarrow> lse_task_struct option) \<Rightarrow> (nat \<Rightarrow> rq) \<Rightarrow> nat \<Rightarrow> shadow
    \<Rightarrow> shadow_action option \<times> shadow" where
  "shadow_tick_expire slim_walt_ctrl lts_of cpu_rq owner s =
     (case lse_shadow_tick_timer s owner of
        None \<Rightarrow> (None, s)
      | Some here \<Rightarrow>
          (case lse_shadow_tick_cb slim_walt_ctrl lts_of (cpu_rq here) here s of
             (restart, act, s) \<Rightarrow>
               (act, if restart then s
                     else s\<lparr>lse_shadow_tick_timer := (lse_shadow_tick_timer s)(owner := None)\<rparr>)))"

definition lse_shadow_tick_update_cpu :: "nat \<Rightarrow> rq \<Rightarrow> shadow \<Rightarrow> shadow" where
  "lse_shadow_tick_update_cpu here rq s =
     (if \<not> lse_shadow_tick_inited s then s
      else
        let cpu = rq_cpu rq in
        if \<not> lse_shadow_tick_enabled s then lse_shadow_tick_stop_cpu cpu s
        else if rq_curr rq = rq_idle rq then lse_shadow_tick_stop_cpu cpu s
        else lse_shadow_tick_start_cpu here cpu s)"

definition lse_shadow_tick_sync_all :: "kernel \<Rightarrow> (nat \<Rightarrow> rq) \<Rightarrow> nat \<Rightarrow> shadow \<Rightarrow> shadow" where
  "lse_shadow_tick_sync_all k cpu_rq here s =
     (if \<not> lse_shadow_tick_inited s then s
      else fold (\<lambda>cpu. lse_shadow_tick_update_cpu here (cpu_rq cpu))
             (filter (cpu_online k) (cpu_possible k)) s)"

definition lse_shadow_tick_init :: "kernel \<Rightarrow> shadow \<Rightarrow> shadow" where
  "lse_shadow_tick_init k s =
     (if lse_shadow_tick_inited s then s
      else (fold (\<lambda>cpu. set_shadow cpu None False) (cpu_possible k) s)\<lparr>lse_shadow_tick_inited := True\<rparr>)"

definition boot_shadow :: shadow where
  "boot_shadow =
     \<lparr>highres_tick_ctrl = 0, highres_tick_ctrl_dbg = 0, lse_shadow_tick_inited = False,
      lse_shadow_tick_timer = (\<lambda>_. None), lse_shadow_tick_armed = (\<lambda>_. False)\<rparr>"

text \<open>\<open>lse_proc_shadow_tick_update\<close> (\<open>lse_sysctl.c\<close>); \<open>proc\<close> is what the kernel's helper returned:
  an error, or the value it left in \<open>val\<close>.\<close>

definition lse_proc_shadow_tick_update ::
  "kernel \<Rightarrow> (nat \<Rightarrow> rq) \<Rightarrow> nat \<Rightarrow> bool \<Rightarrow> int + u32 \<Rightarrow> shadow \<Rightarrow> int \<times> shadow" where
  "lse_proc_shadow_tick_update k cpu_rq here write proc s =
     (case proc of
        Inl ret \<Rightarrow> (ret, s)
      | Inr val \<Rightarrow>
          (0, if write \<and> val \<noteq> highres_tick_ctrl s
              then lse_shadow_tick_sync_all k cpu_rq here (s\<lparr>highres_tick_ctrl := val\<rparr>) else s))"

section \<open>Consistency of timer and flag\<close>

definition shadow_consistent :: "shadow \<Rightarrow> bool" where
  "shadow_consistent s \<longleftrightarrow>
     (\<forall>cpu. lse_shadow_tick_timer s cpu = (if lse_shadow_tick_armed s cpu then Some cpu else None))"

text \<open>
  The steps that keep timer and flag together.  A CPU synchronises itself at every context switch;
  a sysctl write synchronises all CPUs from the CPU that makes it, and is a step here only when no
  other CPU has to start its timer.
\<close>

definition remote_quiet :: "(nat \<Rightarrow> rq) \<Rightarrow> nat \<Rightarrow> shadow \<Rightarrow> bool" where
  "remote_quiet cpu_rq here s \<longleftrightarrow>
     (\<forall>cpu. cpu \<noteq> here \<longrightarrow> rq_curr (cpu_rq cpu) = rq_idle (cpu_rq cpu) \<or> lse_shadow_tick_armed s cpu)"

inductive shadow_step :: "kernel \<Rightarrow> shadow \<Rightarrow> shadow \<Rightarrow> bool" for k where
  switch: "shadow_step k s (lse_shadow_tick_update_cpu (rq_cpu rq) rq s)"
| expire: "shadow_step k s (snd (shadow_tick_expire ctrl lts_of cpu_rq owner s))"
| sysctl: "\<forall>cpu. rq_cpu (cpu_rq cpu) = cpu \<Longrightarrow> io = Inr 0 \<or> remote_quiet cpu_rq here s \<Longrightarrow>
    shadow_step k s (snd (lse_proc_shadow_tick_update k cpu_rq here True io s))"
| debug: "shadow_step k s (s\<lparr>highres_tick_ctrl_dbg := v\<rparr>)"

lemma set_shadow_simps [simp]:
  "lse_shadow_tick_timer (set_shadow cpu t a s) = (lse_shadow_tick_timer s)(cpu := t)"
  "lse_shadow_tick_armed (set_shadow cpu t a s) = (lse_shadow_tick_armed s)(cpu := a)"
  "highres_tick_ctrl (set_shadow cpu t a s) = highres_tick_ctrl s"
  "lse_shadow_tick_inited (set_shadow cpu t a s) = lse_shadow_tick_inited s"
  by (simp_all add: set_shadow_def)

lemma stop_consistent: "shadow_consistent s \<Longrightarrow> shadow_consistent (lse_shadow_tick_stop_cpu cpu s)"
  by (simp add: lse_shadow_tick_stop_cpu_def shadow_consistent_def)

lemma start_consistent:
  "shadow_consistent s \<Longrightarrow> here = cpu \<or> lse_shadow_tick_armed s cpu \<Longrightarrow>
   shadow_consistent (lse_shadow_tick_start_cpu here cpu s)"
  by (auto simp: lse_shadow_tick_start_cpu_def stop_consistent) (auto simp: shadow_consistent_def)

lemma update_consistent:
  "shadow_consistent s \<Longrightarrow>
   here = rq_cpu rq \<or> rq_curr rq = rq_idle rq \<or> lse_shadow_tick_armed s (rq_cpu rq) \<or>
     \<not> lse_shadow_tick_enabled s \<Longrightarrow>
   shadow_consistent (lse_shadow_tick_update_cpu here rq s)"
  by (auto simp: lse_shadow_tick_update_cpu_def Let_def intro: stop_consistent start_consistent)

lemma update_other:
  "cpu \<noteq> rq_cpu rq \<Longrightarrow>
     lse_shadow_tick_armed (lse_shadow_tick_update_cpu here rq s) cpu = lse_shadow_tick_armed s cpu"
  "lse_shadow_tick_inited (lse_shadow_tick_update_cpu here rq s) = lse_shadow_tick_inited s"
  "highres_tick_ctrl (lse_shadow_tick_update_cpu here rq s) = highres_tick_ctrl s"
  by (auto simp: lse_shadow_tick_update_cpu_def lse_shadow_tick_stop_cpu_def
      lse_shadow_tick_start_cpu_def Let_def)

text \<open>What one synchronisation leaves: the timer is armed exactly on an enabled, busy CPU.\<close>

lemma update_armed:
  "lse_shadow_tick_inited s \<Longrightarrow>
   lse_shadow_tick_armed (lse_shadow_tick_update_cpu here rq s) (rq_cpu rq) \<longleftrightarrow>
     lse_shadow_tick_enabled s \<and> rq_curr rq \<noteq> rq_idle rq"
  by (simp add: lse_shadow_tick_update_cpu_def lse_shadow_tick_stop_cpu_def
      lse_shadow_tick_start_cpu_def Let_def)

lemma sync_fold_consistent:
  assumes "\<forall>cpu. rq_cpu (cpu_rq cpu) = cpu" "shadow_consistent s"
    and "\<not> lse_shadow_tick_enabled s \<or> (\<forall>cpu \<in> set cpus. cpu \<noteq> here \<longrightarrow>
      rq_curr (cpu_rq cpu) = rq_idle (cpu_rq cpu) \<or> lse_shadow_tick_armed s cpu)"
    and "distinct cpus"
  shows "shadow_consistent (fold (\<lambda>cpu. lse_shadow_tick_update_cpu here (cpu_rq cpu)) cpus s)"
  using assms(2-4)
proof (induction cpus arbitrary: s)
  case (Cons c cpus)
  let ?s = "lse_shadow_tick_update_cpu here (cpu_rq c) s"
  have "shadow_consistent ?s" using Cons.prems assms(1) by (intro update_consistent) auto
  moreover have "\<not> lse_shadow_tick_enabled ?s \<or> (\<forall>cpu \<in> set cpus. cpu \<noteq> here \<longrightarrow>
      rq_curr (cpu_rq cpu) = rq_idle (cpu_rq cpu) \<or> lse_shadow_tick_armed ?s cpu)"
  proof -
    have "lse_shadow_tick_armed ?s cpu = lse_shadow_tick_armed s cpu" if "cpu \<in> set cpus" for cpu
      using that Cons.prems(3) assms(1) by (intro update_other(1)) auto
    then show ?thesis using Cons.prems(2) by (auto simp: update_other(3) lse_shadow_tick_enabled_def)
  qed
  ultimately show ?case using Cons by simp
qed simp

lemma expire_consistent:
  "shadow_consistent s \<Longrightarrow> shadow_consistent (snd (shadow_tick_expire ctrl lts_of cpu_rq owner s))"
  by (auto simp: shadow_tick_expire_def lse_shadow_tick_cb_def shadow_consistent_def split: option.splits if_splits)

lemma shadow_step_consistent:
  assumes "shadow_step k s t" "distinct (cpu_possible k)" "shadow_consistent s"
  shows "shadow_consistent t"
  using assms
proof (induction rule: shadow_step.induct)
  case (sysctl cpu_rq io here s)
  have "shadow_consistent (lse_shadow_tick_sync_all k cpu_rq here (s\<lparr>highres_tick_ctrl := v\<rparr>))"
    if "v = 0 \<or> remote_quiet cpu_rq here s" for v
    using that sysctl
    by (auto simp: lse_shadow_tick_sync_all_def lse_shadow_tick_enabled_def remote_quiet_def
        shadow_consistent_def [of "highres_tick_ctrl_update _ _"] shadow_consistent_def [of s]
        intro!: sync_fold_consistent)
  then show ?case using sysctl by (cases io) (auto simp: lse_proc_shadow_tick_update_def)
qed (auto simp: update_consistent expire_consistent, simp add: shadow_consistent_def)

definition shadow_started :: "kernel \<Rightarrow> shadow \<Rightarrow> bool" where
  "shadow_started k s \<longleftrightarrow> distinct (cpu_possible k) \<and> s = lse_shadow_tick_init k boot_shadow"

lemma init_consistent: "shadow_consistent (lse_shadow_tick_init k boot_shadow)"
proof -
  have "shadow_consistent (fold (\<lambda>cpu. set_shadow cpu None False) cpus s)" if "shadow_consistent s" for cpus s
    using that by (induction cpus arbitrary: s) (auto simp: shadow_consistent_def)
  then have "shadow_consistent (fold (\<lambda>cpu. set_shadow cpu None False) (cpu_possible k) boot_shadow)"
    by (simp add: shadow_consistent_def boot_shadow_def)
  then show ?thesis by (simp add: lse_shadow_tick_init_def shadow_consistent_def boot_shadow_def)
qed

interpretation shadow_sys: invariant_system "shadow_started k" "shadow_step k"
  "\<lambda>s. distinct (cpu_possible k) \<and> shadow_consistent s" for k
proof unfold_locales
  fix s t
  show "shadow_started k s \<Longrightarrow> distinct (cpu_possible k) \<and> shadow_consistent s"
    by (simp add: shadow_started_def init_consistent)
  show "distinct (cpu_possible k) \<and> shadow_consistent s \<Longrightarrow> shadow_step k s t \<Longrightarrow>
      distinct (cpu_possible k) \<and> shadow_consistent t"
    using shadow_step_consistent by blast
qed

lemma sync_fold_stops:
  assumes "\<forall>cpu. rq_cpu (cpu_rq cpu) = cpu" "\<not> lse_shadow_tick_enabled s" "lse_shadow_tick_inited s"
  shows "lse_shadow_tick_armed (fold (\<lambda>cpu. lse_shadow_tick_update_cpu here (cpu_rq cpu)) cpus s) cpu \<longleftrightarrow>
    lse_shadow_tick_armed s cpu \<and> cpu \<notin> set cpus"
  using assms(2,3)
proof (induction cpus arbitrary: s)
  case (Cons c cpus)
  let ?s = "lse_shadow_tick_update_cpu here (cpu_rq c) s"
  have "\<not> lse_shadow_tick_enabled ?s" "lse_shadow_tick_inited ?s"
    using Cons.prems by (simp_all add: lse_shadow_tick_enabled_def update_other)
  moreover have "lse_shadow_tick_armed ?s cpu \<longleftrightarrow> lse_shadow_tick_armed s cpu \<and> cpu \<noteq> c"
    using update_armed [OF Cons.prems(2), of here "cpu_rq c"] update_other(1) [of cpu "cpu_rq c"] assms(1) Cons.prems(1)
    by (cases "cpu = c") auto
  ultimately show ?case using Cons.IH [of ?s] by auto
qed simp

lemma dead_timer_stays:
  assumes "\<forall>rq \<in> set rqs. rq_cpu rq = c \<and> rq_curr rq \<noteq> rq_idle rq"
    and "lse_shadow_tick_armed s c" "lse_shadow_tick_enabled s"
  shows "fold (lse_shadow_tick_update_cpu c) rqs s = s"
  using assms
  by (induction rqs arbitrary: s)
     (auto simp: lse_shadow_tick_update_cpu_def lse_shadow_tick_start_cpu_def Let_def)

lemma init_fold_armed:
  "lse_shadow_tick_armed (fold (\<lambda>c. set_shadow c None False) cpus s) cpu \<longleftrightarrow>
     lse_shadow_tick_armed s cpu \<and> cpu \<notin> set cpus"
  by (induction cpus arbitrary: s) auto

section \<open>Properties\<close>

text \<open>C18: As long as no CPU starts another CPU's timer, the timer of a CPU is queued, and on that CPU,
  exactly when its \<open>armed\<close> flag is set: no context switch, expiry or sysctl write leaves a running
  timer unflagged or a flag without a timer.\<close>

theorem shadow_timer_matches_flag:
  assumes "shadow_started k s" and "(shadow_step k)\<^sup>*\<^sup>* s t"
  shows "lse_shadow_tick_timer t cpu = (if lse_shadow_tick_armed t cpu then Some cpu else None)"
  using shadow_sys.inv_reachable [OF assms] by (simp add: shadow_consistent_def)

definition demo_shadow :: shadow where
  "demo_shadow = (lse_shadow_tick_init demo_kernel boot_shadow)\<lparr>highres_tick_ctrl := 1\<rparr>"

lemma demo_shadow_started: "shadow_started demo_kernel (lse_shadow_tick_init demo_kernel boot_shadow)"
  by (simp add: shadow_started_def demo_kernel_def)

theorem shadow_timer_matches_flag_witness:
  "lse_shadow_tick_timer (lse_shadow_tick_update_cpu 3 (demo_rq 3 5)
     (lse_shadow_tick_init demo_kernel boot_shadow)) 3 =
   (if lse_shadow_tick_armed (lse_shadow_tick_update_cpu 3 (demo_rq 3 5)
     (lse_shadow_tick_init demo_kernel boot_shadow)) 3 then Some 3 else None)"
proof (rule shadow_timer_matches_flag [OF demo_shadow_started])
  show "(shadow_step demo_kernel)\<^sup>*\<^sup>* (lse_shadow_tick_init demo_kernel boot_shadow)
     (lse_shadow_tick_update_cpu 3 (demo_rq 3 5) (lse_shadow_tick_init demo_kernel boot_shadow))"
    using shadow_step.switch [of demo_kernel _ "demo_rq 3 5"] by (auto simp: demo_rq_def)
qed

text \<open>A CPU that synchronises its own timer leaves it running exactly when the feature is on and
  the run queue's current task is not the idle task.\<close>

theorem shadow_switch_effect:
  assumes "shadow_consistent s" "lse_shadow_tick_inited s"
  shows "lse_shadow_tick_timer (lse_shadow_tick_update_cpu (rq_cpu rq) rq s) (rq_cpu rq) =
    (if lse_shadow_tick_enabled s \<and> rq_curr rq \<noteq> rq_idle rq then Some (rq_cpu rq) else None)"
  using update_consistent [OF assms(1), of "rq_cpu rq" rq] update_armed [OF assms(2), of "rq_cpu rq" rq]
  by (simp add: shadow_consistent_def)

lemma demo_shadow_props: "shadow_consistent demo_shadow" "lse_shadow_tick_inited demo_shadow"
  "lse_shadow_tick_enabled demo_shadow" "\<not> lse_shadow_tick_armed demo_shadow cpu"
proof -
  show c: "shadow_consistent demo_shadow"
    using init_consistent [of demo_kernel] by (simp add: shadow_consistent_def demo_shadow_def)
  show "lse_shadow_tick_inited demo_shadow" "lse_shadow_tick_enabled demo_shadow"
    by (simp_all add: demo_shadow_def lse_shadow_tick_init_def boot_shadow_def lse_shadow_tick_enabled_def)
  show "\<not> lse_shadow_tick_armed demo_shadow cpu"
    by (simp add: demo_shadow_def lse_shadow_tick_init_def boot_shadow_def init_fold_armed)
qed

theorem shadow_switch_effect_witness:
  "lse_shadow_tick_timer (lse_shadow_tick_update_cpu 3 (demo_rq 3 5) demo_shadow) 3 = Some 3"
  using shadow_switch_effect [OF demo_shadow_props(1,2), of "demo_rq 3 5"] demo_shadow_props(3)
  by (simp add: demo_rq_def)

text \<open>Writing 0 to \<open>scx_shadow_tick_enable\<close> stops the timer of every online CPU, whichever CPU
  the write is made on.\<close>

theorem shadow_disable_stops:
  assumes "shadow_consistent s" "lse_shadow_tick_inited s" "highres_tick_ctrl s \<noteq> 0"
    and "\<forall>cpu. rq_cpu (cpu_rq cpu) = cpu" "distinct (cpu_possible k)"
    and "cpu \<in> set (cpu_possible k)" "cpu_online k cpu"
  shows "lse_shadow_tick_timer (snd (lse_proc_shadow_tick_update k cpu_rq here True (Inr 0) s)) cpu = None"
proof -
  let ?s = "s\<lparr>highres_tick_ctrl := 0\<rparr>"
  let ?t = "fold (\<lambda>cpu. lse_shadow_tick_update_cpu here (cpu_rq cpu)) (filter (cpu_online k) (cpu_possible k)) ?s"
  have t: "snd (lse_proc_shadow_tick_update k cpu_rq here True (Inr 0) s) = ?t"
    using assms(2,3) by (simp add: lse_proc_shadow_tick_update_def lse_shadow_tick_sync_all_def)
  have "shadow_consistent ?s" using assms(1) by (simp add: shadow_consistent_def)
  then have "shadow_consistent ?t"
    using assms(4,5) by (intro sync_fold_consistent) (auto simp: lse_shadow_tick_enabled_def)
  moreover have "\<not> lse_shadow_tick_armed ?t cpu"
    using assms by (subst sync_fold_stops) (auto simp: lse_shadow_tick_enabled_def)
  ultimately show ?thesis unfolding t by (simp add: shadow_consistent_def)
qed

theorem shadow_disable_stops_witness:
  "lse_shadow_tick_timer (snd (lse_proc_shadow_tick_update demo_kernel (\<lambda>c. demo_rq c 5) 0 True (Inr 0)
     (lse_shadow_tick_update_cpu 3 (demo_rq 3 5) demo_shadow))) 3 = None"
  by (rule shadow_disable_stops)
     (use update_consistent [OF demo_shadow_props(1), of 3 "demo_rq 3 5"] in
      \<open>simp_all add: demo_rq_def update_other demo_shadow_props, simp_all add: demo_shadow_def demo_kernel_def\<close>)

text \<open>C39: The update of a busy CPU 1 that is made on CPU 0 queues the timer of CPU 1 on CPU 0.  When it then expires while \<open>slim_walt_ctrl\<close> is off, CPU 1 keeps its flag without a
  timer, and no number of context switches between busy tasks on CPU 1 starts the timer again.\<close>

theorem shadow_remote_start_dies:
  assumes "lse_shadow_tick_inited s" "lse_shadow_tick_enabled s"
    and "\<not> lse_shadow_tick_armed s 1" "rq_curr rq1 \<noteq> rq_idle rq1" "rq_cpu rq1 = 1"
    and "\<forall>rq \<in> set rqs. rq_cpu rq = 1 \<and> rq_curr rq \<noteq> rq_idle rq"
  shows "lse_shadow_tick_timer (lse_shadow_tick_update_cpu 0 rq1 s) 1 = Some 0 \<and>
    (let t = fold (lse_shadow_tick_update_cpu 1) rqs
               (snd (shadow_tick_expire False lts_of cpu_rq 1 (lse_shadow_tick_update_cpu 0 rq1 s)))
     in lse_shadow_tick_armed t 1 \<and> lse_shadow_tick_timer t 1 = None)"
proof -
  let ?a = "lse_shadow_tick_update_cpu 0 rq1 s"
  have a: "?a = set_shadow 1 (Some 0) True s"
    using assms by (simp add: lse_shadow_tick_update_cpu_def lse_shadow_tick_start_cpu_def Let_def)
  let ?b = "snd (shadow_tick_expire False lts_of cpu_rq 1 ?a)"
  have b: "lse_shadow_tick_armed ?b 1" "lse_shadow_tick_timer ?b 1 = None" "lse_shadow_tick_enabled ?b"
    using assms(2) by (simp_all add: a shadow_tick_expire_def lse_shadow_tick_cb_def lse_shadow_tick_enabled_def)
  have "fold (lse_shadow_tick_update_cpu 1) rqs ?b = ?b" by (rule dead_timer_stays [OF assms(6) b(1,3)])
  with b show ?thesis by (simp add: a Let_def)
qed

theorem shadow_remote_start_dies_witness:
  "lse_shadow_tick_timer (lse_shadow_tick_update_cpu 0 (demo_rq 1 5) demo_shadow) 1 = Some 0"
  using shadow_remote_start_dies [OF demo_shadow_props(2,3,4), of "demo_rq 1 5" "[]"]
  by (simp add: demo_rq_def)

end
