(* ===== verification/Lse_Gov.thy ===== *)
theory Lse_Gov
  imports Lse_Dsq "HOL-Library.Multiset"
begin

text \<open>
  \<open>cpufreq_lse.c\<close>: the cpufreq governor \<open>lunar_ext_gov\<close>.  The state holds the file's globals, the
  governor's object of every policy (\<open>governor_data\<close>, named by the policy it belongs to), the
  tunables objects with the list of policies attached to them, and a log of the requests made to
  the cpufreq driver and to the governor's worker thread.

  Of the cpufreq core the model uses: which policy a CPU has (\<open>cpufreq_cpu_get\<close> and
  \<open>cpufreq_cpu_get_raw\<close>), the fields of a policy, \<open>cpufreq_driver_resolve_freq\<close> (a field of
  \<open>kernel\<close>) and that an attribute set is freed when its last policy is taken off.  Results that
  depend on memory or on the driver are arguments.  The sysfs \<open>store\<close> functions get what
  \<open>kstrtoint\<close> made of the buffer: \<open>None\<close> for an error.  Trace and log output is left out.
\<close>

section \<open>Constants and state\<close>

definition LSE_GOV_RATE_LIMIT_NS :: u64 where "LSE_GOV_RATE_LIMIT_NS = 400000"
definition UTIL_CACHE_STALE_NS :: u64 where "UTIL_CACHE_STALE_NS = 16000000"
definition DEFAULT_TARGET_LOAD :: u32 where "DEFAULT_TARGET_LOAD = 90"
definition LSE_AGG_TOP2_AVG :: int where "LSE_AGG_TOP2_AVG = 1"
definition EBUSY :: int where "EBUSY = 16"
definition ENOMEM :: int where "ENOMEM = 12"
definition EINVAL_GOV :: int where "EINVAL_GOV = 22"

record lse_gov_rq =
  last_tick_ns :: u64
  curr_util :: u64
  cached_this_sum :: u64
  cached_agg_util :: u32

record lse_cluster_gov_cfg =
  cfg_target_load_base :: u32
  cfg_target_load_min :: u32
  cfg_target_load_max :: u32
  cfg_target_load_step :: u32
  cfg_window_ns :: u32
  cfg_freq_cap_max :: u32
  cfg_freq_cap_min :: u32

record lse_gov_tunables =
  target_loads :: u32
  soft_freq_max :: int
  soft_freq_min :: int
  apply_freq_immediately :: bool
  attr_policies :: "nat list"

record lse_gov_policy =
  lg_tunables :: "nat option"
  next_freq :: u32
  freq_cached :: u32
  lg_thread :: bool
  lg_cluster_id :: int
  target_load_base :: u32
  target_load_min :: u32
  target_load_max :: u32
  target_load_step :: u32
  cluster_window_ns :: u32
  cluster_freq_cap_max :: u32
  cluster_freq_cap_min :: u32
  last_agg_util :: u32
  last_power_pressure :: u32
  last_target_load_dyn :: u32
  last_freq_cap_applied :: u32

text \<open>The switches of the file, all sysctls.\<close>

record gov_ctl =
  util_norm_enable :: int
  cluster_window_enable :: int
  cluster_tl_dyn_enable :: int
  cluster_freq_cap_enable :: int
  cluster_agg_mode :: int
  gov_legacy_formula_enable :: int

datatype freq_request =
    Fast_Switch nat u32       \<comment> \<open>\<open>cpufreq_driver_fast_switch\<close>\<close>
  | Queue_Work nat            \<comment> \<open>\<open>kthread_queue_work\<close>\<close>
  | Driver_Target nat u32     \<comment> \<open>\<open>__cpufreq_driver_target\<close>\<close>

text \<open>A pointer \<open>lg_policy\<close> of a CPU is the policy and how many structures of the policy had been freed
  when it was stored (\<open>lg_freed\<close> counts them), so that it can be told from a pointer to the
  present one.\<close>

record gov =
  ctl :: gov_ctl
  gov_flag :: "int list"
  lse_cluster_cfg :: "lse_cluster_gov_cfg list"
  lse_gov_rq_data :: "nat \<Rightarrow> lse_gov_rq"
  lse_gov_cpu :: "nat \<Rightarrow> (nat \<times> nat) option"
  update_hook :: "nat \<Rightarrow> bool"
  policy_of_cpu :: "nat \<Rightarrow> nat option"
  policy_obj :: "nat \<Rightarrow> cpufreq_policy"
  governor_data :: "nat \<Rightarrow> lse_gov_policy option"
  lg_freed :: "nat \<Rightarrow> nat"
  tunables_obj :: "nat \<Rightarrow> lse_gov_tunables option"
  tunables_next :: nat
  global_tunables :: "nat option"
  cached_tunables :: "nat \<Rightarrow> lse_gov_tunables option"
  requests :: "freq_request list"

section \<open>Utilisation and target load\<close>

definition lse_get_policy_window_ns :: "gov_ctl \<Rightarrow> u32 \<Rightarrow> lse_gov_policy \<Rightarrow> u32" where
  "lse_get_policy_window_ns c ravg_window lg =
     (if cluster_window_enable c = 0 then ravg_window
      else if cluster_window_ns lg = 0 then ravg_window
      else cluster_window_ns lg)"

text \<open>\<open>min_t(u64, div64_u64(sum << SCHED_CAPACITY_SHIFT, window), SCHED_CAPACITY_SCALE)\<close>, for a
  window that is not 0.\<close>

definition sum_to_util :: "u64 \<Rightarrow> u32 \<Rightarrow> u32" where
  "sum_to_util runnable window =
     ucast (min (push_bit SCHED_CAPACITY_SHIFT runnable div ucast window) (of_nat SCHED_CAPACITY_SCALE))"

text \<open>One round of the loops that keep the two largest values.\<close>

definition top2_step :: "'a::linorder \<Rightarrow> 'a \<times> 'a \<Rightarrow> 'a \<times> 'a" where
  "top2_step x t = (case t of (top1, top2) \<Rightarrow>
     if x \<ge> top1 then (x, top1) else if x > top2 then (top1, x) else (top1, top2))"

definition lse_top2_avg_util :: "u32 \<Rightarrow> (nat \<Rightarrow> lse_rq) \<Rightarrow> nat list \<Rightarrow> u32" where
  "lse_top2_avg_util ravg_window lrq cpus =
     (let ((top1, top2), cnt) =
        fold (\<lambda>cpu (top, cnt).
          let win_ns = (if prev_window_size (lrq cpu) \<noteq> 0 then prev_window_size (lrq cpu) else ravg_window)
          in if win_ns = 0 then (top, cnt)
             else (top2_step (sum_to_util (prev_runnable_sum (lrq cpu)) win_ns) top, cnt + 1))
        cpus ((0, 0), 0 :: nat)
      in if cnt = 0 then 0 else if cnt = 1 then top1 else (top1 + top2) div 2)"

text \<open>\<open>mult_frac\<close> of the kernel, at \<open>unsigned int\<close>.\<close>

definition mult_frac :: "u32 \<Rightarrow> u32 \<Rightarrow> u32 \<Rightarrow> u32" where
  "mult_frac x numer denom = (x div denom) * numer + ((x mod denom) * numer) div denom"

definition lse_compute_power_pressure :: "cpufreq_policy \<Rightarrow> u32 \<Rightarrow> u32" where
  "lse_compute_power_pressure p agg_util =
     (let pressure = (if cpuinfo_max_freq p \<noteq> 0
                      then mult_frac (pol_cur p) 1024 (cpuinfo_max_freq p) else 0);
          pressure = (pressure + agg_util) div 2
      in min pressure 1024)"

definition lse_dynamic_target_load ::
  "gov_ctl \<Rightarrow> cpufreq_policy \<Rightarrow> u32 \<Rightarrow> lse_gov_policy \<Rightarrow> u32 \<times> lse_gov_policy" where
  "lse_dynamic_target_load c p agg_util lg =
     (let lo = target_load_min lg; hi = target_load_max lg; step = target_load_step lg;
          tl = (if target_load_base lg \<noteq> 0 then target_load_base lg else DEFAULT_TARGET_LOAD);
          tl = clamp_t tl lo hi
      in if cluster_tl_dyn_enable c = 0 then (tl, lg)
         else
           let pressure = lse_compute_power_pressure p agg_util;
               tl = (if pressure > 850 \<and> tl + step \<le> hi then tl + step
                     else if pressure < 450 \<and> tl > lo + step then tl - step
                     else tl)
           in (clamp_t tl lo hi, lg\<lparr>last_power_pressure := pressure\<rparr>))"

text \<open>\<open>lse_gov_cluster_util\<close>: \<open>now\<close> is the reading of \<open>local_clock\<close> it makes.\<close>

definition lse_gov_cluster_util ::
  "gov_ctl \<Rightarrow> u32 \<Rightarrow> (nat \<Rightarrow> lse_rq) \<Rightarrow> cpufreq_policy \<Rightarrow> nat \<Rightarrow> u64 \<Rightarrow> lse_gov_rq
    \<Rightarrow> u32 \<times> lse_gov_rq" where
  "lse_gov_cluster_util c ravg_window lrq p this_cpu now grq =
     (let this_sum = prev_runnable_sum (lrq this_cpu);
          cached = cached_this_sum grq;
          diff = (if this_sum > cached then this_sum - cached else cached - this_sum)
      in if cached_agg_util grq \<noteq> 0 \<and> cached \<noteq> 0 \<and> now - last_tick_ns grq < UTIL_CACHE_STALE_NS \<and>
            diff * 20 < cached
         then (cached_agg_util grq, grq\<lparr>cached_this_sum := this_sum\<rparr>)
         else
           let max_sum =
             (if cluster_agg_mode c = LSE_AGG_TOP2_AVG
              then (case fold (\<lambda>cpu. top2_step (prev_runnable_sum (lrq cpu))) (pol_cpus p) (0, 0) of
                      (top1, top2) \<Rightarrow> (top1 + top2) div 2)
              else fold (\<lambda>cpu m. if prev_runnable_sum (lrq cpu) > m
                                 then prev_runnable_sum (lrq cpu) else m) (pol_cpus p) 0);
             util = sum_to_util max_sum (max ravg_window 1)
           in (util, grq\<lparr>cached_this_sum := this_sum, cached_agg_util := util\<rparr>))"

section \<open>The next frequency\<close>

text \<open>\<open>soft_freq_clamp\<close> reads the tunables of the policy; a NULL pointer is a fault.\<close>

definition clamp_soft :: "lse_gov_tunables \<Rightarrow> u32 \<Rightarrow> u32" where
  "clamp_soft tn f =
     (let f = (if soft_freq_min tn \<ge> 0 \<and> word_of_int (soft_freq_min tn) > f
               then word_of_int (soft_freq_min tn) else f)
      in if soft_freq_max tn \<ge> 0 \<and> word_of_int (soft_freq_max tn) < f
         then word_of_int (soft_freq_max tn) else f)"

definition clamp_cap :: "gov_ctl \<Rightarrow> lse_gov_policy \<Rightarrow> u32 \<Rightarrow> u32" where
  "clamp_cap c lg f =
     (if cluster_freq_cap_enable c \<noteq> 0 then
        let f = (if cluster_freq_cap_max lg \<noteq> 0 \<and> f > cluster_freq_cap_max lg
                 then cluster_freq_cap_max lg else f)
        in if cluster_freq_cap_min lg \<noteq> 0 \<and> f < cluster_freq_cap_min lg
           then cluster_freq_cap_min lg else f
      else f)"

definition soft_freq_clamp ::
  "gov_ctl \<Rightarrow> lse_gov_tunables option \<Rightarrow> u32 \<Rightarrow> lse_gov_policy \<Rightarrow> fault + (u32 \<times> lse_gov_policy)" where
  "soft_freq_clamp c tunables target_freq lg =
     (case tunables of
        None \<Rightarrow> Inl Null_Deref
      | Some tn \<Rightarrow>
          let f = clamp_cap c lg (clamp_soft tn target_freq)
          in Inr (f, lg\<lparr>last_freq_cap_applied := f\<rparr>))"

text \<open>\<open>next_freq = cur * agg_util / target_load\<close>, the lowest frequency instead of 0; both paths end so.\<close>

definition scaled_freq :: "cpufreq_policy \<Rightarrow> u32 \<Rightarrow> u32 \<Rightarrow> u32 \<Rightarrow> u32" where
  "scaled_freq p freq agg_util cluster_tl =
     (let next_f = ucast ((ucast freq * ucast agg_util :: u64) div ucast (max cluster_tl 1))
      in if next_f = 0 then cpuinfo_min_freq p else next_f)"

definition get_next_freq ::
  "kernel \<Rightarrow> gov_ctl \<Rightarrow> u32 \<Rightarrow> cpufreq_policy \<Rightarrow> lse_gov_tunables option \<Rightarrow> u64 \<Rightarrow> lse_gov_policy
    \<Rightarrow> fault + (u32 \<times> lse_gov_policy)" where
  "get_next_freq k c ravg_window p tunables prev_sum lg =
     (let freq = (if pol_cur p \<noteq> 0 then pol_cur p else cpuinfo_min_freq p);
          cap = arch_scale_cpu_capacity k (case pol_cpus p of [] \<Rightarrow> nr_cpu_ids k | cpu # _ \<Rightarrow> cpu);
          cap = (if cap = 0 then 1 else cap);
          cluster_tl = DEFAULT_TARGET_LOAD;
          cluster_tl = (case tunables of None \<Rightarrow> cluster_tl | Some tn \<Rightarrow> target_loads tn);
          cluster_tl = (if target_load_base lg \<noteq> 0 then target_load_base lg else cluster_tl);
          window_ns = lse_get_policy_window_ns c ravg_window lg;
          agg_util = sum_to_util prev_sum (max window_ns 1);
          (cluster_tl, lg) = lse_dynamic_target_load c p agg_util lg;
          lg = lg\<lparr>last_target_load_dyn := cluster_tl, last_agg_util := agg_util\<rparr>
      in if gov_legacy_formula_enable c \<noteq> 0 then
           let window_size_tl = mult_frac ravg_window cluster_tl 100 in
           ebind (div64_roundup_u32 (ucast window_size_tl * cap) freq) (\<lambda>divisor.
           ebind (div64_roundup_u64 (push_bit SCHED_CAPACITY_SHIFT prev_sum) divisor) (\<lambda>next_f.
           Inr (ucast next_f, lg)))
         else Inr (scaled_freq p freq agg_util cluster_tl, lg))"

section \<open>Requests\<close>

definition set_governor_data :: "nat \<Rightarrow> lse_gov_policy \<Rightarrow> gov \<Rightarrow> gov" where
  "set_governor_data pol lg g = g\<lparr>governor_data := (governor_data g)(pol \<mapsto> lg)\<rparr>"

definition lg_tunables_obj :: "gov \<Rightarrow> lse_gov_policy \<Rightarrow> lse_gov_tunables option" where
  "lg_tunables_obj g lg = (case lg_tunables lg of None \<Rightarrow> None | Some t \<Rightarrow> tunables_obj g t)"

definition request_freq :: "gov \<Rightarrow> nat \<Rightarrow> u32 \<Rightarrow> freq_request" where
  "request_freq g pol f = (if fast_switch_enabled (policy_obj g pol) then Fast_Switch pol f else Queue_Work pol)"

text \<open>The end shared by the three update paths: nothing when the frequency is the one already
  requested, otherwise it is stored and requested.\<close>

definition commit_freq :: "nat \<Rightarrow> u32 \<Rightarrow> lse_gov_policy \<Rightarrow> gov \<Rightarrow> gov" where
  "commit_freq pol next_f lg g =
     (if next_freq lg = next_f then set_governor_data pol lg g
      else (set_governor_data pol (lg\<lparr>next_freq := next_f\<rparr>) g)
           \<lparr>requests := requests g @ [request_freq g pol next_f]\<rparr>)"

definition lse_gov_update_cpufreq ::
  "kernel \<Rightarrow> u32 \<Rightarrow> nat option \<Rightarrow> u64 \<Rightarrow> gov \<Rightarrow> fault + gov" where
  "lse_gov_update_cpufreq k ravg_window pp prev_sum g =
     (case pp of None \<Rightarrow> Inl Null_Deref | Some pol \<Rightarrow>
      (case governor_data g pol of None \<Rightarrow> Inl Null_Deref | Some lg \<Rightarrow>
        let p = policy_obj g pol; tn = lg_tunables_obj g lg in
        ebind (get_next_freq k (ctl g) ravg_window p tn prev_sum lg) (\<lambda>(next_f, lg).
        ebind (soft_freq_clamp (ctl g) tn next_f lg) (\<lambda>(next_f, lg).
        let next_f = cpufreq_driver_resolve_freq k p next_f;
            lg = lg\<lparr>freq_cached := (if next_freq lg \<noteq> 0 then next_freq lg else next_f)\<rparr>
        in Inr (commit_freq pol next_f lg g)))))"

definition lse_gov_update_soft_limit_cpufreq :: "kernel \<Rightarrow> nat \<Rightarrow> gov \<Rightarrow> fault + gov" where
  "lse_gov_update_soft_limit_cpufreq k pol g =
     (case governor_data g pol of None \<Rightarrow> Inl Null_Deref | Some lg \<Rightarrow>
        ebind (soft_freq_clamp (ctl g) (lg_tunables_obj g lg) (next_freq lg) lg) (\<lambda>(next_f, lg).
        let next_f = cpufreq_driver_resolve_freq k (policy_obj g pol) next_f
        in Inr (commit_freq pol next_f lg g)))"

text \<open>The tick path; \<open>now_ns\<close> and \<open>now2\<close> are its two readings of \<open>local_clock\<close>.\<close>

definition tick_target_load ::
  "gov_ctl \<Rightarrow> cpufreq_policy \<Rightarrow> u32 \<Rightarrow> lse_gov_policy \<Rightarrow> u32 \<times> lse_gov_policy" where
  "tick_target_load c p agg_util lg =
     (let cluster_tl = clamp_t (if target_load_base lg \<noteq> 0 then target_load_base lg
                                else DEFAULT_TARGET_LOAD) (target_load_min lg) (target_load_max lg)
      in if cluster_tl_dyn_enable c \<noteq> 0 then lse_dynamic_target_load c p agg_util lg
         else (cluster_tl, lg))"

definition dsq_boosted :: "u32 \<Rightarrow> u32 \<Rightarrow> u32" where
  "dsq_boosted agg_util dsq_boost = min (agg_util * (1024 + dsq_boost) div 1024) 1024"

definition lse_gov_tick_update ::
  "kernel \<Rightarrow> u32 \<Rightarrow> (nat \<Rightarrow> lse_rq) \<Rightarrow> dsq \<Rightarrow> u64 \<Rightarrow> u64 \<Rightarrow> rq \<Rightarrow> gov \<Rightarrow> fault + gov" where
  "lse_gov_tick_update k ravg_window lrq d now_ns now2 rq g =
     (let cpu = rq_cpu rq in
      case policy_of_cpu g cpu of None \<Rightarrow> Inr g | Some pol \<Rightarrow>
      (case governor_data g pol of None \<Rightarrow> Inr g | Some lg \<Rightarrow>
        let p = policy_obj g pol; grq = lse_gov_rq_data g cpu in
        if now_ns - last_tick_ns grq < LSE_GOV_RATE_LIMIT_NS then Inr g
        else
          let grq = grq\<lparr>last_tick_ns := now_ns\<rparr>;
              (agg_util, grq) = lse_gov_cluster_util (ctl g) ravg_window lrq p cpu now2 grq;
              grq = grq\<lparr>curr_util := ucast agg_util\<rparr>;
              g = g\<lparr>lse_gov_rq_data := (lse_gov_rq_data g)(cpu := grq)\<rparr>;
              agg_util = dsq_boosted agg_util (lse_dsq_urgency_signal d);
              (cluster_tl, lg) = tick_target_load (ctl g) p agg_util lg;
              next_f = scaled_freq p (pol_cur p) agg_util cluster_tl
          in ebind (soft_freq_clamp (ctl g) (lg_tunables_obj g lg) next_f lg) (\<lambda>(next_f, lg).
             let next_f = cpufreq_driver_resolve_freq k p next_f;
                 lg = lg\<lparr>last_agg_util := agg_util, last_target_load_dyn := cluster_tl\<rparr>
             in Inr (commit_freq pol next_f lg g))))"

text \<open>The worker's function, and the \<open>limits\<close> callback.\<close>

definition lse_gov_work :: "nat \<Rightarrow> gov \<Rightarrow> fault + gov" where
  "lse_gov_work pol g =
     (case governor_data g pol of None \<Rightarrow> Inl Null_Deref | Some lg \<Rightarrow>
        Inr (g\<lparr>requests := requests g @ [Driver_Target pol (next_freq lg)]\<rparr>))"

definition lse_gov_limits :: "kernel \<Rightarrow> nat \<Rightarrow> gov \<Rightarrow> fault + gov" where
  "lse_gov_limits k pol g =
     (let p = policy_obj g pol in
      case governor_data g pol of None \<Rightarrow> Inl Null_Deref | Some lg \<Rightarrow>
        if \<not> fast_switch_enabled p then
          \<comment> \<open>\<open>cpufreq_policy_apply_limits\<close>: a target request when the current frequency is out of range\<close>
          Inr (if pol_max p < pol_cur p then g\<lparr>requests := requests g @ [Driver_Target pol (pol_max p)]\<rparr>
               else if pol_min p > pol_cur p then g\<lparr>requests := requests g @ [Driver_Target pol (pol_min p)]\<rparr>
               else g)
        else Inr (g\<lparr>requests := requests g @
               [Fast_Switch pol (cpufreq_driver_resolve_freq k p (next_freq lg))]\<rparr>))"

text \<open>The update hook: on a window rollover every cluster of the list is updated.  With no CPU online
  \<open>cpumask_first\<close> is \<open>nr_cpu_ids\<close>, and the per-CPU variable read for it is that of no CPU.\<close>

definition cluster_prev_sum ::
  "u32 \<Rightarrow> (nat \<Rightarrow> lse_rq) \<Rightarrow> nat \<Rightarrow> nat list \<Rightarrow> gov \<Rightarrow> u64" where
  "cluster_prev_sum ravg_window lrq first_cpu online g =
     (if cluster_agg_mode (ctl g) = LSE_AGG_TOP2_AVG then
        let agg_util = lse_top2_avg_util ravg_window lrq online;
            window_ns =
              (case policy_of_cpu g first_cpu of
                 None \<Rightarrow> ravg_window
               | Some pol \<Rightarrow>
                   (case governor_data g pol of None \<Rightarrow> ravg_window
                    | Some lg \<Rightarrow> lse_get_policy_window_ns (ctl g) ravg_window lg))
        in ucast agg_util * ucast window_ns div of_nat SCHED_CAPACITY_SCALE
      else fold (\<lambda>cpu s. max s (prev_runnable_sum (lrq cpu))) online 0)"

definition update_cluster_freq ::
  "kernel \<Rightarrow> u32 \<Rightarrow> (nat \<Rightarrow> lse_rq) \<Rightarrow> lse_sched_cluster \<Rightarrow> gov \<Rightarrow> fault + gov" where
  "update_cluster_freq k ravg_window lrq cluster g =
     (if cl_id cluster < 0 \<or> cl_id cluster \<ge> MAX_LSE_CLUSTERS then Inl Out_Of_Bounds
      else if gov_flag g ! nat (cl_id cluster) = 0 then Inr g
      else
        let online = filter (cpu_online k) (cl_cpus cluster)
        in (case online of [] \<Rightarrow> Inl Out_Of_Bounds
            | cpu # _ \<Rightarrow>
                lse_gov_update_cpufreq k ravg_window (policy_of_cpu g cpu)
                  (cluster_prev_sum ravg_window lrq cpu online g) g))"

definition lsegov_update_freq ::
  "kernel \<Rightarrow> u32 \<Rightarrow> (nat \<Rightarrow> lse_rq) \<Rightarrow> lse_sched_cluster list \<Rightarrow> bool \<Rightarrow> gov \<Rightarrow> fault + gov" where
  "lsegov_update_freq k ravg_window lrq clusters window_rollover g =
     (if window_rollover then efold (update_cluster_freq k ravg_window lrq) clusters g else Inr g)"

section \<open>Tunables\<close>

definition upd_tunables :: "nat \<Rightarrow> (lse_gov_tunables \<Rightarrow> lse_gov_tunables) \<Rightarrow> gov \<Rightarrow> gov" where
  "upd_tunables t f g = g\<lparr>tunables_obj := (tunables_obj g)(t := map_option f (tunables_obj g t))\<rparr>"

text \<open>\<open>if (tunables->apply_freq_immediately)\<close>: the first policy of the attribute set is updated.\<close>

definition apply_soft_limits :: "kernel \<Rightarrow> nat \<Rightarrow> gov \<Rightarrow> fault + gov" where
  "apply_soft_limits k t g =
     (case tunables_obj g t of None \<Rightarrow> Inl Null_Deref | Some tn \<Rightarrow>
        if \<not> apply_freq_immediately tn then Inr g
        else (case attr_policies tn of [] \<Rightarrow> Inl Null_Deref
              | pol # _ \<Rightarrow> lse_gov_update_soft_limit_cpufreq k pol g))"

definition target_loads_store :: "nat \<Rightarrow> u32 option \<Rightarrow> int \<Rightarrow> gov \<Rightarrow> int \<times> gov" where
  "target_loads_store t val n g =
     (case val of None \<Rightarrow> (- EINVAL_GOV, g)
      | Some v \<Rightarrow> (n, upd_tunables t (\<lambda>tn. tn\<lparr>target_loads := v\<rparr>) g))"

text \<open>The three stores of soft limits differ in the fields they compare and set.\<close>

definition soft_limit_store ::
  "kernel \<Rightarrow> (lse_gov_tunables \<Rightarrow> int \<Rightarrow> bool) \<Rightarrow> (int \<Rightarrow> lse_gov_tunables \<Rightarrow> lse_gov_tunables)
    \<Rightarrow> nat \<Rightarrow> int option \<Rightarrow> int \<Rightarrow> gov \<Rightarrow> fault + (int \<times> gov)" where
  "soft_limit_store k same upd t val n g =
     (case val of None \<Rightarrow> Inr (- EINVAL_GOV, g)
      | Some v \<Rightarrow>
          (case tunables_obj g t of None \<Rightarrow> Inl Null_Deref | Some tn \<Rightarrow>
             if same tn v then Inr (n, g)
             else ebind (apply_soft_limits k t (upd_tunables t (upd v) g)) (\<lambda>g. Inr (n, g))))"

definition soft_freq_max_store :: "kernel \<Rightarrow> nat \<Rightarrow> int option \<Rightarrow> int \<Rightarrow> gov \<Rightarrow> fault + (int \<times> gov)" where
  "soft_freq_max_store k = soft_limit_store k (\<lambda>tn v. soft_freq_max tn = v) (\<lambda>v tn. tn\<lparr>soft_freq_max := v\<rparr>)"

definition soft_freq_min_store :: "kernel \<Rightarrow> nat \<Rightarrow> int option \<Rightarrow> int \<Rightarrow> gov \<Rightarrow> fault + (int \<times> gov)" where
  "soft_freq_min_store k = soft_limit_store k (\<lambda>tn v. soft_freq_min tn = v) (\<lambda>v tn. tn\<lparr>soft_freq_min := v\<rparr>)"

definition soft_freq_cur_store :: "kernel \<Rightarrow> nat \<Rightarrow> int option \<Rightarrow> int \<Rightarrow> gov \<Rightarrow> fault + (int \<times> gov)" where
  "soft_freq_cur_store k = soft_limit_store k (\<lambda>tn v. soft_freq_max tn = v \<and> soft_freq_min tn = v)
     (\<lambda>v tn. tn\<lparr>soft_freq_max := v, soft_freq_min := v\<rparr>)"

definition apply_freq_immediately_store :: "nat \<Rightarrow> int option \<Rightarrow> int \<Rightarrow> gov \<Rightarrow> int \<times> gov" where
  "apply_freq_immediately_store t val n g =
     (case val of None \<Rightarrow> (- EINVAL_GOV, g)
      | Some v \<Rightarrow> (n, upd_tunables t (\<lambda>tn. tn\<lparr>apply_freq_immediately := (v > 0)\<rparr>) g))"

section \<open>Life cycle\<close>

text \<open>What the kernel answers during \<open>lse_gov_init\<close>.\<close>

record gov_env =
  fast_switch_possible :: bool
  lg_alloc_ok :: bool
  kthread_ret :: int
  have_governor_per_policy :: bool
  tunables_alloc_ok :: bool
  kobject_ret :: int
  cached_alloc_ok :: bool

definition lse_gov_policy_alloc :: lse_gov_policy where
  "lse_gov_policy_alloc =
     \<lparr>lg_tunables = None, next_freq = 0, freq_cached = 0, lg_thread = False, lg_cluster_id = 0,
      target_load_base = 0, target_load_min = 0, target_load_max = 0, target_load_step = 0,
      cluster_window_ns = 0, cluster_freq_cap_max = 0, cluster_freq_cap_min = 0,
      last_agg_util = 0, last_power_pressure = 0, last_target_load_dyn = 0,
      last_freq_cap_applied = 0\<rparr>"

definition set_fast_switch :: "nat \<Rightarrow> bool \<Rightarrow> gov \<Rightarrow> gov" where
  "set_fast_switch pol b g =
     g\<lparr>policy_obj := (policy_obj g)(pol := (policy_obj g pol)\<lparr>fast_switch_enabled := b\<rparr>)\<rparr>"

definition set_dvfs_any_cpu :: "nat \<Rightarrow> gov \<Rightarrow> gov" where
  "set_dvfs_any_cpu pol g =
     g\<lparr>policy_obj := (policy_obj g)(pol := (policy_obj g pol)\<lparr>dvfs_possible_from_any_cpu := True\<rparr>)\<rparr>"

text \<open>The thread is only needed when the policy cannot switch fast.\<close>

definition lse_gov_kthread_create :: "gov_env \<Rightarrow> bool \<Rightarrow> lse_gov_policy \<Rightarrow> int \<times> lse_gov_policy" where
  "lse_gov_kthread_create env fast lg =
     (if fast then (0, lg)
      else if kthread_ret env \<noteq> 0 then (kthread_ret env, lg)
      else (0, lg\<lparr>lg_thread := True\<rparr>))"

definition lse_gov_tunables_free :: "gov_env \<Rightarrow> nat \<Rightarrow> gov \<Rightarrow> gov" where
  "lse_gov_tunables_free env t g =
     (let g = (if \<not> have_governor_per_policy env then g\<lparr>global_tunables := None\<rparr> else g)
      in g\<lparr>tunables_obj := (tunables_obj g)(t := None)\<rparr>)"

text \<open>The memory of \<open>kzalloc\<close>, and the copy that \<open>lse_gov_exit\<close> means to keep: the code stores the pointer
  for the CPUs of the policy but copies nothing.\<close>

definition zeroed_tunables :: lse_gov_tunables where
  "zeroed_tunables = \<lparr>target_loads = 0, soft_freq_max = 0, soft_freq_min = 0,
     apply_freq_immediately = False, attr_policies = []\<rparr>"

definition lse_gov_tunables_save :: "gov_env \<Rightarrow> cpufreq_policy \<Rightarrow> gov \<Rightarrow> gov" where
  "lse_gov_tunables_save env p g =
     (if cached_tunables g (pol_cpu p) \<noteq> None then g
      else if \<not> cached_alloc_ok env then g
      else fold (\<lambda>cpu g. g\<lparr>cached_tunables := (cached_tunables g)(cpu \<mapsto> zeroed_tunables)\<rparr>) (related_cpus p) g)"

definition lse_gov_init :: "gov_env \<Rightarrow> nat \<Rightarrow> gov \<Rightarrow> int \<times> gov" where
  "lse_gov_init env pol g =
     (if governor_data g pol \<noteq> None then (- EBUSY, g)
      else
        let g = set_fast_switch pol (fast_switch_possible env) g;
            undo = set_fast_switch pol False
        in if \<not> lg_alloc_ok env then (- ENOMEM, undo g)
        else
          (case lse_gov_kthread_create env (fast_switch_possible env) lse_gov_policy_alloc of (ret, lg) \<Rightarrow>
          if ret \<noteq> 0 then (ret, undo g)
          else
            (case global_tunables g of
               Some t \<Rightarrow>
                 if have_governor_per_policy env then (- EINVAL_GOV, undo g)
                 else (0, upd_tunables t (\<lambda>tn. tn\<lparr>attr_policies := pol # attr_policies tn\<rparr>)
                            (set_governor_data pol (lg\<lparr>lg_tunables := Some t\<rparr>) g))
             | None \<Rightarrow>
                 if \<not> tunables_alloc_ok env then (- ENOMEM, undo g)
                 else
                   let t = tunables_next g;
                       g = g\<lparr>tunables_next := t + 1,
                             global_tunables := (if have_governor_per_policy env then global_tunables g
                                                 else Some t),
                             tunables_obj := (tunables_obj g)(t \<mapsto>
                               \<lparr>target_loads = DEFAULT_TARGET_LOAD, soft_freq_max = - 1,
                                soft_freq_min = - 1, apply_freq_immediately = True,
                                attr_policies = [pol]\<rparr>)\<rparr>;
                       g = set_governor_data pol (lg\<lparr>lg_tunables := Some t\<rparr>) g
                   in if kobject_ret env \<noteq> 0
                      then (kobject_ret env,
                            undo (lse_gov_tunables_free env t
                              (g\<lparr>governor_data := (governor_data g)(pol := None)\<rparr>)))
                      else (0, set_dvfs_any_cpu pol g))))"

definition lse_gov_cpu_reset :: "nat list \<Rightarrow> gov \<Rightarrow> gov" where
  "lse_gov_cpu_reset cpus g = fold (\<lambda>cpu g. g\<lparr>lse_gov_cpu := (lse_gov_cpu g)(cpu := None)\<rparr>) cpus g"

text \<open>\<open>lse_gov_policy_free\<close> ends the life of the structure; \<open>Lse_Gov_Life\<close> keeps the ledger.\<close>

definition count_freed :: "nat \<Rightarrow> gov \<Rightarrow> gov" where
  "count_freed pol g = g\<lparr>lg_freed := (lg_freed g)(pol := lg_freed g pol + 1)\<rparr>"

definition lse_gov_exit :: "gov_env \<Rightarrow> nat \<Rightarrow> gov \<Rightarrow> fault + gov" where
  "lse_gov_exit env pol g =
     (case governor_data g pol of None \<Rightarrow> Inl Null_Deref | Some lg \<Rightarrow>
      (case lg_tunables lg of None \<Rightarrow> Inl Null_Deref | Some t \<Rightarrow>
      (case tunables_obj g t of None \<Rightarrow> Inl Null_Deref | Some tn \<Rightarrow>
        let left = remove1 pol (attr_policies tn);
            g = upd_tunables t (\<lambda>tn. tn\<lparr>attr_policies := left\<rparr>) g;
            g = g\<lparr>governor_data := (governor_data g)(pol := None)\<rparr>;
            g = (if left = [] then lse_gov_tunables_free env t (lse_gov_tunables_save env (policy_obj g pol) g) else g);
            g = lse_gov_cpu_reset (pol_cpus (policy_obj g pol)) g;
            g = count_freed pol g
        in Inr (set_fast_switch pol False g))))"

text \<open>\<open>topology_cluster_id\<close> assigned to an \<open>unsigned int\<close>.\<close>

definition policy_cluster_id :: "kernel \<Rightarrow> cpufreq_policy \<Rightarrow> u32" where
  "policy_cluster_id k p =
     word_of_int (topology_cluster_id k (case related_cpus p of [] \<Rightarrow> nr_cpu_ids k | c # _ \<Rightarrow> c))"

definition lse_gov_start :: "kernel \<Rightarrow> u32 \<Rightarrow> nat \<Rightarrow> gov \<Rightarrow> fault + gov" where
  "lse_gov_start k ravg_window pol g =
     (let p = policy_obj g pol in
      case governor_data g pol of None \<Rightarrow> Inl Null_Deref | Some lg \<Rightarrow>
        let lg = lg\<lparr>next_freq := 0\<rparr>;
            g = fold (\<lambda>cpu g. g\<lparr>lse_gov_cpu := (lse_gov_cpu g)(cpu := Some (pol, lg_freed g pol)),
                                update_hook := (update_hook g)(cpu := True)\<rparr>) (pol_cpus p) g;
            cluster_id = policy_cluster_id k p;
            lg = lg\<lparr>lg_cluster_id := sint cluster_id, target_load_base := DEFAULT_TARGET_LOAD,
                    target_load_min := 70, target_load_max := 95, target_load_step := 2,
                    cluster_window_ns := ravg_window,
                    cluster_freq_cap_max := cpuinfo_max_freq p,
                    cluster_freq_cap_min := cpuinfo_min_freq p\<rparr>;
            cfg = \<lparr>cfg_target_load_base = target_load_base lg, cfg_target_load_min = target_load_min lg,
                   cfg_target_load_max = target_load_max lg, cfg_target_load_step = target_load_step lg,
                   cfg_window_ns = cluster_window_ns lg, cfg_freq_cap_max = cluster_freq_cap_max lg,
                   cfg_freq_cap_min = cluster_freq_cap_min lg\<rparr>;
            g = set_governor_data pol lg g
        in Inr (if unat cluster_id < nat MAX_LSE_CLUSTERS
                then g\<lparr>lse_cluster_cfg := (lse_cluster_cfg g)[unat cluster_id := cfg],
                       gov_flag := (gov_flag g)[unat cluster_id := 1]\<rparr>
                else g))"

text \<open>What \<open>lse_gov_stop\<close> changes; where the policy has a worker, its pointer is followed to cancel the work.\<close>

definition gov_stopped :: "kernel \<Rightarrow> nat \<Rightarrow> gov \<Rightarrow> gov" where
  "gov_stopped k pol g =
     (let p = policy_obj g pol;
          g = fold (\<lambda>cpu g. g\<lparr>update_hook := (update_hook g)(cpu := False)\<rparr>) (pol_cpus p) g;
          cluster_id = policy_cluster_id k p
      in if unat cluster_id < nat MAX_LSE_CLUSTERS
         then g\<lparr>gov_flag := (gov_flag g)[unat cluster_id := 0]\<rparr> else g)"

definition lse_gov_stop :: "kernel \<Rightarrow> nat \<Rightarrow> gov \<Rightarrow> fault + gov" where
  "lse_gov_stop k pol g =
     (if \<not> fast_switch_enabled (policy_obj g pol) \<and> governor_data g pol = None then Inl Null_Deref
      else Inr (gov_stopped k pol g))"

section \<open>Accessors\<close>

text \<open>\<open>lse_gov_policy_from_cpu\<close> returns the pointer of the CPU as it is; each reading follows it, which is
  a fault when the structure has been freed.\<close>

definition lse_gov_policy_from_cpu :: "kernel \<Rightarrow> gov \<Rightarrow> int \<Rightarrow> (nat \<times> nat) option" where
  "lse_gov_policy_from_cpu k g cpu = (if cpu < 0 \<or> cpu \<ge> int (nr_cpu_ids k) then None else lse_gov_cpu g (nat cpu))"

definition lg_deref :: "gov \<Rightarrow> nat \<times> nat \<Rightarrow> fault + lse_gov_policy" where
  "lg_deref g ptr =
     (case ptr of (pol, freed) \<Rightarrow>
        (case governor_data g pol of None \<Rightarrow> Inl Use_After_Free
         | Some lg \<Rightarrow> if freed = lg_freed g pol then Inr lg else Inl Use_After_Free))"

definition lse_gov_cluster_window_ns :: "kernel \<Rightarrow> u32 \<Rightarrow> gov \<Rightarrow> int \<Rightarrow> fault + u32" where
  "lse_gov_cluster_window_ns k ravg_window g cpu =
     (case lse_gov_policy_from_cpu k g cpu of None \<Rightarrow> Inr ravg_window
      | Some ptr \<Rightarrow> ebind (lg_deref g ptr) (\<lambda>lg. Inr (cluster_window_ns lg)))"

definition lse_gov_cluster_target_load_dyn :: "kernel \<Rightarrow> gov \<Rightarrow> int \<Rightarrow> fault + u32" where
  "lse_gov_cluster_target_load_dyn k g cpu =
     (case lse_gov_policy_from_cpu k g cpu of None \<Rightarrow> Inr DEFAULT_TARGET_LOAD
      | Some ptr \<Rightarrow> ebind (lg_deref g ptr) (\<lambda>lg.
          Inr (if last_target_load_dyn lg \<noteq> 0 then last_target_load_dyn lg else target_load_base lg)))"

definition lse_gov_cluster_agg_util :: "kernel \<Rightarrow> gov \<Rightarrow> int \<Rightarrow> fault + u32" where
  "lse_gov_cluster_agg_util k g cpu =
     (case lse_gov_policy_from_cpu k g cpu of None \<Rightarrow> Inr 0
      | Some ptr \<Rightarrow> ebind (lg_deref g ptr) (\<lambda>lg. Inr (last_agg_util lg)))"

definition lse_gov_cluster_freq_cap_applied :: "kernel \<Rightarrow> gov \<Rightarrow> int \<Rightarrow> fault + u32" where
  "lse_gov_cluster_freq_cap_applied k g cpu =
     (case lse_gov_policy_from_cpu k g cpu of None \<Rightarrow> Inr 0
      | Some ptr \<Rightarrow> ebind (lg_deref g ptr) (\<lambda>lg. Inr (last_freq_cap_applied lg)))"

definition lse_gov_cluster_power_pressure :: "kernel \<Rightarrow> gov \<Rightarrow> int \<Rightarrow> fault + u32" where
  "lse_gov_cluster_power_pressure k g cpu =
     (case lse_gov_policy_from_cpu k g cpu of None \<Rightarrow> Inr 0
      | Some ptr \<Rightarrow> ebind (lg_deref g ptr) (\<lambda>lg. Inr (last_power_pressure lg)))"

section \<open>Limiting a frequency\<close>

text \<open>What the update paths rely on: the limits clamp a frequency to an interval.\<close>

locale limiter =
  fixes lim :: "u32 \<Rightarrow> u32" and lo hi :: u32
  assumes lo_le_hi: "lo \<le> hi"
    and lim_eq: "lim f = clamp_t f lo hi"
begin

lemma lim_bounds: "lo \<le> lim f" "lim f \<le> hi"
  using lo_le_hi by (auto simp: lim_eq clamp_t_def)

lemma lim_id: "lo \<le> f \<Longrightarrow> f \<le> hi \<Longrightarrow> lim f = f"
  by (simp add: lim_eq clamp_t_def)

lemma lim_idem: "lim (lim f) = lim f"
  by (rule lim_id) (rule lim_bounds)+

lemma lim_mono: "f \<le> g \<Longrightarrow> lim f \<le> lim g"
  by (auto simp: lim_eq clamp_t_def min_def max_def)

end

definition limit_freq :: "gov_ctl \<Rightarrow> lse_gov_tunables \<Rightarrow> lse_gov_policy \<Rightarrow> u32 \<Rightarrow> u32" where
  "limit_freq c tn lg f = clamp_cap c lg (clamp_soft tn f)"

definition freq_lo :: "gov_ctl \<Rightarrow> lse_gov_tunables \<Rightarrow> lse_gov_policy \<Rightarrow> u32" where
  "freq_lo c tn lg = limit_freq c tn lg 0"

definition freq_hi :: "gov_ctl \<Rightarrow> lse_gov_tunables \<Rightarrow> lse_gov_policy \<Rightarrow> u32" where
  "freq_hi c tn lg = limit_freq c tn lg (- 1)"

lemma clamp_t_bounds: "lo \<le> hi \<Longrightarrow> lo \<le> clamp_t f lo hi \<and> clamp_t f lo hi \<le> hi"
  by (auto simp: clamp_t_def)

lemma clamp_t_compose:
  "l1 \<le> h1 \<Longrightarrow> l2 \<le> h2 \<Longrightarrow>
   clamp_t (clamp_t f l1 h1) l2 h2 = clamp_t f (clamp_t l1 l2 h2) (clamp_t h1 l2 h2)"
  by (auto simp: clamp_t_def min_def max_def)

lemma clamp_t_mono: "f \<le> g \<Longrightarrow> clamp_t f lo hi \<le> clamp_t g lo hi"
  by (auto simp: clamp_t_def min_def max_def)

definition soft_lo :: "lse_gov_tunables \<Rightarrow> u32" where
  "soft_lo tn = (if soft_freq_min tn \<ge> 0 then word_of_int (soft_freq_min tn) else 0)"

definition soft_hi :: "lse_gov_tunables \<Rightarrow> u32" where
  "soft_hi tn = (if soft_freq_max tn \<ge> 0 then word_of_int (soft_freq_max tn) else - 1)"

lemma u32_max [simp]: "(x :: u32) \<le> - 1"
  by simp

lemma clamp_soft_eq: "clamp_soft tn f = clamp_t f (min (soft_lo tn) (soft_hi tn)) (soft_hi tn)"
proof -
  have "clamp_soft tn f = min (max f (soft_lo tn)) (soft_hi tn)"
    by (auto simp: clamp_soft_def soft_lo_def soft_hi_def Let_def min_def max_def word_le_def [of _ "- 1"] not_le not_less)
  then show ?thesis by (auto simp: clamp_t_def min_def max_def)
qed

definition cap_lo :: "gov_ctl \<Rightarrow> lse_gov_policy \<Rightarrow> u32" where
  "cap_lo c lg = (if cluster_freq_cap_enable c \<noteq> 0 then cluster_freq_cap_min lg else 0)"

definition cap_hi :: "gov_ctl \<Rightarrow> lse_gov_policy \<Rightarrow> u32" where
  "cap_hi c lg =
     (if cluster_freq_cap_enable c \<noteq> 0 \<and> cluster_freq_cap_max lg \<noteq> 0 then cluster_freq_cap_max lg else - 1)"

lemma clamp_cap_eq: "clamp_cap c lg f = clamp_t f (cap_lo c lg) (max (cap_lo c lg) (cap_hi c lg))"
proof -
  let ?lo = "cluster_freq_cap_min lg" and ?hi = "cluster_freq_cap_max lg"
  have clip: "(if ?hi \<noteq> 0 \<and> f > ?hi then ?hi else f) = min f (if ?hi \<noteq> 0 then ?hi else - 1)" for f
    by (simp add: min.commute [of f] min_def leD not_less [symmetric] del: not_less)
  have lift: "(if ?lo \<noteq> 0 \<and> f < ?lo then ?lo else f) = max f ?lo" for f
    by (cases "f < ?lo") (auto simp: max_def not_less)
  have "clamp_cap c lg f = max (cap_lo c lg) (min f (cap_hi c lg))"
    unfolding clamp_cap_def cap_lo_def cap_hi_def Let_def clip lift by (simp add: min_absorb1 [OF u32_max] max.commute)
  then show ?thesis by (simp add: clamp_t_def max_min_distrib2 max.commute)
qed

lemma limit_freq_clamp: "limit_freq c tn lg f = clamp_t f (freq_lo c tn lg) (freq_hi c tn lg)"
  "freq_lo c tn lg \<le> freq_hi c tn lg"
proof -
  have lo: "clamp_soft tn 0 = min (soft_lo tn) (soft_hi tn)"
    and hi: "clamp_soft tn (- 1) = soft_hi tn"
    unfolding clamp_soft_eq clamp_t_def
    by (simp_all add: max_absorb1 [OF u32_max] min_absorb2 [OF u32_max] max_absorb2 min.assoc)
  show "limit_freq c tn lg f = clamp_t f (freq_lo c tn lg) (freq_hi c tn lg)"
    unfolding freq_lo_def freq_hi_def limit_freq_def lo hi
    unfolding clamp_soft_eq clamp_cap_eq by (rule clamp_t_compose) simp_all
  show "freq_lo c tn lg \<le> freq_hi c tn lg"
    unfolding freq_lo_def freq_hi_def limit_freq_def lo hi
    unfolding clamp_cap_eq by (rule clamp_t_mono) simp
qed

interpretation freq_limit: limiter "limit_freq c tn lg" "freq_lo c tn lg" "freq_hi c tn lg" for c tn lg
  by unfold_locales (rule limit_freq_clamp)+

lemma soft_freq_clamp_eq:
  "soft_freq_clamp c (Some tn) f lg = Inr (limit_freq c tn lg f, lg\<lparr>last_freq_cap_applied := limit_freq c tn lg f\<rparr>)"
  by (simp add: soft_freq_clamp_def limit_freq_def Let_def)

text \<open>The caps always win; the soft limits hold as far as the caps allow.\<close>

lemma limit_freq_caps:
  assumes "cluster_freq_cap_enable c \<noteq> 0" "cluster_freq_cap_max lg \<noteq> 0"
    and "cluster_freq_cap_min lg \<le> cluster_freq_cap_max lg"
  shows "cluster_freq_cap_min lg \<le> limit_freq c tn lg f" "limit_freq c tn lg f \<le> cluster_freq_cap_max lg"
  using clamp_t_bounds [of "cap_lo c lg" "max (cap_lo c lg) (cap_hi c lg)" "clamp_soft tn f"] assms
  by (simp_all add: limit_freq_def clamp_cap_eq cap_lo_def cap_hi_def max_def)

lemma limit_freq_soft:
  assumes "0 \<le> soft_freq_min tn" "soft_freq_min tn \<le> soft_freq_max tn" "soft_freq_max tn < 2 ^ 31"
    and "cap_lo c lg \<le> word_of_int (soft_freq_min tn)" "word_of_int (soft_freq_max tn) \<le> cap_hi c lg"
  shows "limit_freq c tn lg f = clamp_t f (word_of_int (soft_freq_min tn)) (word_of_int (soft_freq_max tn))"
proof -
  let ?a = "word_of_int (soft_freq_min tn) :: u32" and ?b = "word_of_int (soft_freq_max tn) :: u32"
  have ab: "?a \<le> ?b"
    using assms(1-3) by (simp add: word_le_def uint_word_of_int)
  have "clamp_soft tn f = clamp_t f ?a ?b"
    using ab assms(1,2) by (simp add: clamp_soft_eq soft_lo_def soft_hi_def min_def)
  moreover have "?a \<le> clamp_t f ?a ?b" "clamp_t f ?a ?b \<le> ?b" using clamp_t_bounds [OF ab] by auto
  ultimately show ?thesis using assms(4,5)
    by (auto simp: limit_freq_def clamp_cap_eq clamp_t_def [of _ "cap_lo c lg"] max_def min_def)
qed

section \<open>Target load\<close>

lemma dynamic_target_load_bounds:
  "target_load_min lg \<le> target_load_max lg \<Longrightarrow>
   target_load_min lg \<le> fst (lse_dynamic_target_load c p u lg) \<and>
   fst (lse_dynamic_target_load c p u lg) \<le> target_load_max lg"
  by (simp add: lse_dynamic_target_load_def Let_def clamp_t_bounds)

lemma dynamic_target_load_frame:
  "\<exists>x. snd (lse_dynamic_target_load c p u lg) = lg\<lparr>last_power_pressure := x\<rparr>"
proof (cases "cluster_tl_dyn_enable c = 0")
  case True
  then show ?thesis by (intro exI [of _ "last_power_pressure lg"]) (simp add: lse_dynamic_target_load_def Let_def)
next
  case False
  then show ?thesis by (auto simp: lse_dynamic_target_load_def Let_def)
qed

text \<open>With the values \<open>lse_gov_start\<close> sets, only three target loads occur.\<close>

definition started_loads :: "lse_gov_policy \<Rightarrow> bool" where
  "started_loads lg \<longleftrightarrow> target_load_base lg = 90 \<and> target_load_min lg = 70 \<and>
     target_load_max lg = 95 \<and> target_load_step lg = 2"

lemma started_target_load:
  "started_loads lg \<Longrightarrow> fst (lse_dynamic_target_load c p u lg) \<in> {88, 90, 92}"
  by (simp add: started_loads_def lse_dynamic_target_load_def Let_def clamp_t_def)

text \<open>The tunable \<open>target_loads\<close> has no influence.\<close>

lemma get_next_freq_target_loads:
  "get_next_freq k c W p (Some (tn\<lparr>target_loads := x\<rparr>)) s lg = get_next_freq k c W p (Some tn) s lg"
  by (simp add: get_next_freq_def)

lemma get_next_freq_keeps:
  assumes "get_next_freq k c W p tn s lg = Inr (f, lg')"
  shows "lg_tunables lg' = lg_tunables lg" "next_freq lg' = next_freq lg"
    "cluster_freq_cap_max lg' = cluster_freq_cap_max lg" "cluster_freq_cap_min lg' = cluster_freq_cap_min lg"
    "target_load_base lg' = target_load_base lg"
proof -
  define u where "u = sum_to_util s (max (lse_get_policy_window_ns c W lg) 1)"
  obtain tl x where d: "lse_dynamic_target_load c p u lg = (tl, lg\<lparr>last_power_pressure := x\<rparr>)"
    using dynamic_target_load_frame [of c p u lg] by (metis prod.collapse)
  have "lg' = lg\<lparr>last_power_pressure := x, last_target_load_dyn := tl, last_agg_util := u\<rparr>"
    using assms by (auto simp: get_next_freq_def Let_def u_def [symmetric] d ebind_eq_Inr split: if_splits)
  then show "lg_tunables lg' = lg_tunables lg" "next_freq lg' = next_freq lg"
    "cluster_freq_cap_max lg' = cluster_freq_cap_max lg" "cluster_freq_cap_min lg' = cluster_freq_cap_min lg"
    "target_load_base lg' = target_load_base lg" by simp_all
qed

lemma get_next_freq_agg_util:
  assumes "get_next_freq k c W p tn s lg = Inr (f, lg')"
  shows "last_agg_util lg' = sum_to_util s (max (lse_get_policy_window_ns c W lg) 1)"
  using assms unfolding get_next_freq_def Let_def split_def
  by (auto simp: ebind_eq_Inr split: if_splits)

lemma get_next_freq_total:
  "gov_legacy_formula_enable c = 0 \<Longrightarrow> \<exists>f lg'. get_next_freq k c W p tn s lg = Inr (f, lg')"
  by (simp add: get_next_freq_def Let_def split: prod.split)

text \<open>The legacy formula divides by the current frequency and by a value made of the window, the target
  load and the capacity.\<close>

lemma get_next_freq_fault:
  assumes "get_next_freq k c W p tn s lg = Inl f"
  shows "f = Div_By_Zero \<and> gov_legacy_formula_enable c \<noteq> 0"
proof -
  have div: "div64_roundup_u32 x y = Inl f \<Longrightarrow> f = Div_By_Zero" "div64_roundup_u64 x z = Inl f \<Longrightarrow> f = Div_By_Zero"
    for x z :: u64 and y :: u32
    by (auto simp: div64_roundup_u32_def div64_roundup_u64_def div64_u64_def split: if_splits)
  show ?thesis
    using assms by (auto simp: get_next_freq_def Let_def ebind_def dest: div split: prod.splits if_splits sum.splits)
qed

lemma mult_frac_pos:
  fixes W tl :: u32
  assumes W: "100 \<le> unat W" and tl: "0 < unat tl" "unat tl \<le> 95"
  shows "0 < unat (mult_frac W tl 100)"
proof -
  have hi: "unat W div 100 * unat tl \<le> unat W div 100 * 95" and lo: "unat W mod 100 * unat tl \<le> 99 * 95"
    using tl(2) by (intro mult_le_mono; simp)+
  have "unat W div 100 * 95 \<le> 4080218840" using u32_bound [of W] by simp
  then have le: "unat W div 100 * unat tl \<le> 4080218840" by (rule order_trans [OF hi])
  have lt: "unat W mod 100 * unat tl < 2 ^ 32" by (rule le_less_trans [OF lo]) simp
  have a: "unat ((W div 100) * tl) = unat W div 100 * unat tl"
    using le by (simp add: unat_mult_lem [THEN iffD1] unat_div)
  have b: "unat ((W mod 100) * tl div 100) = unat W mod 100 * unat tl div 100"
    using lt by (simp add: unat_word_ariths unat_div unat_mod)
  have "unat W mod 100 * unat tl div 100 \<le> 99" using lo by linarith
  from add_le_mono [OF le this] have "unat ((W div 100) * tl) + unat ((W mod 100) * tl div 100) < 2 ^ 32"
    unfolding a b by (rule le_less_trans) simp
  then have "unat (mult_frac W tl 100) = unat W div 100 * unat tl + unat W mod 100 * unat tl div 100"
    using unat_add_lem [of "(W div 100) * tl" "(W mod 100) * tl div 100"] a b by (simp add: mult_frac_def)
  moreover have "0 < unat W div 100" using W by (simp add: div_greater_zero_iff)
  ultimately show ?thesis using tl(1) by simp
qed

lemma div64_roundup_u32_pos:
  assumes "y \<noteq> 0" "0 < unat x" "unat x < 2 ^ 63"
  shows "\<exists>q. div64_roundup_u32 x y = Inr q \<and> q \<noteq> 0"
proof -
  have y: "unat (y - 1) = unat y - 1" "0 < unat y"
    using assms(1) by (simp_all add: unat_sub word_le_nat_alt unat_gt_0 Suc_le_eq)
  have "unat (x + ucast (y - 1)) = unat x + (unat y - 1)"
    using assms(3) u32_bound [of y] by (simp add: unat_u64_add y(1))
  then have "0 < unat ((x + ucast (y - 1)) div ucast y)"
    using assms(2) y(2) by (simp add: unat_div div_greater_zero_iff)
  then have "(x + ucast (y - 1)) div ucast y \<noteq> 0" by (simp add: unat_gt_0)
  moreover have "(ucast y :: u64) \<noteq> 0" using assms(1) by (simp add: unat_eq_0 [symmetric])
  ultimately show ?thesis by (simp add: div64_roundup_u32_def div64_u64_def)
qed

lemma get_next_freq_legacy_total:
  assumes "started_loads lg" "100 \<le> unat W" "pol_cur p \<noteq> 0 \<or> cpuinfo_min_freq p \<noteq> 0"
    and cap: "\<forall>cpu. unat (arch_scale_cpu_capacity k cpu) \<le> 1024"
  shows "\<exists>r. get_next_freq k c W p tn s lg = Inr r"
proof (cases "gov_legacy_formula_enable c = 0")
  case True
  then show ?thesis using get_next_freq_total by blast
next
  case False
  define freq where "freq = (if pol_cur p \<noteq> 0 then pol_cur p else cpuinfo_min_freq p)"
  define cap where "cap = arch_scale_cpu_capacity k (case pol_cpus p of [] \<Rightarrow> nr_cpu_ids k | cpu # _ \<Rightarrow> cpu)"
  define cap1 where "cap1 = (if cap = 0 then 1 else cap)"
  define u where "u = sum_to_util s (max (lse_get_policy_window_ns c W lg) 1)"
  obtain tl x where d: "lse_dynamic_target_load c p u lg = (tl, x)" by fastforce
  have tl: "tl \<in> {88, 90, 92}" using started_target_load [OF assms(1), of c p u] by (simp add: d)
  then have tlu: "0 < unat tl" "unat tl \<le> 95" by auto
  have w: "0 < unat (mult_frac W tl 100)" "unat (mult_frac W tl 100) < 2 ^ 32"
    using mult_frac_pos [OF assms(2) tlu] u32_bound by auto
  have c1: "0 < unat cap1" "unat cap1 \<le> 1024"
    using assms(4) by (simp_all add: cap1_def cap_def unat_gt_0)
  have le: "unat (mult_frac W tl 100) * unat cap1 \<le> 2 ^ 32 * 1024" using w c1 by (intro mult_le_mono) simp_all
  then have "unat (ucast (mult_frac W tl 100) * cap1 :: u64) = unat (mult_frac W tl 100) * unat cap1"
    by (intro unat_u64_mult [THEN trans]) auto
  then have "0 < unat (ucast (mult_frac W tl 100) * cap1 :: u64)" "unat (ucast (mult_frac W tl 100) * cap1 :: u64) < 2 ^ 63"
    using w(1) c1(1) le by simp_all
  moreover have "freq \<noteq> 0" using assms(3) by (auto simp: freq_def)
  ultimately obtain q where q: "div64_roundup_u32 (ucast (mult_frac W tl 100) * cap1) freq = Inr q" "q \<noteq> 0"
    using div64_roundup_u32_pos by blast
  have "div64_roundup_u64 y q = Inr ((y + (q - 1)) div q)" for y
    using q(2) by (simp add: div64_roundup_u64_def div64_u64_def)
  then show ?thesis using False q(1)
    by (simp add: get_next_freq_def Let_def freq_def [symmetric] cap_def [symmetric] cap1_def [symmetric] u_def [symmetric] d)
qed

text \<open>The utilisation is out of 1024, the target load out of 100: from a tenth of the capacity on,
  the frequency never goes down.\<close>

lemma next_freq_not_lower:
  fixes f load u :: u32
  assumes tl: "0 < load" "load \<le> u" "unat u \<le> 1024" and f: "unat (f :: u32) < 2 ^ 22"
  shows "f \<le> ucast ((ucast f * ucast u :: u64) div ucast (max load 1))"
proof -
  have "1 \<le> load" using tl(1) by (simp add: word_le_nat_alt word_less_nat_alt Suc_leI)
  then have tl1: "max load 1 = load" by (rule max_absorb1)
  have "unat f * unat u \<le> 2 ^ 22 * 1024" using f tl(3) by (intro mult_le_mono) simp_all
  then have prod: "unat (ucast f * ucast u :: u64) = unat f * unat u" by (intro unat_u64_mult [THEN trans]) auto
  have pos: "0 < unat load" using tl(1) by (simp add: word_less_nat_alt)
  have ge: "unat f \<le> unat f * unat u div unat load"
    using tl(2) pos by (simp add: less_eq_div_iff_mult_less_eq word_le_nat_alt)
  have "unat f * unat u div unat load \<le> 2 ^ 22 * 1024 - 1"
  proof -
    have "unat f * unat u \<le> (2 ^ 22 - 1) * 1024" using f tl(3) by (intro mult_le_mono) simp_all
    then have "unat f * unat u div unat load \<le> (2 ^ 22 - 1) * 1024"
      by (rule order_trans [OF div_le_dividend])
    then show ?thesis by simp
  qed
  then have "unat (ucast ((ucast f * ucast u :: u64) div ucast (max load 1)) :: u32) = unat f * unat u div unat load"
    by (simp add: tl1 unat_u32_of_u64 unat_div prod)
  with ge show ?thesis by (simp add: word_le_nat_alt)
qed

section \<open>The update paths\<close>

lemma limit_freq_cong:
  "cluster_freq_cap_max lg' = cluster_freq_cap_max lg \<Longrightarrow>
   cluster_freq_cap_min lg' = cluster_freq_cap_min lg \<Longrightarrow> limit_freq c tn lg' f = limit_freq c tn lg f"
  by (simp add: limit_freq_def clamp_cap_def Let_def)

definition gov_ready :: "gov \<Rightarrow> nat \<Rightarrow> bool" where
  "gov_ready g pol \<longleftrightarrow> (\<exists>lg. governor_data g pol = Some lg \<and> lg_tunables_obj g lg \<noteq> None)"

lemma commit_freq_simps [simp]:
  "ctl (commit_freq pol f lg g) = ctl g"
  "gov_flag (commit_freq pol f lg g) = gov_flag g"
  "policy_of_cpu (commit_freq pol f lg g) = policy_of_cpu g"
  "policy_obj (commit_freq pol f lg g) = policy_obj g"
  "tunables_obj (commit_freq pol f lg g) = tunables_obj g"
  "lse_gov_rq_data (commit_freq pol f lg g) = lse_gov_rq_data g"
  "global_tunables (commit_freq pol f lg g) = global_tunables g"
  "tunables_next (commit_freq pol f lg g) = tunables_next g"
  "lse_gov_cpu (commit_freq pol f lg g) = lse_gov_cpu g"
  "lg_freed (commit_freq pol f lg g) = lg_freed g"
  by (simp_all add: commit_freq_def set_governor_data_def)

lemma commit_freq_result:
  "governor_data (commit_freq pol f lg g) =
     (governor_data g)(pol \<mapsto> lg\<lparr>next_freq := f\<rparr>)"
  "requests (commit_freq pol f lg g) =
     requests g @ (if next_freq lg = f then [] else [request_freq g pol f])"
  by (auto simp: commit_freq_def set_governor_data_def)

lemma lg_tunables_obj_cong:
  "tunables_obj g' = tunables_obj g \<Longrightarrow> lg_tunables lg' = lg_tunables lg \<Longrightarrow>
   lg_tunables_obj g' lg' = lg_tunables_obj g lg"
  by (simp add: lg_tunables_obj_def split: option.split)

lemma commit_ready:
  assumes "gov_ready g pol'" "governor_data g pol = Some lg" "lg_tunables lg' = lg_tunables lg"
  shows "gov_ready (commit_freq pol f lg' g) pol'"
proof -
  have "lg_tunables_obj (commit_freq pol f lg' g) x = lg_tunables_obj g x" for x
    by (rule lg_tunables_obj_cong) simp_all
  moreover have "lg_tunables_obj g (lg'\<lparr>next_freq := f\<rparr>) = lg_tunables_obj g lg"
    using assms(3) by (simp add: lg_tunables_obj_def)
  ultimately show ?thesis using assms(1,2) by (auto simp: gov_ready_def commit_freq_result)
qed

lemma update_cpufreq_spec:
  assumes lg: "governor_data g pol = Some lg" "lg_tunables_obj g lg = Some tn"
    and raw: "get_next_freq k (ctl g) W (policy_obj g pol) (Some tn) s lg = Inr (raw, lg1)"
  shows "\<exists>lg'. lse_gov_update_cpufreq k W (Some pol) s g =
      Inr (commit_freq pol (cpufreq_driver_resolve_freq k (policy_obj g pol) (limit_freq (ctl g) tn lg raw)) lg' g) \<and>
    next_freq lg' = next_freq lg \<and> lg_tunables lg' = lg_tunables lg"
proof -
  note keep = get_next_freq_keeps [OF raw]
  define L where "L = limit_freq (ctl g) tn lg raw"
  define F where "F = cpufreq_driver_resolve_freq k (policy_obj g pol) L"
  let ?lg = "lg1\<lparr>last_freq_cap_applied := L, freq_cached := (if next_freq lg \<noteq> 0 then next_freq lg else F)\<rparr>"
  have "lse_gov_update_cpufreq k W (Some pol) s g = Inr (commit_freq pol F ?lg g)"
    using lg raw keep
    by (simp add: lse_gov_update_cpufreq_def soft_freq_clamp_eq Let_def limit_freq_cong [OF keep(3,4)]
        L_def [symmetric] F_def [symmetric])
  with keep show ?thesis unfolding F_def L_def by (intro exI [of _ ?lg]) (simp add: L_def F_def)
qed

lemma update_cpufreq_ready:
  assumes "gov_ready g pol" "gov_legacy_formula_enable (ctl g) = 0"
  shows "\<exists>lg lg' f. lse_gov_update_cpufreq k W (Some pol) s g = Inr (commit_freq pol f lg' g) \<and>
    governor_data g pol = Some lg \<and> lg_tunables lg' = lg_tunables lg"
proof -
  obtain lg tn where lg: "governor_data g pol = Some lg" "lg_tunables_obj g lg = Some tn"
    using assms(1) by (auto simp: gov_ready_def)
  obtain raw lg1 where "get_next_freq k (ctl g) W (policy_obj g pol) (Some tn) s lg = Inr (raw, lg1)"
    using get_next_freq_total [OF assms(2)] by blast
  from update_cpufreq_spec [OF lg this] lg(1) show ?thesis by blast
qed

lemma soft_limit_spec:
  assumes "governor_data g pol = Some lg" "lg_tunables_obj g lg = Some tn"
  shows "\<exists>lg'. lse_gov_update_soft_limit_cpufreq k pol g =
      Inr (commit_freq pol (cpufreq_driver_resolve_freq k (policy_obj g pol)
        (limit_freq (ctl g) tn lg (next_freq lg))) lg' g) \<and>
    next_freq lg' = next_freq lg \<and> lg_tunables lg' = lg_tunables lg"
  using assms by (auto simp: lse_gov_update_soft_limit_cpufreq_def soft_freq_clamp_eq Let_def
      intro!: exI [of _ "lg\<lparr>last_freq_cap_applied := limit_freq (ctl g) tn lg (next_freq lg)\<rparr>"])

section \<open>The tick path\<close>

lemma tick_limited:
  "now - last_tick_ns (lse_gov_rq_data g (rq_cpu rq)) < LSE_GOV_RATE_LIMIT_NS \<Longrightarrow>
   lse_gov_tick_update k W lrq d now now2 rq g = Inr g"
  by (simp add: lse_gov_tick_update_def Let_def split: option.split)

lemma cluster_util_last_tick:
  "last_tick_ns (snd (lse_gov_cluster_util c W lrq p cpu now grq)) = last_tick_ns grq"
  by (simp add: lse_gov_cluster_util_def Let_def)

lemma tick_target_load_frame:
  "\<exists>x. snd (tick_target_load c p u lg) = lg\<lparr>last_power_pressure := x\<rparr>"
proof (cases "cluster_tl_dyn_enable c \<noteq> 0")
  case True
  then show ?thesis using dynamic_target_load_frame [of c p u lg] by (simp add: tick_target_load_def Let_def)
next
  case False
  then show ?thesis by (intro exI [of _ "last_power_pressure lg"]) (simp add: tick_target_load_def Let_def)
qed

lemma tick_effective:
  assumes pol: "policy_of_cpu g (rq_cpu rq) = Some pol" "governor_data g pol = Some lg"
    "lg_tunables_obj g lg = Some tn"
    and due: "\<not> now - last_tick_ns (lse_gov_rq_data g (rq_cpu rq)) < LSE_GOV_RATE_LIMIT_NS"
  shows "\<exists>g' lg' grq f. lse_gov_tick_update k W lrq d now now2 rq g = Inr g' \<and>
    g' = commit_freq pol (cpufreq_driver_resolve_freq k (policy_obj g pol) (limit_freq (ctl g) tn lg f)) lg'
           (g\<lparr>lse_gov_rq_data := (lse_gov_rq_data g)(rq_cpu rq := grq)\<rparr>) \<and>
    last_tick_ns grq = now \<and> next_freq lg' = next_freq lg \<and> lg_tunables lg' = lg_tunables lg"
proof -
  let ?cpu = "rq_cpu rq" and ?p = "policy_obj g pol"
  obtain u grq1 where util: "lse_gov_cluster_util (ctl g) W lrq ?p ?cpu now2
      ((lse_gov_rq_data g ?cpu)\<lparr>last_tick_ns := now\<rparr>) = (u, grq1)" by fastforce
  have last: "last_tick_ns grq1 = now"
    using cluster_util_last_tick [of "ctl g" W lrq ?p ?cpu now2 "(lse_gov_rq_data g ?cpu)\<lparr>last_tick_ns := now\<rparr>"]
    by (simp add: util)
  define a where "a = dsq_boosted u (lse_dsq_urgency_signal d)"
  obtain tl x where dyn: "tick_target_load (ctl g) ?p a lg = (tl, lg\<lparr>last_power_pressure := x\<rparr>)"
    using tick_target_load_frame [of "ctl g" ?p a lg] by (metis prod.collapse)
  let ?lg = "lg\<lparr>last_power_pressure := x\<rparr>" and ?f = "scaled_freq ?p (pol_cur ?p) a tl"
  let ?g = "g\<lparr>lse_gov_rq_data := (lse_gov_rq_data g)(?cpu := grq1\<lparr>curr_util := ucast u\<rparr>)\<rparr>"
  have tn2: "lg_tunables_obj ?g ?lg = Some tn"
    using pol(3) lg_tunables_obj_cong [of ?g g ?lg lg] by simp
  have lim: "limit_freq (ctl g) tn ?lg f = limit_freq (ctl g) tn lg f" for f
    by (rule limit_freq_cong) simp_all
  let ?lg' = "?lg\<lparr>last_freq_cap_applied := limit_freq (ctl g) tn lg ?f, last_agg_util := a,
    last_target_load_dyn := tl\<rparr>"
  have "lse_gov_tick_update k W lrq d now now2 rq g =
      Inr (commit_freq pol (cpufreq_driver_resolve_freq k ?p (limit_freq (ctl g) tn lg ?f)) ?lg' ?g)"
    using due tn2 by (simp add: lse_gov_tick_update_def pol util Let_def a_def [symmetric] dyn soft_freq_clamp_eq lim)
  with last show ?thesis
    by (intro exI [of _ "commit_freq pol (cpufreq_driver_resolve_freq k ?p (limit_freq (ctl g) tn lg ?f)) ?lg' ?g"]
        exI [of _ ?lg'] exI [of _ "grq1\<lparr>curr_util := ucast u\<rparr>"] exI [of _ ?f]) simp
qed

section \<open>Window rollover\<close>

definition clusters_ready :: "kernel \<Rightarrow> lse_sched_cluster list \<Rightarrow> gov \<Rightarrow> bool" where
  "clusters_ready k cs g \<longleftrightarrow> gov_legacy_formula_enable (ctl g) = 0 \<and>
     (\<forall>c \<in> set cs. 0 \<le> cl_id c \<and> cl_id c < MAX_LSE_CLUSTERS \<and>
        (gov_flag g ! nat (cl_id c) \<noteq> 0 \<longrightarrow>
           (\<exists>cpu rest pol. filter (cpu_online k) (cl_cpus c) = cpu # rest \<and>
              policy_of_cpu g cpu = Some pol \<and> gov_ready g pol)))"

lemma update_cluster_freq_ready:
  assumes "clusters_ready k cs g" "c \<in> set cs"
  shows "\<exists>g'. update_cluster_freq k W lrq c g = Inr g' \<and> clusters_ready k cs g'"
proof (cases "gov_flag g ! nat (cl_id c) = 0")
  case True
  then show ?thesis using assms by (auto simp: clusters_ready_def update_cluster_freq_def)
next
  case False
  obtain cpu rest pol where on: "filter (cpu_online k) (cl_cpus c) = cpu # rest"
    "policy_of_cpu g cpu = Some pol" "gov_ready g pol"
    using assms False unfolding clusters_ready_def by blast
  have leg: "gov_legacy_formula_enable (ctl g) = 0" and id: "0 \<le> cl_id c" "cl_id c < MAX_LSE_CLUSTERS"
    using assms by (auto simp: clusters_ready_def)
  define s where "s = cluster_prev_sum W lrq cpu (cpu # rest) g"
  obtain lg lg' f where up: "lse_gov_update_cpufreq k W (Some pol) s g = Inr (commit_freq pol f lg' g)"
    "governor_data g pol = Some lg" "lg_tunables lg' = lg_tunables lg"
    using update_cpufreq_ready [OF on(3) leg] by blast
  have "update_cluster_freq k W lrq c g = Inr (commit_freq pol f lg' g)"
    using id False on up(1) by (simp add: update_cluster_freq_def s_def Let_def)
  moreover have "clusters_ready k cs (commit_freq pol f lg' g)"
    unfolding clusters_ready_def commit_freq_simps
  proof (intro conjI ballI impI)
    show "gov_legacy_formula_enable (ctl g) = 0" by (rule leg)
    fix b assume b: "b \<in> set cs"
    then show "0 \<le> cl_id b" "cl_id b < MAX_LSE_CLUSTERS" using assms(1) by (auto simp: clusters_ready_def)
    assume "gov_flag g ! nat (cl_id b) \<noteq> 0"
    then show "\<exists>cpu rest pola. filter (cpu_online k) (cl_cpus b) = cpu # rest \<and>
        policy_of_cpu g cpu = Some pola \<and> gov_ready (commit_freq pol f lg' g) pola"
      using assms(1) b commit_ready [OF _ up(2,3)] unfolding clusters_ready_def by blast
  qed
  ultimately show ?thesis by blast
qed

lemma lsegov_update_freq_ready:
  assumes "clusters_ready k cs g"
  shows "\<exists>g'. lsegov_update_freq k W lrq cs b g = Inr g' \<and> clusters_ready k cs g'"
proof (cases b)
  case True
  have "\<exists>g'. efold (update_cluster_freq k W lrq) cs g = Inr g' \<and> clusters_ready k cs g'"
    by (rule efold_total [where P = "clusters_ready k cs"]) (auto intro: update_cluster_freq_ready assms)
  then show ?thesis using True by (simp add: lsegov_update_freq_def)
qed (simp add: lsegov_update_freq_def assms)

text \<open>What can go wrong without that: a cluster whose flag is set has no online CPU (then \<open>cpumask_first\<close>
  is no CPU), or the policy of its first online CPU does not run the governor.\<close>

definition cluster_idle :: "kernel \<Rightarrow> gov \<Rightarrow> lse_sched_cluster \<Rightarrow> bool" where
  "cluster_idle k g c \<longleftrightarrow> gov_flag g ! nat (cl_id c) \<noteq> 0 \<and> filter (cpu_online k) (cl_cpus c) = []"

definition cluster_unserved :: "kernel \<Rightarrow> gov \<Rightarrow> lse_sched_cluster \<Rightarrow> bool" where
  "cluster_unserved k g c \<longleftrightarrow> gov_flag g ! nat (cl_id c) \<noteq> 0 \<and>
     (case filter (cpu_online k) (cl_cpus c) of [] \<Rightarrow> False
      | cpu # _ \<Rightarrow> (case policy_of_cpu g cpu of None \<Rightarrow> True | Some pol \<Rightarrow> governor_data g pol = None))"

definition id_in_range :: "int \<Rightarrow> bool" where
  "id_in_range i \<longleftrightarrow> 0 \<le> i \<and> i < MAX_LSE_CLUSTERS"

lemma update_cpufreq_fault:
  assumes "lse_gov_update_cpufreq k W (Some pol) s g = Inl f" "gov_ready g pol"
  shows "f = Div_By_Zero \<and> gov_legacy_formula_enable (ctl g) \<noteq> 0"
proof -
  obtain lg tn where lg: "governor_data g pol = Some lg" "lg_tunables_obj g lg = Some tn"
    using assms(2) by (auto simp: gov_ready_def)
  show ?thesis
  proof (cases "get_next_freq k (ctl g) W (policy_obj g pol) (Some tn) s lg")
    case (Inl f')
    then show ?thesis using get_next_freq_fault [OF Inl] assms(1) lg by (simp add: lse_gov_update_cpufreq_def Let_def)
  next
    case (Inr r)
    then show ?thesis using update_cpufreq_spec [OF lg, of k W s "fst r" "snd r"] assms(1) by auto
  qed
qed

section \<open>The two largest values\<close>

lemma top2_step_ge: "top2_step x (a, b) = (a', b') \<Longrightarrow> b \<le> a \<Longrightarrow> b' \<le> a' \<and> a \<le> a' \<and> b \<le> b' \<and> x \<le> a'"
  by (auto simp: top2_step_def split: if_splits)

lemma top2_step_mset:
  "top2_step x (a, b) = (a', b') \<Longrightarrow> b \<le> a \<Longrightarrow>
   \<exists>r. r \<le> b' \<and> {#x, a, b#} = {#a', b', r#}"
  by (auto simp: top2_step_def split: if_splits intro: exI [of _ b] exI [of _ x])

lemma fold_top2_ge:
  "fold top2_step xs (a, b) = (t1, t2) \<Longrightarrow> b \<le> (a :: 'a::linorder) \<Longrightarrow> b \<le> t2 \<and> t2 \<le> t1"
proof (induction xs arbitrary: a b)
  case (Cons x xs)
  obtain a' b' where step: "top2_step x (a, b) = (a', b')" by fastforce
  note ge = top2_step_ge [OF step Cons.prems(2)]
  have "b' \<le> t2 \<and> t2 \<le> t1" using Cons.IH [of a' b'] Cons.prems(1) ge step by simp
  with ge show ?case by auto
qed simp

text \<open>The loop returns the two largest of the values seen, wherever they are in the list.\<close>

lemma fold_top2:
  assumes "fold top2_step xs (a, b) = (t1, t2)" "b \<le> (a :: 'a::linorder)"
  shows "\<exists>rest. mset (a # b # xs) = {#t1, t2#} + rest \<and> (\<forall>r \<in># rest. r \<le> t2)"
  using assms
proof (induction xs arbitrary: a b)
  case Nil
  then show ?case by (intro exI [of _ "{#}"]) simp
next
  case (Cons x xs)
  obtain a' b' where step: "top2_step x (a, b) = (a', b')" by fastforce
  note ge = top2_step_ge [OF step Cons.prems(2)]
  obtain r where r: "r \<le> b'" "{#x, a, b#} = {#a', b', r#}"
    using top2_step_mset [OF step Cons.prems(2)] by blast
  have run: "fold top2_step xs (a', b') = (t1, t2)" using Cons.prems(1) step by simp
  then obtain rest where rest: "mset (a' # b' # xs) = {#t1, t2#} + rest" "\<forall>r \<in># rest. r \<le> t2"
    using Cons.IH [OF run] ge by auto
  have "b' \<le> t2" using fold_top2_ge [OF run] ge by simp
  moreover have "mset (a # b # x # xs) = {#t1, t2#} + add_mset r rest"
  proof -
    have "mset (a # b # x # xs) = {#x, a, b#} + mset xs" by simp
    also have "\<dots> = {#r#} + mset (a' # b' # xs)" unfolding r(2) by simp
    also have "\<dots> = {#t1, t2#} + add_mset r rest" unfolding rest(1) by simp
    finally show ?thesis .
  qed
  ultimately show ?case using r(1) rest(2) by (intro exI [of _ "add_mset r rest"]) auto
qed

section \<open>Policies and their tunables\<close>

text \<open>Which tunables object a policy points to, and which policies an object lists.\<close>

definition tunables_ptr :: "gov \<Rightarrow> nat \<Rightarrow> nat option option" where
  "tunables_ptr g pol = map_option lg_tunables (governor_data g pol)"

definition attr_list :: "gov \<Rightarrow> nat \<Rightarrow> nat list option" where
  "attr_list g t = map_option attr_policies (tunables_obj g t)"

text \<open>
  The links are consistent: a policy that runs the governor points to a live tunables object that
  lists it; a live object is listed by at least one policy, and exactly by those that point to it;
  without per-policy tunables there is at most one object, the global one.
\<close>

definition links_ok ::
  "bool \<Rightarrow> (nat \<Rightarrow> nat option option) \<Rightarrow> (nat \<Rightarrow> nat list option) \<Rightarrow> nat option \<Rightarrow> nat \<Rightarrow> bool" where
  "links_ok per_policy ptr attrs glob nx \<longleftrightarrow>
     (\<forall>pol x. ptr pol = Some x \<longrightarrow> (\<exists>t ps. x = Some t \<and> attrs t = Some ps \<and> pol \<in> set ps)) \<and>
     (\<forall>t ps. attrs t = Some ps \<longrightarrow> ps \<noteq> [] \<and> distinct ps \<and> t < nx) \<and>
     (\<forall>t ps pol. attrs t = Some ps \<longrightarrow> pol \<in> set ps \<longrightarrow> ptr pol = Some (Some t)) \<and>
     (\<forall>t ps. attrs t = Some ps \<longrightarrow> \<not> per_policy \<longrightarrow> glob = Some t) \<and>
     (\<forall>t. glob = Some t \<longrightarrow> \<not> per_policy \<and> attrs t \<noteq> None)"

definition attached :: "bool \<Rightarrow> gov \<Rightarrow> bool" where
  "attached per_policy g \<longleftrightarrow>
     links_ok per_policy (tunables_ptr g) (attr_list g) (global_tunables g) (tunables_next g)"

lemma links_okI:
  assumes "\<And>pol x. ptr pol = Some x \<Longrightarrow> \<exists>t ps. x = Some t \<and> attrs t = Some ps \<and> pol \<in> set ps"
    and "\<And>t ps. attrs t = Some ps \<Longrightarrow> ps \<noteq> [] \<and> distinct ps \<and> t < nx"
    and "\<And>t ps pol. attrs t = Some ps \<Longrightarrow> pol \<in> set ps \<Longrightarrow> ptr pol = Some (Some t)"
    and "\<And>t ps. attrs t = Some ps \<Longrightarrow> \<not> pp \<Longrightarrow> glob = Some t"
    and "\<And>t. glob = Some t \<Longrightarrow> \<not> pp \<and> attrs t \<noteq> None"
  shows "links_ok pp ptr attrs glob nx"
  unfolding links_ok_def using assms by blast

lemma links_okD:
  assumes "links_ok pp ptr attrs glob nx"
  shows "ptr pol = Some x \<Longrightarrow> \<exists>t ps. x = Some t \<and> attrs t = Some ps \<and> pol \<in> set ps"
    and "attrs t = Some ps \<Longrightarrow> ps \<noteq> [] \<and> distinct ps \<and> t < nx"
    and "attrs t = Some ps \<Longrightarrow> pol \<in> set ps \<Longrightarrow> ptr pol = Some (Some t)"
    and "attrs t = Some ps \<Longrightarrow> \<not> pp \<Longrightarrow> glob = Some t"
    and "glob = Some t \<Longrightarrow> \<not> pp \<and> attrs t \<noteq> None"
  using assms unfolding links_ok_def by blast+

lemma links_ok_join:
  assumes ok: "links_ok pp ptr attrs (Some t) nx" and new: "ptr pol = None" and t: "attrs t = Some ps"
  shows "links_ok pp (ptr(pol \<mapsto> Some t)) (attrs(t \<mapsto> pol # ps)) (Some t) nx"
proof (rule links_okI)
  have notin: "pol \<notin> set qs" if "attrs u = Some qs" for u qs
    using links_okD(3) [OF ok that] new by fastforce
  fix u qs
  show "\<exists>v ps'. x = Some v \<and> (attrs(t \<mapsto> pol # ps)) v = Some ps' \<and> p \<in> set ps'"
    if "(ptr(pol \<mapsto> Some t)) p = Some x" for p x
    using that links_okD(1) [OF ok, of p x] t by (cases "p = pol") (auto split: if_splits)
  show "qs \<noteq> [] \<and> distinct qs \<and> u < nx" if "(attrs(t \<mapsto> pol # ps)) u = Some qs"
    using that links_okD(2) [OF ok, of u qs] links_okD(2) [OF ok t] notin [OF t] by (auto split: if_splits)
  show "(ptr(pol \<mapsto> Some t)) p = Some (Some u)" if "(attrs(t \<mapsto> pol # ps)) u = Some qs" "p \<in> set qs" for p
    using that links_okD(3) [OF ok, of u qs p] links_okD(3) [OF ok t, of p] notin [of u qs]
    by (auto split: if_splits)
  show "Some t = Some u" if "(attrs(t \<mapsto> pol # ps)) u = Some qs" "\<not> pp"
    using that links_okD(4) [OF ok, of u qs] by (auto split: if_splits)
  show "\<not> pp \<and> (attrs(t \<mapsto> pol # ps)) u \<noteq> None" if "Some t = Some u"
    using that links_okD(5) [OF ok, of t] by auto
qed

lemma links_ok_new:
  assumes ok: "links_ok pp ptr attrs None nx" and new: "ptr pol = None"
  shows "links_ok pp (ptr(pol \<mapsto> Some nx)) (attrs(nx \<mapsto> [pol])) (if pp then None else Some nx) (nx + 1)"
proof (rule links_okI)
  have notin: "pol \<notin> set qs" if "attrs u = Some qs" for u qs
    using links_okD(3) [OF ok that] new by fastforce
  have fresh: "attrs nx = None"
    using links_okD(2) [OF ok, of "nx"] by (metis less_irrefl not_None_eq)
  fix u qs
  show "\<exists>v ps'. x = Some v \<and> (attrs(nx \<mapsto> [pol])) v = Some ps' \<and> p \<in> set ps'"
    if "(ptr(pol \<mapsto> Some nx)) p = Some x" for p x
    using that links_okD(1) [OF ok, of p x] fresh by (cases "p = pol", auto) (metis option.distinct(1))
  show "qs \<noteq> [] \<and> distinct qs \<and> u < nx + 1" if "(attrs(nx \<mapsto> [pol])) u = Some qs"
    using that links_okD(2) [OF ok, of u qs] by (auto split: if_splits)
  show "(ptr(pol \<mapsto> Some nx)) p = Some (Some u)" if "(attrs(nx \<mapsto> [pol])) u = Some qs" "p \<in> set qs" for p
    using that links_okD(3) [OF ok, of u qs p] notin [of u qs] by (auto split: if_splits)
  show "(if pp then None else Some nx) = Some u" if "(attrs(nx \<mapsto> [pol])) u = Some qs" "\<not> pp"
    using that links_okD(4) [OF ok, of u qs] by (auto split: if_splits)
  show "\<not> pp \<and> (attrs(nx \<mapsto> [pol])) u \<noteq> None" if "(if pp then None else Some nx) = Some u"
    using that by (auto split: if_splits)
qed

lemma links_ok_later: "links_ok pp ptr attrs glob nx \<Longrightarrow> links_ok pp ptr attrs glob (nx + 1)"
  unfolding links_ok_def by (elim conjE, intro conjI) (blast | fastforce)+

lemma links_ok_leave:
  assumes ok: "links_ok pp ptr attrs glob nx" and pol: "ptr pol = Some (Some t)" "attrs t = Some ps"
  shows "remove1 pol ps \<noteq> [] \<Longrightarrow> links_ok pp (ptr(pol := None)) (attrs(t \<mapsto> remove1 pol ps)) glob nx"
    and "remove1 pol ps = [] \<Longrightarrow>
      links_ok pp (ptr(pol := None)) (attrs(t := None)) (if pp then glob else None) nx"
proof -
  have mem: "pol \<in> set ps" using links_okD(1) [OF ok pol(1)] pol(2) by auto
  have dist: "distinct ps" using links_okD(2) [OF ok pol(2)] by simp
  have only: "u = t" if "attrs u = Some qs" "pol \<in> set qs" for u qs
    using links_okD(3) [OF ok that] pol(1) by simp
  show "links_ok pp (ptr(pol := None)) (attrs(t \<mapsto> remove1 pol ps)) glob nx" if ne: "remove1 pol ps \<noteq> []"
  proof (rule links_okI)
    fix u qs
    show "\<exists>v ps'. x = Some v \<and> (attrs(t \<mapsto> remove1 pol ps)) v = Some ps' \<and> p \<in> set ps'"
      if "(ptr(pol := None)) p = Some x" for p x
      using that links_okD(1) [OF ok, of p x] pol(2) by (auto split: if_splits)
    show "qs \<noteq> [] \<and> distinct qs \<and> u < nx" if "(attrs(t \<mapsto> remove1 pol ps)) u = Some qs"
      using that links_okD(2) [OF ok, of u qs] links_okD(2) [OF ok pol(2)] ne by (auto split: if_splits)
    show "(ptr(pol := None)) p = Some (Some u)"
      if "(attrs(t \<mapsto> remove1 pol ps)) u = Some qs" "p \<in> set qs" for p
      using that links_okD(3) [OF ok, of u qs p] links_okD(3) [OF ok pol(2), of p] only [of u qs] dist
      by (auto split: if_splits)
    show "glob = Some u" if "(attrs(t \<mapsto> remove1 pol ps)) u = Some qs" "\<not> pp"
      using that links_okD(4) [OF ok, of u qs] links_okD(4) [OF ok pol(2)] by (auto split: if_splits)
    show "\<not> pp \<and> (attrs(t \<mapsto> remove1 pol ps)) u \<noteq> None" if "glob = Some u"
      using that links_okD(5) [OF ok, of u] by auto
  qed
  show "links_ok pp (ptr(pol := None)) (attrs(t := None)) (if pp then glob else None) nx"
    if e: "remove1 pol ps = []"
  proof (rule links_okI)
    have ps: "set ps = {pol}" using e mem dist by (cases ps) (auto split: if_splits)
    fix u qs
    show "\<exists>v ps'. x = Some v \<and> (attrs(t := None)) v = Some ps' \<and> p \<in> set ps'"
      if "(ptr(pol := None)) p = Some x" for p x
      using that links_okD(1) [OF ok, of p x] pol(2) ps
      by (auto split: if_splits) (metis option.inject singletonD)
    show "qs \<noteq> [] \<and> distinct qs \<and> u < nx" if "(attrs(t := None)) u = Some qs"
      using that links_okD(2) [OF ok, of u qs] by (auto split: if_splits)
    show "(ptr(pol := None)) p = Some (Some u)" if "(attrs(t := None)) u = Some qs" "p \<in> set qs" for p
      using that links_okD(3) [OF ok, of u qs p] only [of u qs] by (auto split: if_splits)
    show "(if pp then glob else None) = Some u" if "(attrs(t := None)) u = Some qs" "\<not> pp"
      using that links_okD(4) [OF ok, of u qs] links_okD(4) [OF ok pol(2)] by (auto split: if_splits)
    show "\<not> pp \<and> (attrs(t := None)) u \<noteq> None" if "(if pp then glob else None) = Some u"
      using that links_okD(5) [OF ok, of u] by (auto split: if_splits)
  qed
qed

definition same_links :: "gov \<Rightarrow> gov \<Rightarrow> bool" where
  "same_links g g' \<longleftrightarrow> tunables_ptr g' = tunables_ptr g \<and> attr_list g' = attr_list g \<and>
     global_tunables g' = global_tunables g \<and> tunables_next g' = tunables_next g"

lemma same_links_attached: "same_links g g' \<Longrightarrow> attached b g' = attached b g"
  by (simp add: same_links_def attached_def)

lemma same_links_commit:
  assumes "governor_data g pol = Some lg" "lg_tunables lg' = lg_tunables lg"
  shows "same_links g (commit_freq pol f lg' g)"
proof -
  have "tunables_ptr (commit_freq pol f lg' g) = tunables_ptr g"
    by (rule ext) (simp add: tunables_ptr_def commit_freq_result assms)
  moreover have "attr_list (commit_freq pol f lg' g) = attr_list g"
    by (rule ext) (simp add: attr_list_def)
  ultimately show ?thesis by (simp add: same_links_def)
qed

lemma fast_switch_fields:
  "governor_data (set_fast_switch pol b g) = governor_data g"
  "global_tunables (set_fast_switch pol b g) = global_tunables g"
  "tunables_obj (set_fast_switch pol b g) = tunables_obj g"
  "tunables_next (set_fast_switch pol b g) = tunables_next g"
  "governor_data (set_dvfs_any_cpu pol g) = governor_data g"
  "attached c (set_fast_switch pol b g) = attached c g"
  "attached c (set_dvfs_any_cpu pol g) = attached c g"
  "attached c (count_freed pol g) = attached c g"
  "governor_data (count_freed pol g) = governor_data g"
  "tunables_obj (count_freed pol g) = tunables_obj g"
  "cached_tunables (count_freed pol g) = cached_tunables g"
proof -
  show "attached c (set_fast_switch pol b g) = attached c g"
    by (rule same_links_attached) (simp add: set_fast_switch_def same_links_def tunables_ptr_def attr_list_def fun_eq_iff)
  show "attached c (set_dvfs_any_cpu pol g) = attached c g"
    by (rule same_links_attached) (simp add: set_dvfs_any_cpu_def same_links_def tunables_ptr_def attr_list_def fun_eq_iff)
  show "attached c (count_freed pol g) = attached c g"
    by (rule same_links_attached) (simp add: count_freed_def same_links_def tunables_ptr_def attr_list_def fun_eq_iff)
qed (simp_all add: set_fast_switch_def set_dvfs_any_cpu_def count_freed_def)

lemma attached_join:
  assumes att: "attached b g" and "governor_data g pol = None" "global_tunables g = Some t"
  shows "attached b (upd_tunables t (\<lambda>tn. tn\<lparr>attr_policies := pol # attr_policies tn\<rparr>)
    (set_governor_data pol (lg\<lparr>lg_tunables := Some t\<rparr>) g))" (is "attached b ?h")
proof -
  have ok: "links_ok b (tunables_ptr g) (attr_list g) (Some t) (tunables_next g)"
    using att assms(3) by (simp add: attached_def)
  obtain tn where tn: "tunables_obj g t = Some tn"
    using links_okD(5) [OF ok, of t] by (auto simp: attr_list_def)
  have "tunables_ptr ?h = (tunables_ptr g)(pol \<mapsto> Some t)"
    by (rule ext) (simp add: tunables_ptr_def upd_tunables_def set_governor_data_def)
  moreover have "attr_list ?h = (attr_list g)(t \<mapsto> pol # attr_policies tn)"
    by (rule ext) (simp add: attr_list_def upd_tunables_def set_governor_data_def tn)
  moreover have "global_tunables ?h = Some t" "tunables_next ?h = tunables_next g"
    using assms(3) by (simp_all add: upd_tunables_def set_governor_data_def)
  ultimately show ?thesis
    using links_ok_join [OF ok, of pol "attr_policies tn"] assms(2) tn
    by (simp add: attached_def tunables_ptr_def attr_list_def)
qed

lemma attached_new:
  fixes tn lg
  assumes att: "attached b g" and free: "governor_data g pol = None" "global_tunables g = None"
    and tn: "attr_policies tn = [pol]"
  defines "t \<equiv> tunables_next g"
  defines "g1 \<equiv> g\<lparr>tunables_next := t + 1, global_tunables := (if b then global_tunables g else Some t),
    tunables_obj := (tunables_obj g)(t \<mapsto> tn)\<rparr>"
  defines "g2 \<equiv> set_governor_data pol (lg\<lparr>lg_tunables := Some t\<rparr>) g1"
  shows "attached b g2"
    and "have_governor_per_policy env = b \<Longrightarrow>
      attached b (lse_gov_tunables_free env t (g2\<lparr>governor_data := (governor_data g2)(pol := None)\<rparr>))"
proof -
  have ok: "links_ok b (tunables_ptr g) (attr_list g) None t"
    using att free(2) by (simp add: attached_def t_def)
  have "tunables_ptr g2 = (tunables_ptr g)(pol \<mapsto> Some t)"
    by (rule ext) (simp add: tunables_ptr_def g2_def g1_def set_governor_data_def)
  moreover have "attr_list g2 = (attr_list g)(t \<mapsto> [pol])"
    by (rule ext) (simp add: attr_list_def g2_def g1_def set_governor_data_def tn)
  moreover have "global_tunables g2 = (if b then None else Some t)" "tunables_next g2 = t + 1"
    using free(2) by (simp_all add: g2_def g1_def set_governor_data_def)
  ultimately show "attached b g2"
    using links_ok_new [OF ok, of pol] free(1) by (simp add: attached_def tunables_ptr_def)
  have fresh: "tunables_obj g t = None"
    using links_okD(2) [OF ok, of t] by (cases "tunables_obj g t") (auto simp: attr_list_def)
  let ?h = "lse_gov_tunables_free env t (g2\<lparr>governor_data := (governor_data g2)(pol := None)\<rparr>)"
  assume env: "have_governor_per_policy env = b"
  have "tunables_ptr ?h = tunables_ptr g"
    by (rule ext) (simp add: tunables_ptr_def lse_gov_tunables_free_def g2_def g1_def set_governor_data_def free Let_def)
  moreover have "attr_list ?h = attr_list g"
    by (rule ext) (simp add: attr_list_def lse_gov_tunables_free_def g2_def g1_def set_governor_data_def fresh Let_def)
  moreover have "global_tunables ?h = None" "tunables_next ?h = t + 1"
    using free(2) env by (simp_all add: lse_gov_tunables_free_def g2_def g1_def set_governor_data_def Let_def)
  ultimately show "attached b ?h" using links_ok_later [OF ok] by (simp add: attached_def)
qed

lemma init_attached:
  assumes "attached b g" and env: "have_governor_per_policy env = b"
  shows "attached b (snd (lse_gov_init env pol g))"
proof (cases "governor_data g pol = None")
  case free: True
  obtain ret lg where kt: "lse_gov_kthread_create env (fast_switch_possible env) lse_gov_policy_alloc = (ret, lg)"
    by fastforce
  let ?g = "set_fast_switch pol (fast_switch_possible env) g"
  have att: "attached b ?g" and none: "governor_data ?g pol = None"
    using assms free by (simp_all add: fast_switch_fields)
  show ?thesis
  proof (cases "lg_alloc_ok env \<and> ret = 0")
    case ok: True
    show ?thesis
    proof (cases "global_tunables g")
      case (Some t)
      then show ?thesis using ok free kt assms attached_join [OF att none, of t lg]
        by (cases b) (simp_all add: lse_gov_init_def Let_def fast_switch_fields)
    next
      case None
      let ?tn = "\<lparr>target_loads = DEFAULT_TARGET_LOAD, soft_freq_max = - 1, soft_freq_min = - 1,
        apply_freq_immediately = True, attr_policies = [pol]\<rparr>"
      have glob: "global_tunables ?g = None" using None by (simp add: fast_switch_fields)
      have "attr_policies ?tn = [pol]" by simp
      note new = attached_new [where lg = lg, OF att none glob this]
      show ?thesis using ok free kt None assms new(1) new(2) [OF env]
        by (cases b) (simp_all add: lse_gov_init_def Let_def fast_switch_fields)
    qed
  qed (use free kt assms in \<open>auto simp: lse_gov_init_def Let_def fast_switch_fields\<close>)
qed (simp add: lse_gov_init_def assms)

lemma tunables_save_fields [simp]:
  "governor_data (lse_gov_tunables_save env p g) = governor_data g"
  "tunables_obj (lse_gov_tunables_save env p g) = tunables_obj g"
  "global_tunables (lse_gov_tunables_save env p g) = global_tunables g"
  "tunables_next (lse_gov_tunables_save env p g) = tunables_next g"
  "policy_obj (lse_gov_tunables_save env p g) = policy_obj g"
proof -
  have "governor_data (F cpus g) = governor_data g \<and> tunables_obj (F cpus g) = tunables_obj g \<and>
      global_tunables (F cpus g) = global_tunables g \<and> tunables_next (F cpus g) = tunables_next g \<and>
      policy_obj (F cpus g) = policy_obj g"
    if "F = fold (\<lambda>cpu g. g\<lparr>cached_tunables := (cached_tunables g)(cpu \<mapsto> zeroed_tunables)\<rparr>)" for F cpus
    unfolding that by (induction cpus arbitrary: g) simp_all
  from this [OF refl] show "governor_data (lse_gov_tunables_save env p g) = governor_data g"
    "tunables_obj (lse_gov_tunables_save env p g) = tunables_obj g"
    "global_tunables (lse_gov_tunables_save env p g) = global_tunables g"
    "tunables_next (lse_gov_tunables_save env p g) = tunables_next g"
    "policy_obj (lse_gov_tunables_save env p g) = policy_obj g"
    by (simp_all add: lse_gov_tunables_save_def)
qed

text \<open>Whatever the tunables were, a copy that was not there before is zeroed.\<close>

lemma tunables_save_cached:
  "cached_tunables (lse_gov_tunables_save env p g) cpu =
     (if cached_tunables g (pol_cpu p) = None \<and> cached_alloc_ok env \<and> cpu \<in> set (related_cpus p)
      then Some zeroed_tunables else cached_tunables g cpu)"
proof -
  have "cached_tunables (fold (\<lambda>cpu g. g\<lparr>cached_tunables := (cached_tunables g)(cpu \<mapsto> zeroed_tunables)\<rparr>) cpus g) cpu =
      (if cpu \<in> set cpus then Some zeroed_tunables else cached_tunables g cpu)" for cpus
    by (induction cpus arbitrary: g) auto
  then show ?thesis by (simp add: lse_gov_tunables_save_def)
qed

lemma cpu_reset_fields:
  "governor_data (lse_gov_cpu_reset cpus g) = governor_data g"
  "tunables_obj (lse_gov_cpu_reset cpus g) = tunables_obj g"
  "global_tunables (lse_gov_cpu_reset cpus g) = global_tunables g"
  "tunables_next (lse_gov_cpu_reset cpus g) = tunables_next g"
  "cached_tunables (lse_gov_cpu_reset cpus g) = cached_tunables g"
  unfolding lse_gov_cpu_reset_def by (induction cpus arbitrary: g) simp_all

lemma exit_attached:
  assumes att: "attached b g" and env: "have_governor_per_policy env = b"
    and run: "governor_data g pol = Some lg"
  shows "\<exists>g'. lse_gov_exit env pol g = Inr g' \<and> attached b g' \<and> governor_data g' pol = None"
proof -
  have ok: "links_ok b (tunables_ptr g) (attr_list g) (global_tunables g) (tunables_next g)"
    using att by (simp add: attached_def)
  have "tunables_ptr g pol = Some (lg_tunables lg)" using run by (simp add: tunables_ptr_def)
  from links_okD(1) [OF ok this] obtain t tn where t: "lg_tunables lg = Some t" "tunables_obj g t = Some tn"
    by (auto simp: attr_list_def)
  have ptr: "tunables_ptr g pol = Some (Some t)" and lst: "attr_list g t = Some (attr_policies tn)"
    using run t by (simp_all add: tunables_ptr_def attr_list_def)
  let ?left = "remove1 pol (attr_policies tn)"
  define g1 where "g1 = (upd_tunables t (\<lambda>tn. tn\<lparr>attr_policies := ?left\<rparr>) g)
      \<lparr>governor_data := (governor_data g)(pol := None)\<rparr>"
  define g2 where "g2 = (if ?left = [] then lse_gov_tunables_free env t (lse_gov_tunables_save env (policy_obj g1 pol) g1)
      else g1)"
  have gd: "governor_data g2 = (governor_data g)(pol := None)"
    by (simp add: g2_def g1_def lse_gov_tunables_free_def Let_def)
  have p2: "tunables_ptr g2 = (tunables_ptr g)(pol := None)"
    by (rule ext) (simp add: tunables_ptr_def gd)
  have "attached b g2"
  proof (cases "?left = []")
    case True
    have "attr_list g2 = (attr_list g)(t := None)"
      by (rule ext) (simp add: attr_list_def g2_def g1_def True lse_gov_tunables_free_def upd_tunables_def Let_def)
    moreover have "global_tunables g2 = (if b then global_tunables g else None)" "tunables_next g2 = tunables_next g"
      using env by (simp_all add: g2_def g1_def True lse_gov_tunables_free_def upd_tunables_def Let_def)
    ultimately show ?thesis using links_ok_leave(2) [OF ok ptr lst True] by (simp add: attached_def p2)
  next
    case False
    have "attr_list g2 = (attr_list g)(t \<mapsto> ?left)"
      by (rule ext) (simp add: attr_list_def g2_def g1_def False upd_tunables_def t(2))
    moreover have "global_tunables g2 = global_tunables g" "tunables_next g2 = tunables_next g"
      by (simp_all add: g2_def g1_def False upd_tunables_def)
    ultimately show ?thesis using links_ok_leave(1) [OF ok ptr lst False] by (simp add: attached_def p2)
  qed
  moreover define g3 where "g3 = set_fast_switch pol False (count_freed pol (lse_gov_cpu_reset (pol_cpus (policy_obj g2 pol)) g2))"
  moreover have same: "same_links g2 (lse_gov_cpu_reset cpus g2)" for cpus
    by (simp add: same_links_def cpu_reset_fields tunables_ptr_def attr_list_def fun_eq_iff)
  ultimately have "attached b g3" by (simp add: fast_switch_fields same_links_attached [OF same])
  moreover have "governor_data g3 pol = None" by (simp add: g3_def fast_switch_fields cpu_reset_fields gd)
  moreover have "lse_gov_exit env pol g = Inr g3"
    using run t by (simp add: lse_gov_exit_def Let_def g3_def g2_def g1_def upd_tunables_def)
  ultimately show ?thesis by blast
qed

lemma attached_ready: "attached b g \<Longrightarrow> governor_data g pol \<noteq> None \<Longrightarrow> gov_ready g pol"
  using links_okD(1) [of b "tunables_ptr g" "attr_list g" "global_tunables g" "tunables_next g" pol]
  by (force simp: attached_def gov_ready_def tunables_ptr_def attr_list_def lg_tunables_obj_def)

lemma hook_fold_fields:
  fixes cpus pol
  defines "F \<equiv> fold (\<lambda>cpu g. g\<lparr>lse_gov_cpu := (lse_gov_cpu g)(cpu := Some (pol, lg_freed g pol)),
      update_hook := (update_hook g)(cpu := True)\<rparr>) cpus"
  shows "governor_data (F g) = governor_data g" "tunables_obj (F g) = tunables_obj g"
    "global_tunables (F g) = global_tunables g" "tunables_next (F g) = tunables_next g"
  unfolding F_def by (induction cpus arbitrary: g) simp_all

lemma start_attached:
  assumes att: "attached b g" and lg: "governor_data g pol = Some lg"
  shows "\<exists>g'. lse_gov_start k W pol g = Inr g' \<and> attached b g'"
proof -
  obtain g' where g': "lse_gov_start k W pol g = Inr g'"
    using lg by (simp add: lse_gov_start_def Let_def)
  have "tunables_ptr g' = tunables_ptr g"
    using g' lg by (intro ext)
      (auto simp: lse_gov_start_def Let_def set_governor_data_def tunables_ptr_def hook_fold_fields split: if_splits)
  moreover have "attr_list g' = attr_list g"
    using g' lg by (intro ext)
      (auto simp: lse_gov_start_def Let_def set_governor_data_def attr_list_def hook_fold_fields split: if_splits)
  moreover have "global_tunables g' = global_tunables g" "tunables_next g' = tunables_next g"
    using g' lg by (auto simp: lse_gov_start_def Let_def set_governor_data_def hook_fold_fields split: if_splits)
  ultimately have "same_links g g'" by (simp add: same_links_def)
  then show ?thesis using g' att by (simp add: same_links_attached)
qed

lemma lse_gov_stop_eq:
  "lse_gov_stop k pol g = Inr g' \<longleftrightarrow>
     (fast_switch_enabled (policy_obj g pol) \<or> governor_data g pol \<noteq> None) \<and> g' = gov_stopped k pol g"
  by (auto simp: lse_gov_stop_def)

lemma stop_attached: "attached b (gov_stopped k pol g) = attached b g"
proof -
  have "same_links g (fold (\<lambda>cpu g. g\<lparr>update_hook := (update_hook g)(cpu := False)\<rparr>) cpus g)" for cpus
    by (induction cpus arbitrary: g) (auto simp: same_links_def tunables_ptr_def attr_list_def fun_eq_iff)
  then have "same_links g (gov_stopped k pol g)"
    by (auto simp: gov_stopped_def Let_def same_links_def tunables_ptr_def attr_list_def fun_eq_iff)
  then show ?thesis by (rule same_links_attached)
qed

lemma upd_tunables_attached:
  assumes "\<And>tn. attr_policies (f tn) = attr_policies tn"
  shows "attached b (upd_tunables t f g) = attached b g"
proof (rule same_links_attached)
  have "attr_list (upd_tunables t f g) = attr_list g"
    by (rule ext) (simp add: attr_list_def upd_tunables_def option.map_comp comp_def assms)
  then show "same_links g (upd_tunables t f g)"
    by (simp add: same_links_def upd_tunables_def tunables_ptr_def fun_eq_iff)
qed

lemma apply_soft_limits_attached:
  assumes att: "attached b g" and t: "tunables_obj g t \<noteq> None"
  shows "\<exists>g'. apply_soft_limits k t g = Inr g' \<and> attached b g'"
proof -
  obtain tn where tn: "tunables_obj g t = Some tn" using t by blast
  have ok: "links_ok b (tunables_ptr g) (attr_list g) (global_tunables g) (tunables_next g)"
    using att by (simp add: attached_def)
  have lst: "attr_list g t = Some (attr_policies tn)" using tn by (simp add: attr_list_def)
  then obtain pol rest where ps: "attr_policies tn = pol # rest"
    using links_okD(2) [OF ok lst] by (cases "attr_policies tn") auto
  have "tunables_ptr g pol = Some (Some t)" using links_okD(3) [OF ok lst, of pol] ps by simp
  then obtain lg where lg: "governor_data g pol = Some lg" "lg_tunables lg = Some t"
    by (auto simp: tunables_ptr_def)
  have "lg_tunables_obj g lg = Some tn" using lg(2) tn by (simp add: lg_tunables_obj_def)
  from soft_limit_spec [OF lg(1) this, of k] obtain f lg' where
    "lse_gov_update_soft_limit_cpufreq k pol g = Inr (commit_freq pol f lg' g)" "lg_tunables lg' = lg_tunables lg"
    by blast
  then show ?thesis using att same_links_attached [OF same_links_commit [OF lg(1)]]
    by (auto simp: apply_soft_limits_def tn ps)
qed

lemma soft_limit_store_attached:
  assumes att: "attached b g" and t: "tunables_obj g t \<noteq> None"
    and upd: "\<And>v tn. attr_policies (upd v tn) = attr_policies tn"
  shows "\<exists>r g'. soft_limit_store k same upd t val n g = Inr (r, g') \<and> attached b g'"
proof (cases val)
  case (Some v)
  have "attached b (upd_tunables t (upd v) g)" using att upd_tunables_attached [OF upd] by simp
  moreover have "tunables_obj (upd_tunables t (upd v) g) t \<noteq> None" using t by (simp add: upd_tunables_def)
  ultimately obtain g' where "apply_soft_limits k t (upd_tunables t (upd v) g) = Inr g'" "attached b g'"
    using apply_soft_limits_attached by blast
  then show ?thesis using t att Some by (auto simp: soft_limit_store_def)
qed (simp add: soft_limit_store_def att)

lemma soft_limit_store_keeps:
  assumes run: "soft_limit_store k same upd t val n g = Inr (r, g')" and att: "attached b g"
    and upd: "\<And>v tn. attr_policies (upd v tn) = attr_policies tn"
  shows "attached b g'"
proof (cases "tunables_obj g t = None")
  case True
  then have "g' = g" using run by (auto simp: soft_limit_store_def split: option.splits)
  then show ?thesis using att by simp
next
  case False
  then show ?thesis using soft_limit_store_attached [where upd = upd and k = k and same = same and val = val and n = n, OF att False upd] run by auto
qed

section \<open>Steps of the governor\<close>

inductive gov_step :: "kernel \<Rightarrow> bool \<Rightarrow> gov \<Rightarrow> gov \<Rightarrow> bool" for k b where
  init: "have_governor_per_policy env = b \<Longrightarrow> gov_step k b g (snd (lse_gov_init env pol g))"
| exit: "have_governor_per_policy env = b \<Longrightarrow> lse_gov_exit env pol g = Inr g' \<Longrightarrow> gov_step k b g g'"
| start: "lse_gov_start k W pol g = Inr g' \<Longrightarrow> gov_step k b g g'"
| stop: "lse_gov_stop k pol g = Inr g' \<Longrightarrow> gov_step k b g g'"
| update: "lse_gov_update_cpufreq k W (Some pol) s g = Inr g' \<Longrightarrow> gov_step k b g g'"
| tick: "lse_gov_tick_update k W lrq d now now2 rq g = Inr g' \<Longrightarrow> gov_step k b g g'"
| loads: "gov_step k b g (snd (target_loads_store t val n g))"
| store_max: "soft_freq_max_store k t val n g = Inr (r, g') \<Longrightarrow> gov_step k b g g'"
| store_min: "soft_freq_min_store k t val n g = Inr (r, g') \<Longrightarrow> gov_step k b g g'"
| store_cur: "soft_freq_cur_store k t val n g = Inr (r, g') \<Longrightarrow> gov_step k b g g'"
| store_apply: "gov_step k b g (snd (apply_freq_immediately_store t val n g))"
| ctl: "gov_step k b g (g\<lparr>ctl := c\<rparr>)"

inductive_cases gov_stepE: "gov_step k b g g'"

definition gov_boot :: "gov \<Rightarrow> bool" where
  "gov_boot g \<longleftrightarrow> (\<forall>pol. governor_data g pol = None) \<and> (\<forall>t. tunables_obj g t = None) \<and>
     global_tunables g = None \<and> (\<forall>cpu. lse_gov_cpu g cpu = None)"

lemma update_attached:
  assumes "lse_gov_update_cpufreq k W (Some pol) s g = Inr g'" "attached b g"
  shows "attached b g'"
proof -
  obtain lg where lg: "governor_data g pol = Some lg"
    using assms(1) by (auto simp: lse_gov_update_cpufreq_def split: option.splits)
  obtain tn where tn: "lg_tunables_obj g lg = Some tn"
    using attached_ready [OF assms(2), of pol] lg by (auto simp: gov_ready_def)
  obtain raw lg1 where raw: "get_next_freq k (ctl g) W (policy_obj g pol) (Some tn) s lg = Inr (raw, lg1)"
    using assms(1) lg tn by (auto simp: lse_gov_update_cpufreq_def ebind_eq_Inr Let_def)
  from update_cpufreq_spec [OF lg tn raw] obtain f lg' where
    "g' = commit_freq pol f lg' g" "lg_tunables lg' = lg_tunables lg" using assms(1) by auto
  then show ?thesis using same_links_attached [OF same_links_commit [OF lg]] assms(2) by simp
qed

lemma update_cluster_freq_fault:
  assumes run: "update_cluster_freq k W lrq c g = Inl f" and att: "attached b g"
  shows "f = Div_By_Zero \<and> gov_legacy_formula_enable (ctl g) \<noteq> 0 \<or>
    f = Out_Of_Bounds \<and> (\<not> id_in_range (cl_id c) \<or> cluster_idle k g c) \<or> f = Null_Deref \<and> cluster_unserved k g c"
proof (cases "id_in_range (cl_id c)")
  case id: True
  show ?thesis
  proof (cases "filter (cpu_online k) (cl_cpus c)")
    case Nil
    then show ?thesis using run id by (auto simp: update_cluster_freq_def id_in_range_def cluster_idle_def split: if_splits)
  next
    case (Cons cpu rest)
    define s where "s = cluster_prev_sum W lrq cpu (cpu # rest) g"
    have up: "lse_gov_update_cpufreq k W (policy_of_cpu g cpu) s g = Inl f" and flag: "gov_flag g ! nat (cl_id c) \<noteq> 0"
      using run id by (auto simp: update_cluster_freq_def id_in_range_def Cons s_def split: if_splits)
    show ?thesis
    proof (cases "\<exists>pol. policy_of_cpu g cpu = Some pol \<and> governor_data g pol \<noteq> None")
      case True
      then obtain pol where pol: "policy_of_cpu g cpu = Some pol" "gov_ready g pol"
        using attached_ready [OF att] by blast
      from update_cpufreq_fault [OF up [unfolded pol(1)] pol(2)] show ?thesis by blast
    next
      case False
      then have "cluster_unserved k g c" using flag by (auto simp: cluster_unserved_def Cons split: option.split)
      moreover have "f = Null_Deref" using False up by (auto simp: lse_gov_update_cpufreq_def split: option.splits)
      ultimately show ?thesis by blast
    qed
  qed
qed (use run in \<open>auto simp: update_cluster_freq_def id_in_range_def split: if_splits\<close>)

text \<open>One turn leaves alone what the next ones read.\<close>

lemma update_cluster_freq_frame:
  assumes run: "update_cluster_freq k W lrq c g = Inr g'" and att: "attached b g"
  shows "attached b g'" "ctl g' = ctl g" "cluster_idle k g' = cluster_idle k g" "cluster_unserved k g' = cluster_unserved k g"
proof -
  have keep: "attached b g' \<and> ctl g' = ctl g \<and> gov_flag g' = gov_flag g \<and> policy_of_cpu g' = policy_of_cpu g \<and>
      (\<forall>pol. governor_data g' pol = None \<longleftrightarrow> governor_data g pol = None)"
  proof (cases "g' = g")
    case False
    then obtain pp s where up: "lse_gov_update_cpufreq k W pp s g = Inr g'"
      using run by (auto simp: update_cluster_freq_def Let_def split: if_splits list.splits)
    then obtain pol lg where lg: "pp = Some pol" "governor_data g pol = Some lg"
      by (auto simp: lse_gov_update_cpufreq_def split: option.splits)
    obtain tn where tn: "lg_tunables_obj g lg = Some tn" using attached_ready [OF att, of pol] lg(2) by (auto simp: gov_ready_def)
    obtain raw lg1 where raw: "get_next_freq k (ctl g) W (policy_obj g pol) (Some tn) s lg = Inr (raw, lg1)"
      using up lg tn by (auto simp: lse_gov_update_cpufreq_def ebind_eq_Inr Let_def)
    from update_cpufreq_spec [OF lg(2) tn raw] obtain f lg' where g': "g' = commit_freq pol f lg' g"
      using up lg(1) by auto
    moreover have "governor_data g' p = None \<longleftrightarrow> governor_data g p = None" for p
      using lg(2) by (simp add: g' commit_freq_result)
    moreover have "attached b g'" using update_attached [OF _ att] up lg(1) by blast
    ultimately show ?thesis by simp
  qed (simp add: att)
  then show "attached b g'" "ctl g' = ctl g" by blast+
  show "cluster_idle k g' = cluster_idle k g" using keep by (simp add: cluster_idle_def fun_eq_iff)
  show "cluster_unserved k g' = cluster_unserved k g"
    using keep by (simp add: cluster_unserved_def fun_eq_iff split: list.split option.split)
qed

lemma rollover_fault:
  assumes "lsegov_update_freq k W lrq cs r g = Inl f" "attached b g"
  shows "f = Div_By_Zero \<and> gov_legacy_formula_enable (ctl g) \<noteq> 0 \<or>
    f = Out_Of_Bounds \<and> (\<exists>c \<in> set cs. \<not> id_in_range (cl_id c) \<or> cluster_idle k g c) \<or>
    f = Null_Deref \<and> (\<exists>c \<in> set cs. cluster_unserved k g c)"
proof -
  have "efold (update_cluster_freq k W lrq) cs h = Inl f \<Longrightarrow> attached b h \<Longrightarrow>
    f = Div_By_Zero \<and> gov_legacy_formula_enable (ctl h) \<noteq> 0 \<or>
    f = Out_Of_Bounds \<and> (\<exists>c \<in> set cs. \<not> id_in_range (cl_id c) \<or> cluster_idle k h c) \<or>
    f = Null_Deref \<and> (\<exists>c \<in> set cs. cluster_unserved k h c)" for h
  proof (induction cs arbitrary: h)
    case (Cons c cs)
    show ?case
    proof (cases "update_cluster_freq k W lrq c h")
      case (Inl f')
      then have "f' = f" using Cons.prems(1) by simp
      with update_cluster_freq_fault [OF Inl Cons.prems(2)] show ?thesis by auto
    next
      case (Inr h1)
      note frame = update_cluster_freq_frame [OF Inr Cons.prems(2)]
      have "efold (update_cluster_freq k W lrq) cs h1 = Inl f" using Cons.prems(1) Inr by simp
      from Cons.IH [OF this frame(1)] show ?thesis unfolding frame by auto
    qed
  qed simp
  then show ?thesis using assms by (auto simp: lsegov_update_freq_def split: if_splits)
qed

lemma tick_attached:
  assumes tick: "lse_gov_tick_update k W lrq d now now2 rq g = Inr g'" and att: "attached b g"
  shows "attached b g'"
proof (cases "now - last_tick_ns (lse_gov_rq_data g (rq_cpu rq)) < LSE_GOV_RATE_LIMIT_NS \<or>
    policy_of_cpu g (rq_cpu rq) = None \<or> governor_data g (the (policy_of_cpu g (rq_cpu rq))) = None")
  case True
  then have "lse_gov_tick_update k W lrq d now now2 rq g = Inr g"
    using tick_limited by (auto simp: lse_gov_tick_update_def Let_def split: option.split)
  then show ?thesis using tick att by simp
next
  case False
  then obtain pol lg where pol: "policy_of_cpu g (rq_cpu rq) = Some pol" "governor_data g pol = Some lg" by auto
  obtain tn where tn: "lg_tunables_obj g lg = Some tn"
    using attached_ready [OF att, of pol] pol(2) by (auto simp: gov_ready_def)
  have due: "\<not> now - last_tick_ns (lse_gov_rq_data g (rq_cpu rq)) < LSE_GOV_RATE_LIMIT_NS" using False by blast
  from tick_effective [OF pol tn due, of k W lrq d now2] tick obtain f lg' grq where
    g': "g' = commit_freq pol f lg' (g\<lparr>lse_gov_rq_data := (lse_gov_rq_data g)(rq_cpu rq := grq)\<rparr>)"
    "lg_tunables lg' = lg_tunables lg" by auto
  let ?h = "g\<lparr>lse_gov_rq_data := (lse_gov_rq_data g)(rq_cpu rq := grq)\<rparr>"
  have "attached b ?h"
    using att same_links_attached [of g ?h] by (simp add: same_links_def tunables_ptr_def attr_list_def fun_eq_iff)
  moreover have "governor_data ?h pol = Some lg" using pol(2) by simp
  ultimately show ?thesis
    using same_links_attached [OF same_links_commit] g' by metis
qed

lemma gov_step_attached:
  assumes "gov_step k b g g'" "attached b g" shows "attached b g'"
  using assms
proof (induction rule: gov_step.induct)
  case (init env g pol)
  then show ?case using init_attached by blast
next
  case (exit env pol g g')
  obtain lg where "governor_data g pol = Some lg"
    using exit(2) by (auto simp: lse_gov_exit_def split: option.splits)
  then show ?case using exit_attached [OF exit(3,1)] exit(2) by fastforce
next
  case (start W pol g g')
  obtain lg where "governor_data g pol = Some lg"
    using start(1) by (auto simp: lse_gov_start_def Let_def split: option.splits)
  from start_attached [OF start(2) this] start(1) show ?case by (metis sum.inject(2))
next
  case (loads g t val n)
  then show ?case by (cases val) (simp_all add: target_loads_store_def upd_tunables_attached)
next
  case (store_max t val n g r g')
  from soft_limit_store_keeps [OF store_max(1) [unfolded soft_freq_max_store_def] store_max(2)]
  show ?case by simp
next
  case (store_min t val n g r g')
  from soft_limit_store_keeps [OF store_min(1) [unfolded soft_freq_min_store_def] store_min(2)]
  show ?case by simp
next
  case (store_cur t val n g r g')
  from soft_limit_store_keeps [OF store_cur(1) [unfolded soft_freq_cur_store_def] store_cur(2)]
  show ?case by simp
next
  case (store_apply g t val n)
  then show ?case by (cases val) (simp_all add: apply_freq_immediately_store_def upd_tunables_attached)
next
  case (ctl g c)
  then show ?case using same_links_attached [of g "g\<lparr>ctl := c\<rparr>"]
    by (simp add: same_links_def tunables_ptr_def attr_list_def fun_eq_iff)
qed (auto simp: stop_attached lse_gov_stop_eq update_attached tick_attached)

interpretation gov_sys: invariant_system gov_boot "gov_step k b" "attached b" for k b
proof unfold_locales
  fix g h
  show "gov_boot g \<Longrightarrow> attached b g"
    by (simp add: gov_boot_def attached_def links_ok_def tunables_ptr_def attr_list_def)
  show "attached b g \<Longrightarrow> gov_step k b g h \<Longrightarrow> attached b h" by (rule gov_step_attached)
qed

section \<open>A governor for the examples\<close>

definition demo_gov_policy :: cpufreq_policy where
  "demo_gov_policy =
     \<lparr>pol_cpu = 0, pol_cpus = [0, 1], related_cpus = [0, 1], cpuinfo_min_freq = 500000,
      cpuinfo_max_freq = 2000000, pol_min = 500000, pol_max = 2000000, pol_cur = 1000000,
      fast_switch_enabled = True, dvfs_possible_from_any_cpu = False\<rparr>"

definition demo_tunables :: lse_gov_tunables where
  "demo_tunables = \<lparr>target_loads = 90, soft_freq_max = 1800000, soft_freq_min = 600000,
     apply_freq_immediately = True, attr_policies = [0]\<rparr>"

definition demo_lg :: lse_gov_policy where
  "demo_lg = lse_gov_policy_alloc\<lparr>lg_tunables := Some 0, target_load_base := 90,
     target_load_min := 70, target_load_max := 95, target_load_step := 2,
     cluster_window_ns := 16000000, cluster_freq_cap_max := 2000000, cluster_freq_cap_min := 500000\<rparr>"

definition demo_ctl :: gov_ctl where
  "demo_ctl = \<lparr>util_norm_enable = 1, cluster_window_enable = 1, cluster_tl_dyn_enable = 1,
     cluster_freq_cap_enable = 1, cluster_agg_mode = 1, gov_legacy_formula_enable = 0\<rparr>"

definition demo_grq :: lse_gov_rq where
  "demo_grq = \<lparr>last_tick_ns = 1000000, curr_util = 300, cached_this_sum = 5000000, cached_agg_util = 300\<rparr>"

text \<open>Policy 0 of the CPUs 0 and 1 runs the governor, with the tunables 0.\<close>

definition demo_gov :: gov where
  "demo_gov =
     \<lparr>ctl = demo_ctl, gov_flag = [1, 0, 0, 0],
      lse_cluster_cfg = [], lse_gov_rq_data = (\<lambda>_. demo_grq), lse_gov_cpu = (\<lambda>_. Some (0, 0)),
      update_hook = (\<lambda>_. True), policy_of_cpu = (\<lambda>cpu. if cpu < 2 then Some 0 else None),
      policy_obj = (\<lambda>_. demo_gov_policy), governor_data = [0 \<mapsto> demo_lg], lg_freed = (\<lambda>_. 0),
      tunables_obj = [0 \<mapsto> demo_tunables], tunables_next = 1, global_tunables = Some 0,
      cached_tunables = (\<lambda>_. None), requests = []\<rparr>"

lemma demo_gov_sel [simp]:
  "ctl demo_gov = demo_ctl" "gov_flag demo_gov = [1, 0, 0, 0]" "lse_gov_rq_data demo_gov cpu = demo_grq"
  "policy_of_cpu demo_gov 0 = Some 0" "policy_obj demo_gov pol = demo_gov_policy"
  "governor_data demo_gov 0 = Some demo_lg" "tunables_obj demo_gov 0 = Some demo_tunables"
  "lg_tunables_obj demo_gov demo_lg = Some demo_tunables" "requests demo_gov = []"
  "gov_ready demo_gov 0" "gov_legacy_formula_enable demo_ctl = 0"
  by (simp_all add: demo_gov_def lg_tunables_obj_def demo_lg_def gov_ready_def demo_ctl_def)

lemma demo_lg_sel [simp]:
  "cluster_freq_cap_max demo_lg = 2000000" "cluster_freq_cap_min demo_lg = 500000"
  "lg_tunables demo_lg = Some 0" "next_freq demo_lg = 0" "started_loads demo_lg"
  by (simp_all add: demo_lg_def lse_gov_policy_alloc_def started_loads_def)

definition demo_gov_lrq :: "u64 \<Rightarrow> lse_rq" where
  "demo_gov_lrq s = \<lparr>lrq_cluster = None, freq_domain_cpumask = [], window_start = 0, latest_clock = 0,
     prev_window_size = 16000000, task_exec_scale = 1024, prev_runnable_sum = s, curr_runnable_sum = 0\<rparr>"

definition demo_cluster :: "int \<Rightarrow> nat list \<Rightarrow> lse_sched_cluster" where
  "demo_cluster i cpus = \<lparr>cl_cpus = cpus, cl_id = i, max_possible_capacity = 1024,
     cl_cur_freq = 0, cl_max_freq = 0, cl_min_freq = 0, capacity_margin = 0, sd_capacity_margin = 0, freq_init_done = True\<rparr>"

section \<open>Properties\<close>

text \<open>Whatever the soft limits and the caps are, \<open>soft_freq_clamp\<close> clamps every target frequency
  to one interval: it is monotone, and applying it again changes nothing.\<close>

theorem gov_clamp_interval:
  "\<exists>lo hi. lo \<le> hi \<and> (\<forall>f. soft_freq_clamp c (Some tn) f lg =
     Inr (clamp_t f lo hi, lg\<lparr>last_freq_cap_applied := clamp_t f lo hi\<rparr>))"
  by (intro exI [of _ "freq_lo c tn lg"] exI [of _ "freq_hi c tn lg"] conjI allI freq_limit.lo_le_hi)
     (simp add: soft_freq_clamp_eq freq_limit.lim_eq [symmetric])

text \<open>With the caps enabled and in order, the result of \<open>soft_freq_clamp\<close> is within the caps,
  whatever the soft limits say; with soft limits inside the caps it is the target clamped to the
  soft limits.\<close>

theorem gov_clamp_caps:
  assumes "cluster_freq_cap_enable c \<noteq> 0" "cluster_freq_cap_max lg \<noteq> 0"
    and "cluster_freq_cap_min lg \<le> cluster_freq_cap_max lg"
    and "soft_freq_clamp c (Some tn) target lg = Inr (f, lg')"
  shows "cluster_freq_cap_min lg \<le> f \<and> f \<le> cluster_freq_cap_max lg \<and>
    (0 \<le> soft_freq_min tn \<and> soft_freq_min tn \<le> soft_freq_max tn \<and> soft_freq_max tn < 2 ^ 31 \<and>
     cluster_freq_cap_min lg \<le> word_of_int (soft_freq_min tn) \<and>
     word_of_int (soft_freq_max tn) \<le> cluster_freq_cap_max lg \<longrightarrow>
     f = clamp_t target (word_of_int (soft_freq_min tn)) (word_of_int (soft_freq_max tn)))"
proof -
  have f: "f = limit_freq c tn lg target" using assms(4) by (simp add: soft_freq_clamp_eq)
  show ?thesis using limit_freq_caps [OF assms(1-3)] limit_freq_soft [of tn c lg target] assms(1,2)
    by (simp add: f cap_lo_def cap_hi_def)
qed

theorem gov_clamp_caps_witness:
  "soft_freq_clamp demo_ctl (Some demo_tunables) 1900000 demo_lg =
     Inr (1800000, demo_lg\<lparr>last_freq_cap_applied := 1800000\<rparr>) \<and> (500000 :: u32) \<le> 1800000"
proof -
  have run: "soft_freq_clamp demo_ctl (Some demo_tunables) 1900000 demo_lg =
     Inr (1800000, demo_lg\<lparr>last_freq_cap_applied := 1800000\<rparr>)"
    by (simp add: soft_freq_clamp_def clamp_cap_def clamp_soft_def demo_tunables_def demo_ctl_def)
  show ?thesis using gov_clamp_caps [OF _ _ _ run] run by (simp add: demo_ctl_def)
qed

text \<open>With the settings that \<open>lse_gov_start\<close> leaves in the policy, the target load computed is 88,
  90 or 92, whatever the pressure: the adjustment starts from the base each time and never
  accumulates, although the range set is 70 to 95.\<close>

theorem gov_target_load_range:
  assumes "lse_gov_start k W pol g = Inr g'"
  shows "\<exists>lg. governor_data g' pol = Some lg \<and> target_load_min lg = 70 \<and> target_load_max lg = 95 \<and>
    (\<forall>c p u. fst (lse_dynamic_target_load c p u lg) \<in> {88, 90, 92})"
proof -
  obtain lg0 where "governor_data g pol = Some lg0"
    using assms by (auto simp: lse_gov_start_def Let_def split: option.splits)
  then obtain lg where lg: "governor_data g' pol = Some lg" "started_loads lg"
    using assms by (auto simp: lse_gov_start_def Let_def set_governor_data_def started_loads_def
        DEFAULT_TARGET_LOAD_def split: if_splits)
  then show ?thesis using started_target_load [of lg] by (auto simp: started_loads_def)
qed

theorem gov_target_load_range_witness:
  "\<exists>g' lg. lse_gov_start demo_kernel 16000000 0 demo_gov = Inr g' \<and> governor_data g' 0 = Some lg \<and>
     fst (lse_dynamic_target_load demo_ctl demo_gov_policy 1024 lg) \<in> {88, 90, 92}"
proof -
  obtain g' where "lse_gov_start demo_kernel 16000000 0 demo_gov = Inr g'"
    by (simp add: lse_gov_start_def Let_def)
  then show ?thesis using gov_target_load_range by fast
qed

lemma target_loads_lg: "lg_tunables_obj (upd_tunables t f g) lg =
  (if lg_tunables lg = Some t then map_option f (lg_tunables_obj g lg) else lg_tunables_obj g lg)"
  by (simp add: lg_tunables_obj_def upd_tunables_def split: option.split)

lemma target_loads_inert:
  "get_next_freq k c W p (map_option (\<lambda>tn. tn\<lparr>target_loads := v\<rparr>) x) s lg = get_next_freq k c W p x s lg"
  "soft_freq_clamp c (map_option (\<lambda>tn. tn\<lparr>target_loads := v\<rparr>) x) f lg = soft_freq_clamp c x f lg"
  by (cases x, simp_all add: get_next_freq_target_loads)
     (cases x, simp_all add: soft_freq_clamp_def clamp_soft_eq soft_lo_def soft_hi_def)

lemma upd_tunables_simps [simp]:
  "ctl (upd_tunables t f g) = ctl g" "policy_obj (upd_tunables t f g) = policy_obj g"
  "governor_data (upd_tunables t f g) = governor_data g"
  by (simp_all add: upd_tunables_def)

lemma commit_upd_tunables: "commit_freq pol f lg (upd_tunables t h g) = upd_tunables t h (commit_freq pol f lg g)"
  by (simp add: commit_freq_def set_governor_data_def upd_tunables_def request_freq_def)

text \<open>C40: The tunable \<open>target_loads\<close> has no effect on the frequency: an update after a write to it makes
  the same requests and leaves the same policy data as the update before the write, or the same
  fault.\<close>

theorem gov_target_loads_unused:
  "lse_gov_update_cpufreq k W (Some pol) s (snd (target_loads_store t (Some v) n g)) =
   map_sum id (\<lambda>g'. snd (target_loads_store t (Some v) n g')) (lse_gov_update_cpufreq k W (Some pol) s g)"
proof (cases "governor_data g pol")
  case None
  then show ?thesis by (simp add: lse_gov_update_cpufreq_def target_loads_store_def)
next
  case (Some lg)
  let ?tn = "lg_tunables_obj g lg"
  show ?thesis
  proof (cases "get_next_freq k (ctl g) W (policy_obj g pol) ?tn s lg")
    case (Inl e)
    then show ?thesis using Some
      by (simp add: lse_gov_update_cpufreq_def target_loads_store_def target_loads_lg target_loads_inert Let_def)
  next
    case (Inr r)
    show ?thesis
    proof (cases "soft_freq_clamp (ctl g) ?tn (fst r) (snd r)")
      case (Inl e)
      then show ?thesis using Some Inr
        by (simp add: lse_gov_update_cpufreq_def target_loads_store_def target_loads_lg target_loads_inert
            Let_def split_def)
    next
      case (Inr q)
      then show ?thesis using Some \<open>get_next_freq _ _ _ _ _ _ _ = Inr r\<close>
        by (simp add: lse_gov_update_cpufreq_def target_loads_store_def target_loads_lg target_loads_inert
            Let_def split_def commit_upd_tunables)
    qed
  qed
qed

lemma sum_to_util_bound: "W \<noteq> 0 \<Longrightarrow> unat (sum_to_util s W) \<le> 1024"
proof -
  have "min (push_bit SCHED_CAPACITY_SHIFT s div ucast W) (of_nat SCHED_CAPACITY_SCALE) \<le> (1024 :: u64)"
    by (simp add: SCHED_CAPACITY_SCALE_def)
  then have "unat (min (push_bit SCHED_CAPACITY_SHIFT s div ucast W) (of_nat SCHED_CAPACITY_SCALE)) \<le> 1024"
    by (simp add: u64_le_iff)
  then show ?thesis by (simp add: sum_to_util_def unat_u32_of_u64)
qed

lemma max_1_nonzero: "max (w :: u32) 1 \<noteq> 0"
  by (auto simp: max_def)

text \<open>The utilisation is out of 1024 and the target load out of 100, so from a utilisation of 92 (9
  per cent of the capacity) on, the frequency asked for is never below the current one: with the
  settings of \<open>lse_gov_start\<close> a cluster that is nearly idle is not slowed down.\<close>

theorem gov_frequency_not_lowered:
  assumes "get_next_freq k c W p tn s lg = Inr (f, lg')" "gov_legacy_formula_enable c = 0"
    and "started_loads lg" "92 \<le> last_agg_util lg'" "pol_cur p \<noteq> 0" "unat (pol_cur p) < 2 ^ 22"
  shows "pol_cur p \<le> f"
proof -
  define u where "u = sum_to_util s (max (lse_get_policy_window_ns c W lg) 1)"
  obtain tl x where d: "lse_dynamic_target_load c p u lg = (tl, lg\<lparr>last_power_pressure := x\<rparr>)"
    using dynamic_target_load_frame [of c p u lg] by (metis prod.collapse)
  have tl: "tl \<in> {88, 90, 92}" using started_target_load [OF assms(3), of c p u] by (simp add: d)
  have f: "f = scaled_freq p (pol_cur p) u tl" and u: "last_agg_util lg' = u"
    using assms(1,2,5) by (auto simp: get_next_freq_def Let_def u_def [symmetric] d)
  have "tl \<le> 92" "0 < tl" using tl by auto
  moreover have "92 \<le> u" using assms(4) u by simp
  moreover have "unat u \<le> 1024" unfolding u_def by (rule sum_to_util_bound [OF max_1_nonzero])
  ultimately have ge: "pol_cur p \<le> ucast ((ucast (pol_cur p) * ucast u :: u64) div ucast (max tl 1))"
    using assms(6) by (intro next_freq_not_lower) auto
  then show ?thesis using assms(5) by (auto simp: f scaled_freq_def Let_def)
qed

theorem gov_frequency_not_lowered_witness:
  "\<exists>f lg'. get_next_freq demo_kernel demo_ctl 16000000 demo_gov_policy (Some demo_tunables) 2000000 demo_lg =
     Inr (f, lg') \<and> 1000000 \<le> f"
proof -
  obtain f lg' where run: "get_next_freq demo_kernel demo_ctl 16000000 demo_gov_policy (Some demo_tunables)
      2000000 demo_lg = Inr (f, lg')" using get_next_freq_total [OF demo_gov_sel(11)] by blast
  have "last_agg_util lg' = 128"
    by (simp add: get_next_freq_agg_util [OF run] lse_get_policy_window_ns_def demo_ctl_def sum_to_util_def kernel_consts
      demo_lg_def lse_gov_policy_alloc_def)
  then show ?thesis using gov_frequency_not_lowered [OF run] run by (simp add: demo_gov_policy_def)
qed

text \<open>The tick path is rate limited per CPU: after a tick that updates the policy, a tick of the same
  CPU less than 400 microseconds later changes nothing, whatever the load has become.\<close>

theorem gov_tick_rate_limit:
  assumes "policy_of_cpu g (rq_cpu rq) = Some pol" "gov_ready g pol"
    and "\<not> now - last_tick_ns (lse_gov_rq_data g (rq_cpu rq)) < LSE_GOV_RATE_LIMIT_NS"
    and "later - now < 400000" "rq_cpu rq' = rq_cpu rq"
  shows "\<exists>g'. lse_gov_tick_update k W lrq d now now2 rq g = Inr g' \<and>
    lse_gov_tick_update k W lrq' d' later later2 rq' g' = Inr g'"
proof -
  obtain lg tn where lg: "governor_data g pol = Some lg" "lg_tunables_obj g lg = Some tn"
    using assms(2) by (auto simp: gov_ready_def)
  from tick_effective [OF assms(1) lg assms(3), of k W lrq d now2] obtain g' lg' grq f where
    g': "lse_gov_tick_update k W lrq d now now2 rq g = Inr g'"
      "g' = commit_freq pol f lg' (g\<lparr>lse_gov_rq_data := (lse_gov_rq_data g)(rq_cpu rq := grq)\<rparr>)"
    and last: "last_tick_ns grq = now" by blast
  have "later - last_tick_ns (lse_gov_rq_data g' (rq_cpu rq')) < LSE_GOV_RATE_LIMIT_NS"
    using assms(4,5) last by (simp add: g'(2) LSE_GOV_RATE_LIMIT_NS_def)
  with g'(1) show ?thesis by (intro exI [of _ g']) (simp add: tick_limited)
qed

theorem gov_tick_rate_limit_witness:
  "\<exists>g'. lse_gov_tick_update demo_kernel 16000000 (\<lambda>_. demo_gov_lrq 4000000) boot_dsq 2000000 2000100 (demo_rq 0 5) demo_gov
     = Inr g' \<and>
   lse_gov_tick_update demo_kernel 16000000 (\<lambda>_. demo_gov_lrq 9000000) boot_dsq 2300000 2300100 (demo_rq 0 6) g' = Inr g'"
  by (rule gov_tick_rate_limit [where pol = 0])
     (simp_all add: demo_rq_def demo_grq_def LSE_GOV_RATE_LIMIT_NS_def)

text \<open>The age check of the cached utilisation is never effective in the tick path: \<open>last_tick_ns\<close> is
  set to the current time just before \<open>lse_gov_cluster_util\<close> compares it, so that a cached value is
  reused however long ago it was computed, as long as the sum of this CPU has changed by less than
  5 per cent.\<close>

theorem gov_stale_util_reused:
  assumes "policy_of_cpu g (rq_cpu rq) = Some pol" "gov_ready g pol"
    and "\<not> now - last_tick_ns (lse_gov_rq_data g (rq_cpu rq)) < LSE_GOV_RATE_LIMIT_NS"
    and "now2 - now < UTIL_CACHE_STALE_NS"
    and "cached_agg_util (lse_gov_rq_data g (rq_cpu rq)) = old" "old \<noteq> 0"
    and "cached_this_sum (lse_gov_rq_data g (rq_cpu rq)) = s" "s \<noteq> 0"
    and "prev_runnable_sum (lrq (rq_cpu rq)) = s"
  shows "\<exists>g'. lse_gov_tick_update k W lrq d now now2 rq g = Inr g' \<and>
    curr_util (lse_gov_rq_data g' (rq_cpu rq)) = ucast old \<and>
    cached_agg_util (lse_gov_rq_data g' (rq_cpu rq)) = old"
proof -
  obtain lg tn where lg: "governor_data g pol = Some lg" "lg_tunables_obj g lg = Some tn"
    using assms(2) by (auto simp: gov_ready_def)
  let ?q = "(lse_gov_rq_data g (rq_cpu rq))\<lparr>last_tick_ns := now\<rparr>"
  have util: "lse_gov_cluster_util (ctl g) W lrq (policy_obj g pol) (rq_cpu rq) now2 ?q =
    (old, ?q\<lparr>cached_this_sum := s\<rparr>)"
    using assms(4-9) by (simp add: lse_gov_cluster_util_def Let_def word_neq_0_conv)
  have fault_free: "lg_tunables_obj (g\<lparr>lse_gov_rq_data := r\<rparr>) lg2 = Some tn"
    if "lg_tunables lg2 = lg_tunables lg" for r lg2
    using lg(2) lg_tunables_obj_cong [OF _ that, of "g\<lparr>lse_gov_rq_data := r\<rparr>" g] by simp
  obtain tl x where dyn: "tick_target_load (ctl g) (policy_obj g pol) (dsq_boosted old (lse_dsq_urgency_signal d)) lg =
      (tl, lg\<lparr>last_power_pressure := x\<rparr>)"
    using tick_target_load_frame by (metis prod.collapse)
  show ?thesis using assms(1,3,5) lg(1) util
    by (simp add: lse_gov_tick_update_def Let_def dyn fault_free soft_freq_clamp_eq)
qed

theorem gov_stale_util_reused_witness:
  "\<exists>g'. lse_gov_tick_update demo_kernel 16000000 (\<lambda>_. demo_gov_lrq 5000000) boot_dsq 9000000000 9000000100 (demo_rq 0 5)
     demo_gov = Inr g' \<and> curr_util (lse_gov_rq_data g' 0) = 300"
proof -
  have "\<exists>g'. lse_gov_tick_update demo_kernel 16000000 (\<lambda>_. demo_gov_lrq 5000000) boot_dsq 9000000000 9000000100
      (demo_rq 0 5) demo_gov = Inr g' \<and> curr_util (lse_gov_rq_data g' (rq_cpu (demo_rq 0 5))) = ucast (300 :: u32) \<and>
      cached_agg_util (lse_gov_rq_data g' (rq_cpu (demo_rq 0 5))) = 300"
    by (rule gov_stale_util_reused [where pol = 0])
       (simp_all add: demo_rq_def demo_grq_def LSE_GOV_RATE_LIMIT_NS_def UTIL_CACHE_STALE_NS_def demo_gov_lrq_def)
  then show ?thesis by (auto simp: demo_rq_def)
qed

text \<open>C6: An update of a policy that runs the governor either returns or divides by zero, the latter only
  with the legacy formula switched on and before anything is stored.  When it returns, the frequency
  stored is the one the driver resolves from the limited frequency, and exactly one request is made
  for it when it differs from the one stored before, none otherwise.  It returns with the legacy
  formula off; with it on, when the policy has the target loads of \<open>lse_gov_start\<close>, the window has at
  least 100 ns, the policy has a current or a lowest frequency and no capacity is above 1024.\<close>

theorem gov_update_requests:
  assumes "governor_data g pol = Some lg" "lg_tunables_obj g lg = Some tn"
  shows "(case get_next_freq k (ctl g) W (policy_obj g pol) (Some tn) s lg of
      Inl f \<Rightarrow> f = Div_By_Zero \<and> gov_legacy_formula_enable (ctl g) \<noteq> 0 \<and>
        lse_gov_update_cpufreq k W (Some pol) s g = Inl Div_By_Zero
    | Inr (raw, lg1) \<Rightarrow> \<exists>g' lg'. lse_gov_update_cpufreq k W (Some pol) s g = Inr g' \<and>
        governor_data g' pol = Some lg' \<and>
        next_freq lg' = cpufreq_driver_resolve_freq k (policy_obj g pol) (limit_freq (ctl g) tn lg raw) \<and>
        requests g' = requests g @
          (if next_freq lg' = next_freq lg then []
           else if fast_switch_enabled (policy_obj g pol) then [Fast_Switch pol (next_freq lg')]
           else [Queue_Work pol])) \<and>
    (gov_legacy_formula_enable (ctl g) = 0 \<or>
     started_loads lg \<and> 100 \<le> unat W \<and> (\<forall>cpu. unat (arch_scale_cpu_capacity k cpu) \<le> 1024) \<and>
     (pol_cur (policy_obj g pol) \<noteq> 0 \<or> cpuinfo_min_freq (policy_obj g pol) \<noteq> 0) \<longrightarrow>
     (\<exists>g'. lse_gov_update_cpufreq k W (Some pol) s g = Inr g'))"
proof -
  let ?m = "get_next_freq k (ctl g) W (policy_obj g pol) (Some tn) s lg"
  have fault: "lse_gov_update_cpufreq k W (Some pol) s g = Inl f" if "?m = Inl f" for f
    using that assms by (simp add: lse_gov_update_cpufreq_def Let_def)
  have ret: "\<exists>lg'. lse_gov_update_cpufreq k W (Some pol) s g = Inr (commit_freq pol
        (cpufreq_driver_resolve_freq k (policy_obj g pol) (limit_freq (ctl g) tn lg raw)) lg' g) \<and>
      next_freq lg' = next_freq lg" if "?m = Inr (raw, lg1)" for raw lg1
    using update_cpufreq_spec [OF assms that] by blast
  have "\<exists>r. ?m = Inr r" if "gov_legacy_formula_enable (ctl g) = 0 \<or>
     started_loads lg \<and> 100 \<le> unat W \<and> (\<forall>cpu. unat (arch_scale_cpu_capacity k cpu) \<le> 1024) \<and>
     (pol_cur (policy_obj g pol) \<noteq> 0 \<or> cpuinfo_min_freq (policy_obj g pol) \<noteq> 0)"
    using that get_next_freq_total get_next_freq_legacy_total by blast
  moreover have "\<exists>g'. lse_gov_update_cpufreq k W (Some pol) s g = Inr g'" if "?m = Inr r" for r
    using ret that by (cases r) blast
  moreover have "case ?m of Inl f \<Rightarrow> f = Div_By_Zero \<and> gov_legacy_formula_enable (ctl g) \<noteq> 0 \<and>
        lse_gov_update_cpufreq k W (Some pol) s g = Inl Div_By_Zero
    | Inr (raw, lg1) \<Rightarrow> \<exists>g' lg'. lse_gov_update_cpufreq k W (Some pol) s g = Inr g' \<and>
        governor_data g' pol = Some lg' \<and>
        next_freq lg' = cpufreq_driver_resolve_freq k (policy_obj g pol) (limit_freq (ctl g) tn lg raw) \<and>
        requests g' = requests g @
          (if next_freq lg' = next_freq lg then []
           else if fast_switch_enabled (policy_obj g pol) then [Fast_Switch pol (next_freq lg')]
           else [Queue_Work pol])"
    using get_next_freq_fault fault ret
    by (auto split: sum.split) (fastforce simp: commit_freq_result request_freq_def)+
  ultimately show ?thesis by blast
qed

text \<open>With the legacy formula off, and with it on.\<close>

theorem gov_update_requests_witness:
  "(\<exists>g' lg'. lse_gov_update_cpufreq demo_kernel 16000000 (Some 0) 2000000 demo_gov = Inr g' \<and>
     governor_data g' 0 = Some lg' \<and>
     requests g' = (if next_freq lg' = 0 then [] else [Fast_Switch 0 (next_freq lg')])) \<and>
   (\<exists>g'. lse_gov_update_cpufreq demo_kernel 16000000 (Some 0) 2000000
     (demo_gov\<lparr>ctl := demo_ctl\<lparr>gov_legacy_formula_enable := 1\<rparr>\<rparr>) = Inr g')"
proof -
  let ?l = "demo_gov\<lparr>ctl := demo_ctl\<lparr>gov_legacy_formula_enable := 1\<rparr>\<rparr>"
  have fast: "fast_switch_enabled (policy_obj demo_gov 0)" by (simp add: demo_gov_policy_def)
  obtain raw lg1 where "get_next_freq demo_kernel (ctl demo_gov) 16000000 (policy_obj demo_gov 0) (Some demo_tunables)
      2000000 demo_lg = Inr (raw, lg1)" using get_next_freq_total [of demo_ctl] by fastforce
  then obtain g' lg' where "lse_gov_update_cpufreq demo_kernel 16000000 (Some 0) 2000000 demo_gov = Inr g'"
    "governor_data g' 0 = Some lg'" "requests g' = requests demo_gov @
      (if next_freq lg' = next_freq demo_lg then []
       else if fast_switch_enabled (policy_obj demo_gov 0) then [Fast_Switch 0 (next_freq lg')]
       else [Queue_Work 0])"
    using gov_update_requests [of demo_gov 0 demo_lg demo_tunables demo_kernel 16000000 2000000] by auto
  then have "\<exists>g' lg'. lse_gov_update_cpufreq demo_kernel 16000000 (Some 0) 2000000 demo_gov = Inr g' \<and>
     governor_data g' 0 = Some lg' \<and>
     requests g' = (if next_freq lg' = 0 then [] else [Fast_Switch 0 (next_freq lg')])"
    using fast by (intro exI [of _ g'] exI [of _ lg']) simp
  moreover have "\<exists>g'. lse_gov_update_cpufreq demo_kernel 16000000 (Some 0) 2000000 ?l = Inr g'"
  proof -
    have "governor_data ?l 0 = Some demo_lg" "lg_tunables_obj ?l demo_lg = Some demo_tunables"
      using lg_tunables_obj_cong [of ?l demo_gov demo_lg demo_lg] by simp_all
    from gov_update_requests [OF this, of demo_kernel 16000000 2000000] show ?thesis
      by (simp add: demo_gov_policy_def demo_kernel_def)
  qed
  ultimately show ?thesis by blast
qed

text \<open>When every cluster has an id below \<open>MAX_LSE_CLUSTERS\<close>, and every cluster whose flag is set has
  an online CPU whose policy runs the governor, a window rollover updates all clusters without a
  fault and keeps that so.\<close>

theorem gov_rollover_total:
  assumes "clusters_ready k cs g"
  shows "\<exists>g'. lsegov_update_freq k W lrq cs True g = Inr g' \<and> clusters_ready k cs g'"
  by (rule lsegov_update_freq_ready [OF assms])

lemma efold_append: "efold f (xs @ ys) s = ebind (efold f xs s) (efold f ys)"
proof (induction xs arbitrary: s)
  case (Cons x xs)
  then show ?case by (cases "f x s") simp_all
qed simp

lemma demo_clusters_ready: "clusters_ready demo_kernel [demo_cluster 0 [0, 1], demo_cluster 1 [4, 5]] demo_gov"
  by (simp add: clusters_ready_def demo_cluster_def demo_kernel_def MAX_LSE_CLUSTERS_def)

theorem gov_rollover_total_witness:
  "\<exists>g'. lsegov_update_freq demo_kernel 16000000 (\<lambda>_. demo_gov_lrq 5000000)
     [demo_cluster 0 [0, 1], demo_cluster 1 [4, 5]] True demo_gov = Inr g'"
  using gov_rollover_total [OF demo_clusters_ready] by fast

text \<open>The rollover indexes \<open>gov_flag\<close> with the cluster id unchecked: a cluster whose id is not below
  \<open>MAX_LSE_CLUSTERS\<close>, or is -1 as \<open>topology_cluster_id\<close> returns where it is unknown, makes it read
  outside the array.\<close>

theorem gov_cluster_id_unchecked:
  assumes "clusters_ready k before g" "cl_id c < 0 \<or> MAX_LSE_CLUSTERS \<le> cl_id c"
  shows "lsegov_update_freq k W lrq (before @ c # rest) True g = Inl Out_Of_Bounds"
proof -
  obtain g' where "efold (update_cluster_freq k W lrq) before g = Inr g'"
    using lsegov_update_freq_ready [OF assms(1), of W lrq True] by (auto simp: lsegov_update_freq_def)
  moreover have "update_cluster_freq k W lrq c g' = Inl Out_Of_Bounds"
    using assms(2) by (simp add: update_cluster_freq_def)
  ultimately show ?thesis by (simp add: lsegov_update_freq_def efold_append)
qed

theorem gov_cluster_id_unchecked_witness:
  "lsegov_update_freq demo_kernel 16000000 (\<lambda>_. demo_gov_lrq 5000000)
     ([demo_cluster 0 [0, 1], demo_cluster 1 [4, 5]] @ [demo_cluster (- 1) [7]]) True demo_gov = Inl Out_Of_Bounds"
  by (rule gov_cluster_id_unchecked [OF demo_clusters_ready]) (simp add: demo_cluster_def)

lemma fold_top2_map: "fold (\<lambda>x. top2_step (f x)) xs t = fold top2_step (map f xs) t"
  by (induction xs arbitrary: t) simp_all

text \<open>With the mode \<open>LSE_AGG_TOP2_AVG\<close> a utilisation that is not cached is the average of the two
  largest sums of the policy's CPUs over the window, wherever those CPUs are in the mask, and at
  most 1024.\<close>

theorem gov_cluster_util_top2:
  assumes "cluster_agg_mode c = LSE_AGG_TOP2_AVG" "cached_agg_util grq = 0"
  shows "\<exists>t1 t2 rest. mset (map (\<lambda>cpu. prev_runnable_sum (lrq cpu)) (pol_cpus p)) + {#0, 0#} = {#t1, t2#} + rest \<and>
    t2 \<le> t1 \<and> (\<forall>r \<in># rest. r \<le> t2) \<and>
    fst (lse_gov_cluster_util c W lrq p cpu now grq) = sum_to_util ((t1 + t2) div 2) (max W 1) \<and>
    unat (fst (lse_gov_cluster_util c W lrq p cpu now grq)) \<le> 1024"
proof -
  let ?xs = "map (\<lambda>cpu. prev_runnable_sum (lrq cpu)) (pol_cpus p)"
  obtain t1 t2 where run: "fold top2_step ?xs (0, 0) = (t1, t2)" by fastforce
  obtain rest where "mset (0 # 0 # ?xs) = {#t1, t2#} + rest" "\<forall>r \<in># rest. r \<le> t2"
    using fold_top2 [OF run] by auto
  moreover have "t2 \<le> t1" using fold_top2_ge [OF run] by simp
  moreover have "fst (lse_gov_cluster_util c W lrq p cpu now grq) = sum_to_util ((t1 + t2) div 2) (max W 1)"
    using assms run fold_top2_map [of "\<lambda>cpu. prev_runnable_sum (lrq cpu)"]
    by (simp add: lse_gov_cluster_util_def Let_def)
  moreover have "unat (sum_to_util ((t1 + t2) div 2) (max W 1)) \<le> 1024"
    by (rule sum_to_util_bound [OF max_1_nonzero])
  ultimately show ?thesis by (intro exI [of _ t1] exI [of _ t2] exI [of _ rest]) (simp add: union_commute)
qed

theorem gov_cluster_util_top2_witness:
  "unat (fst (lse_gov_cluster_util demo_ctl 16000000 (\<lambda>cpu. demo_gov_lrq (of_nat cpu * 1000000))
     (demo_gov_policy\<lparr>pol_cpus := [0, 3, 1, 2]\<rparr>) 0 5 (demo_grq\<lparr>cached_agg_util := 0\<rparr>))) \<le> 1024"
proof -
  have "cluster_agg_mode demo_ctl = LSE_AGG_TOP2_AVG" "cached_agg_util (demo_grq\<lparr>cached_agg_util := 0\<rparr>) = 0"
    by (simp_all add: demo_ctl_def LSE_AGG_TOP2_AVG_def)
  from gov_cluster_util_top2 [OF this] show ?thesis by blast
qed

text \<open>C16: In every reachable state a policy that runs the governor points to a tunables object that is
  allocated and lists the policy, and every tunables object that is allocated is listed by at least
  one policy, and lists exactly once each policy that points to it: nothing dangles and nothing
  leaks, through any sequence of init, start, updates, ticks, sysfs writes, stop and exit.\<close>

theorem gov_policies_attached:
  assumes "gov_boot g0" "(gov_step k b)\<^sup>*\<^sup>* g0 g"
  shows "(\<forall>pol lg. governor_data g pol = Some lg \<longrightarrow>
      (\<exists>t tn. lg_tunables lg = Some t \<and> tunables_obj g t = Some tn \<and> pol \<in> set (attr_policies tn))) \<and>
    (\<forall>t tn. tunables_obj g t = Some tn \<longrightarrow> attr_policies tn \<noteq> [] \<and> distinct (attr_policies tn) \<and>
      (\<forall>pol \<in> set (attr_policies tn). \<exists>lg. governor_data g pol = Some lg \<and> lg_tunables lg = Some t))"
proof -
  have ok: "links_ok b (tunables_ptr g) (attr_list g) (global_tunables g) (tunables_next g)"
    using gov_sys.inv_reachable [OF assms] by (simp add: attached_def)
  show ?thesis
  proof (intro conjI allI impI ballI)
    fix pol lg assume lg: "governor_data g pol = Some lg"
    then have "tunables_ptr g pol = Some (lg_tunables lg)" by (simp add: tunables_ptr_def)
    from links_okD(1) [OF ok this]
    show "\<exists>t tn. lg_tunables lg = Some t \<and> tunables_obj g t = Some tn \<and> pol \<in> set (attr_policies tn)"
      by (auto simp: attr_list_def)
  next
    fix t tn assume "tunables_obj g t = Some tn"
    then have lst: "attr_list g t = Some (attr_policies tn)" by (simp add: attr_list_def)
    then show "attr_policies tn \<noteq> []" "distinct (attr_policies tn)" using links_okD(2) [OF ok] by blast+
    fix pol assume "pol \<in> set (attr_policies tn)"
    then have "tunables_ptr g pol = Some (Some t)" by (rule links_okD(3) [OF ok lst])
    then show "\<exists>lg. governor_data g pol = Some lg \<and> lg_tunables lg = Some t" by (auto simp: tunables_ptr_def)
  qed
qed

definition demo_env :: gov_env where
  "demo_env = \<lparr>fast_switch_possible = True, lg_alloc_ok = True, kthread_ret = 0,
     have_governor_per_policy = False, tunables_alloc_ok = True, kobject_ret = 0, cached_alloc_ok = True\<rparr>"

definition demo_boot_gov :: gov where
  "demo_boot_gov = demo_gov\<lparr>gov_flag := [0, 0, 0, 0], lse_gov_cpu := Map.empty, governor_data := Map.empty, tunables_obj := Map.empty, tunables_next := 0,
     global_tunables := None\<rparr>"

lemma demo_boot: "gov_boot demo_boot_gov"
  by (simp add: gov_boot_def demo_boot_gov_def)

lemma demo_two_inits:
  "(gov_step demo_kernel False)\<^sup>*\<^sup>* demo_boot_gov (snd (lse_gov_init demo_env 4 (snd (lse_gov_init demo_env 0 demo_boot_gov))))"
proof -
  have "gov_step demo_kernel False g (snd (lse_gov_init demo_env pol g))" for pol g
    by (rule gov_step.init) (simp add: demo_env_def)
  then show ?thesis by (meson converse_rtranclp_into_rtranclp rtranclp.rtrancl_refl)
qed

lemma demo_two_attached:
  "governor_data (snd (lse_gov_init demo_env 4 (snd (lse_gov_init demo_env 0 demo_boot_gov)))) 4 \<noteq> None"
  by (simp add: lse_gov_init_def demo_boot_gov_def demo_env_def Let_def lse_gov_kthread_create_def
      set_fast_switch_def set_dvfs_any_cpu_def set_governor_data_def upd_tunables_def)

theorem gov_policies_attached_witness:
  "\<exists>t tn. tunables_obj (snd (lse_gov_init demo_env 4 (snd (lse_gov_init demo_env 0 demo_boot_gov)))) t = Some tn \<and>
     4 \<in> set (attr_policies tn)"
proof -
  obtain lg where "governor_data (snd (lse_gov_init demo_env 4
      (snd (lse_gov_init demo_env 0 demo_boot_gov)))) 4 = Some lg"
    using demo_two_attached by blast
  then show ?thesis using gov_policies_attached [OF demo_boot demo_two_inits] by blast
qed

text \<open>In every reachable state the exit of a policy that runs the governor returns.  The policy then
  has no governor data, no other policy loses its own, and the tunables object is freed exactly when
  this policy was the last one that it listed.  A copy that the exit keeps of the tunables is zeroed:
  nothing that user space had set survives it.\<close>

theorem gov_exit_frees_last:
  assumes "gov_boot g0" "(gov_step k b)\<^sup>*\<^sup>* g0 g" "have_governor_per_policy env = b"
    and "governor_data g pol = Some lg"
  shows "\<exists>g' t tn. lse_gov_exit env pol g = Inr g' \<and>
    governor_data g' = (governor_data g)(pol := None) \<and>
    lg_tunables lg = Some t \<and> tunables_obj g t = Some tn \<and>
    (tunables_obj g' t = None \<longleftrightarrow> attr_policies tn = [pol]) \<and>
    (\<forall>cpu. cached_tunables g' cpu \<in> {cached_tunables g cpu, Some zeroed_tunables})"
proof -
  have att: "attached b g" by (rule gov_sys.inv_reachable [OF assms(1,2)])
  then have ok: "links_ok b (tunables_ptr g) (attr_list g) (global_tunables g) (tunables_next g)"
    by (simp add: attached_def)
  have "tunables_ptr g pol = Some (lg_tunables lg)" using assms(4) by (simp add: tunables_ptr_def)
  from links_okD(1) [OF ok this] obtain t tn where t: "lg_tunables lg = Some t" "tunables_obj g t = Some tn"
    "pol \<in> set (attr_policies tn)" by (auto simp: attr_list_def)
  have last: "remove1 pol (attr_policies tn) = [] \<longleftrightarrow> attr_policies tn = [pol]"
    using t(3) by (cases "attr_policies tn") auto
  obtain g' where g': "lse_gov_exit env pol g = Inr g'"
    using assms(4) t by (simp add: lse_gov_exit_def Let_def)
  have "governor_data g' = (governor_data g)(pol := None)"
    using g' assms(4) t by (auto simp: lse_gov_exit_def Let_def fast_switch_fields cpu_reset_fields
        lse_gov_tunables_free_def upd_tunables_def split: if_splits)
  moreover have "tunables_obj g' t = None \<longleftrightarrow> attr_policies tn = [pol]"
    using g' assms(4) t(1,2) by (auto simp: lse_gov_exit_def Let_def fast_switch_fields cpu_reset_fields
        lse_gov_tunables_free_def upd_tunables_def last split: if_splits)
  moreover have "cached_tunables g' cpu \<in> {cached_tunables g cpu, Some zeroed_tunables}" for cpu
    using g' assms(4) t(1,2) by (auto simp: lse_gov_exit_def Let_def set_fast_switch_def count_freed_def cpu_reset_fields
        lse_gov_tunables_free_def upd_tunables_def tunables_save_cached split: if_splits)
  ultimately show ?thesis using g' t
    by - (rule exI [of _ g'], rule exI [of _ t], rule exI [of _ tn], simp)
qed

theorem gov_exit_frees_last_witness:
  "\<exists>g'. lse_gov_exit demo_env 4 (snd (lse_gov_init demo_env 4 (snd (lse_gov_init demo_env 0 demo_boot_gov)))) = Inr g'"
proof -
  let ?g = "snd (lse_gov_init demo_env 4 (snd (lse_gov_init demo_env 0 demo_boot_gov)))"
  have env: "have_governor_per_policy demo_env = False" by (simp add: demo_env_def)
  obtain lg where "governor_data ?g 4 = Some lg" using demo_two_attached by blast
  from gov_exit_frees_last [OF demo_boot demo_two_inits env this] show ?thesis by blast
qed

end
