(* ===== verification/Lse_Task_Ext.thy ===== *)
theory Lse_Task_Ext
  imports Lse_Walt Lse_Dsq
begin

text \<open>
  \<open>src/lse_task_struct_ext.c\<close>: the \<open>lse_task_struct\<close> of a task is allocated when the task is
  created (or when the module is loaded, for the tasks that exist then) and freed with the task.
  The table \<open>lts_table\<close> is the slot \<open>LTS_IDX\<close> of \<open>android_vendor_data1\<close> of every task, by the
  task's identity; \<open>None\<close> is a slot that holds 0.  Whether an allocation succeeds is an argument.
\<close>

section \<open>Operations\<close>

definition init_lse_task_struct :: "task_struct \<Rightarrow> lse_task_struct" where
  "init_lse_task_struct tsk =
     \<lparr>lts_task = ts_id tsk, mark_start = 0, lts_window_start = 0, lts_sum = 0,
      sum_history = replicate RAVG_HIST_SIZE 0, cidx = 0, demand = 0, demand_scaled = 0,
      task_class = LSE_TASK_CLASS_NORMAL, boost_pct = 1024, priority_hint = word_of_int (prio tsk),
      on_dsq = False\<rparr>"

definition alloc_lse_task_struct :: "bool \<Rightarrow> task_struct option \<Rightarrow> lts_table \<Rightarrow> lts_table" where
  "alloc_lse_task_struct alloc_ok tsk L =
     (case tsk of None \<Rightarrow> L | Some p \<Rightarrow>
        if L (ts_id p) \<noteq> None then L
        else if \<not> alloc_ok then L
        else L(ts_id p \<mapsto> init_lse_task_struct p))"

definition free_lse_task_struct :: "task_struct option \<Rightarrow> lts_table \<Rightarrow> lts_table" where
  "free_lse_task_struct tsk L =
     (case tsk of None \<Rightarrow> L | Some p \<Rightarrow>
        if L (ts_id p) = None then L else L(ts_id p := None))"

text \<open>\<open>get_lse_task_struct\<close> (\<open>src/lse_main.h\<close>); a hook applies it to tasks that are not NULL, where it is
  the table.\<close>

definition get_lse_task_struct :: "lts_table \<Rightarrow> task_struct option \<Rightarrow> lse_task_struct option" where
  "get_lse_task_struct L t = (case t of None \<Rightarrow> None | Some p \<Rightarrow> L (ts_id p))"

text \<open>The two loops at load time: every thread, then the idle task of every possible CPU.\<close>

definition alloc_lts_loop :: "(nat \<Rightarrow> bool) \<Rightarrow> task_struct list \<Rightarrow> lts_table \<Rightarrow> lts_table" where
  "alloc_lts_loop alloc_ok ps L =
     fold (\<lambda>p L. if L (ts_id p) \<noteq> None then L
                 else if \<not> alloc_ok (ts_id p) then L
                 else L(ts_id p \<mapsto> init_lse_task_struct p)) ps L"

definition alloc_lts_mem_for_all_threads ::
  "kernel \<Rightarrow> (nat \<Rightarrow> bool) \<Rightarrow> task_struct list \<Rightarrow> (nat \<Rightarrow> task_struct) \<Rightarrow> lts_table \<Rightarrow> lts_table" where
  "alloc_lts_mem_for_all_threads k alloc_ok threads idle L =
     (let L = alloc_lts_loop alloc_ok threads L
      in alloc_lts_loop alloc_ok (map idle (cpu_possible k)) L)"

definition ENOMEM_EXT :: int where "ENOMEM_EXT = 12"

definition lse_task_struct_ext_init ::
  "kernel \<Rightarrow> bool \<Rightarrow> (nat \<Rightarrow> bool) \<Rightarrow> task_struct list \<Rightarrow> (nat \<Rightarrow> task_struct) \<Rightarrow> lts_table
    \<Rightarrow> int \<times> lts_table" where
  "lse_task_struct_ext_init k cache_ok alloc_ok threads idle L =
     (if \<not> cache_ok then (- ENOMEM_EXT, L)
      else (0, alloc_lts_mem_for_all_threads k alloc_ok threads idle L))"

section \<open>Lemmas\<close>

lemma init_lts_fields [simp]:
  "mark_start (init_lse_task_struct p) = 0" "lts_window_start (init_lse_task_struct p) = 0"
  "on_dsq (init_lse_task_struct p) = False" "lts_task (init_lse_task_struct p) = ts_id p"
  by (simp_all add: init_lse_task_struct_def)

lemma get_after_alloc:
  "get_lse_task_struct (alloc_lse_task_struct True t L) t = None \<longleftrightarrow> t = None"
  "get_lse_task_struct (free_lse_task_struct t L) t = None"
  by (auto simp: get_lse_task_struct_def alloc_lse_task_struct_def free_lse_task_struct_def split: option.splits)

lemma init_lts_bounded: "lts_bounded B S (init_lse_task_struct p)"
  by (simp add: init_lse_task_struct_def lts_bounded_def history_ok_def RAVG_HIST_SIZE_def)

lemma alloc_loop_Cons:
  "alloc_lts_loop alloc_ok (p # ps) L = alloc_lts_loop alloc_ok ps
     (if L (ts_id p) = None \<and> alloc_ok (ts_id p) then L(ts_id p \<mapsto> init_lse_task_struct p) else L)"
  "alloc_lts_loop alloc_ok [] L = L"
  by (simp_all add: alloc_lts_loop_def)

lemma alloc_loop_keeps: "L t = Some l \<Longrightarrow> alloc_lts_loop alloc_ok ps L t = Some l"
proof (induction ps arbitrary: L)
  case (Cons p ps)
  then show ?case unfolding alloc_loop_Cons by (intro Cons.IH) auto
qed (simp add: alloc_loop_Cons)

lemma alloc_loop_fresh:
  "L t = None \<Longrightarrow> alloc_lts_loop alloc_ok ps L t =
     (if alloc_ok t then map_option init_lse_task_struct (find (\<lambda>p. ts_id p = t) ps) else None)"
proof (induction ps arbitrary: L)
  case (Cons p ps)
  show ?case
  proof (cases "ts_id p = t \<and> alloc_ok t")
    case True
    then have "alloc_lts_loop alloc_ok (p # ps) L = alloc_lts_loop alloc_ok ps (L(t \<mapsto> init_lse_task_struct p))"
      using Cons.prems by (auto simp: alloc_loop_Cons)
    then show ?thesis using True by (simp add: alloc_loop_keeps)
  next
    case False
    then show ?thesis unfolding alloc_loop_Cons using Cons.prems by (subst Cons.IH) auto
  qed
qed (simp add: alloc_loop_Cons)

text \<open>All the structures in a table are within bounds.\<close>

definition table_ok :: "u32 \<Rightarrow> nat \<Rightarrow> lts_table \<Rightarrow> bool" where
  "table_ok B S L \<longleftrightarrow> (\<forall>t l. L t = Some l \<longrightarrow>
     lts_bounded B S l \<and> (mark_start l = 0 \<longrightarrow> lts_window_start l = 0))"

lemma table_okD: "table_ok B S L \<Longrightarrow> L t = Some l \<Longrightarrow> lts_bounded B S l"
  "table_ok B S L \<Longrightarrow> L t = Some l \<Longrightarrow> mark_start l = 0 \<Longrightarrow> lts_window_start l = 0"
  by (simp_all add: table_ok_def)

lemma table_ok_upd:
  "table_ok B S L \<Longrightarrow> lts_bounded B S l \<Longrightarrow> (mark_start l = 0 \<Longrightarrow> lts_window_start l = 0) \<Longrightarrow>
   table_ok B S (L(t \<mapsto> l))"
  by (simp add: table_ok_def)

lemma alloc_loop_ok: "table_ok B S L \<Longrightarrow> table_ok B S (alloc_lts_loop alloc_ok ps L)"
proof (induction ps arbitrary: L)
  case (Cons p ps)
  then have "table_ok B S (L(ts_id p \<mapsto> init_lse_task_struct p))" by (intro table_ok_upd init_lts_bounded) simp_all
  with Cons show ?case by (simp add: alloc_loop_Cons)
qed (simp add: alloc_loop_Cons)

lemma ext_init_ok:
  "table_ok B S (snd (lse_task_struct_ext_init k c a threads idle (\<lambda>_. None)))"
  by (auto simp: lse_task_struct_ext_init_def alloc_lts_mem_for_all_threads_def table_ok_def [of B S "\<lambda>_. None"]
      intro!: alloc_loop_ok)

lemma find_ts_id: "find (\<lambda>p. ts_id p = t) ps = Some p \<Longrightarrow> p \<in> set ps \<and> ts_id p = t"
  by (auto simp: find_Some_iff)

section \<open>Properties\<close>

text \<open>When the cache and all allocations succeed, loading the module leaves every thread and the
  idle task of every possible CPU with a structure of its own: one that existed before is kept
  unchanged, a new one has no history, is on no dispatch queue and names its task.  Tasks that are
  neither have the slot they had.\<close>

theorem ext_init_complete:
  fixes L :: lts_table and k :: kernel and threads :: "task_struct list" and idle :: "nat \<Rightarrow> task_struct"
  assumes "\<forall>t. alloc_ok t"
  defines "L' \<equiv> snd (lse_task_struct_ext_init k True alloc_ok threads idle L)"
  shows "(\<forall>p \<in> set threads. \<exists>l. L' (ts_id p) = Some l) \<and>
    (\<forall>cpu \<in> set (cpu_possible k). \<exists>l. L' (ts_id (idle cpu)) = Some l) \<and>
    (\<forall>t l. L t = Some l \<longrightarrow> L' t = Some l) \<and>
    (\<forall>t l. L t = None \<longrightarrow> L' t = Some l \<longrightarrow>
       lts_task l = t \<and> mark_start l = 0 \<and> \<not> on_dsq l \<and>
       t \<in> ts_id ` (set threads \<union> idle ` set (cpu_possible k)))"
proof -
  let ?M = "alloc_lts_loop alloc_ok threads L" and ?idles = "map idle (cpu_possible k)"
  have L': "L' = alloc_lts_loop alloc_ok ?idles ?M"
    by (simp add: L'_def lse_task_struct_ext_init_def alloc_lts_mem_for_all_threads_def)
  have has: "\<exists>l. alloc_lts_loop alloc_ok ps M (ts_id p) = Some l" if "p \<in> set ps" for ps M p
  proof (cases "M (ts_id p)")
    case None
    have "find (\<lambda>q. ts_id q = ts_id p) ps \<noteq> None" using that by (auto simp: find_None_iff)
    then show ?thesis using alloc_loop_fresh [of M "ts_id p" alloc_ok ps] None assms(1) by auto
  qed (simp add: alloc_loop_keeps)
  have "\<exists>l. L' (ts_id p) = Some l" if p: "p \<in> set threads" for p
    using has [OF p, of L] alloc_loop_keeps unfolding L' by fast
  moreover have "\<exists>l. L' (ts_id (idle cpu)) = Some l" if c: "cpu \<in> set (cpu_possible k)" for cpu
    using has [of "idle cpu" ?idles ?M] c unfolding L' by simp
  moreover have "L' t = Some l" if "L t = Some l" for t l
    using that unfolding L' by (intro alloc_loop_keeps)
  moreover have "lts_task l = t \<and> mark_start l = 0 \<and> \<not> on_dsq l \<and>
      t \<in> ts_id ` (set threads \<union> idle ` set (cpu_possible k))" if t: "L t = None" "L' t = Some l" for t l
  proof (cases "?M t")
    case None
    then obtain p where "find (\<lambda>p. ts_id p = t) ?idles = Some p" "l = init_lse_task_struct p"
      using t(2) alloc_loop_fresh [of ?M t alloc_ok ?idles] assms(1) unfolding L' by auto
    with find_ts_id [OF this(1)] show ?thesis by auto
  next
    case (Some m)
    then have "l = m" using t(2) alloc_loop_keeps [of ?M t m] unfolding L' by simp
    moreover obtain p where "find (\<lambda>p. ts_id p = t) threads = Some p" "m = init_lse_task_struct p"
      using Some alloc_loop_fresh [where L = L and t = t and alloc_ok = alloc_ok and ps = threads, OF t(1)] assms(1) by auto
    ultimately show ?thesis using find_ts_id [of t threads p] by auto
  qed
  ultimately show ?thesis by blast
qed

theorem ext_init_complete_witness:
  "\<exists>l. snd (lse_task_struct_ext_init demo_kernel True (\<lambda>_. True) [demo_task 7] (\<lambda>cpu. demo_task (cpu + 100))
     (\<lambda>_. None)) 103 = Some l"
proof -
  have "(3 :: nat) \<in> set (cpu_possible demo_kernel)" by (simp add: demo_kernel_def)
  then show ?thesis
    using ext_init_complete [where alloc_ok = "\<lambda>_. True" and k = demo_kernel and threads = "[demo_task 7]"
        and idle = "\<lambda>cpu. demo_task (cpu + 100)" and L = "\<lambda>_. None"]
    by (fastforce simp: demo_task_def)
qed

end
