(* ===== verification/Lse_Hooks.thy ===== *)
theory Lse_Hooks
  imports Lse_Clock Lse_Monitor Lse_Window Lse_Dsq Lse_Cluster Lse_Shadow Lse_Gov Lse_Task_Ext
begin

text \<open>
  The whole module: its state is the states of the components, and its entry points are the
  scheduler hooks of \<open>src/lse_cfs.c\<close>, the roll-over work \<open>lse_irq_work\<close> of
  \<open>src/lse_util_track.c\<close> and the body of the shadow tick (\<open>src/lse_shadow_tick.c\<close>), each a function
  on that state.  The lemmas show that the hooks, run on consistent run queues with a clock that
  does not go back, never reach a \<open>BUG_ON\<close>, a division by zero or a NULL pointer, and keep the
  invariants of all components together.
\<close>

section \<open>State\<close>

record lse =
  slim_walt_ctrl :: int
  frame_per_sec :: int
  sysctl_lse_gov_debug :: int
  sys_clock :: clock_state
  sys_walt :: walt
  sys_mon :: monitor
  sys_lts :: lts_table
  sys_clusters :: cluster_state
  sys_dsq :: dsq
  sys_shadow :: shadow
  sys_gov :: gov

text \<open>\<open>per_cpu(lse_rq, cpu)\<close>, and the list that \<open>for_each_lse_cluster\<close> walks.\<close>

definition sys_lrq :: "lse \<Rightarrow> nat \<Rightarrow> lse_rq" where
  "sys_lrq s = cl_lrq (sys_clusters s)"

definition set_sys_lrq :: "(nat \<Rightarrow> lse_rq) \<Rightarrow> lse \<Rightarrow> lse" where
  "set_sys_lrq lrq s = s\<lparr>sys_clusters := (sys_clusters s)\<lparr>cl_lrq := lrq\<rparr>\<rparr>"

definition sys_cluster_list :: "lse \<Rightarrow> lse_sched_cluster list" where
  "sys_cluster_list s = map (cl (sys_clusters s)) (lse_cluster_head (sys_clusters s))"

text \<open>What the kernel provides to one invocation of a hook: the jiffies, the processor the code runs
  on, the run queues, the value \<open>update_rq_clock\<close> would set, and the two readings of
  \<open>local_clock\<close> of the governor's tick.\<close>

record hook_env =
  he_jiffies :: u64
  he_here :: nat
  he_cpu_rq :: "nat \<Rightarrow> rq"
  he_rq_clock :: u64
  he_local_clock1 :: u64
  he_local_clock2 :: u64

section \<open>Tracking a task\<close>

definition lse_rq_clock :: "clock_state \<Rightarrow> u32 \<Rightarrow> u64 \<Rightarrow> lse_rq \<Rightarrow> rq \<Rightarrow> fault + (u64 \<times> rq)" where
  "lse_rq_clock c dump fresh l rq =
     (if lse_clock_suspended c then Inr (lse_clock_last c, rq)
      else ebind (if \<not> rq_locked rq then lse_bug dump else Inr ()) (\<lambda>_.
        let rq = (if rq_clock_updated rq then rq
                  else rq\<lparr>rq_clock := fresh, rq_clock_updated := True\<rparr>)
        in Inr (max (rq_clock rq) (latest_clock l), rq)))"

text \<open>\<open>cpufreq_cpu_get_raw\<close> of a CPU.\<close>

definition cpu_policy :: "lse \<Rightarrow> nat \<Rightarrow> cpufreq_policy option" where
  "cpu_policy s cpu = map_option (policy_obj (sys_gov s)) (policy_of_cpu (sys_gov s) cpu)"

text \<open>\<open>lse_update_task_ravg\<close> on the state of the module, for a task that has a structure.\<close>

definition sys_update_task_ravg ::
  "kernel \<Rightarrow> nat \<Rightarrow> rq \<Rightarrow> task_struct \<Rightarrow> task_event \<Rightarrow> u64 \<Rightarrow> lse_task_struct \<Rightarrow> lse \<Rightarrow> fault + lse" where
  "sys_update_task_ravg k here rq p event wallclock lts s =
     ebind (lse_update_task_ravg k (slim_walt_ctrl s) here (cpu_policy s (rq_cpu rq)) rq p event wallclock
              \<lparr>rv_walt = sys_walt s, rv_mon = sys_mon s, rv_lts = lts, rv_lrq = sys_lrq s (rq_cpu rq)\<rparr>)
       (\<lambda>r. Inr (set_sys_lrq ((sys_lrq s)(rq_cpu rq := rv_lrq r))
              (s\<lparr>sys_walt := rv_walt r, sys_mon := rv_mon r,
                 sys_lts := (sys_lts s)(ts_id p \<mapsto> rv_lts r)\<rparr>)))"

text \<open>\<open>if (lts) lse_update_task_ravg(lts, p, rq, event, lse_rq_clock(rq))\<close>\<close>

definition track_task ::
  "kernel \<Rightarrow> hook_env \<Rightarrow> task_struct \<Rightarrow> task_event \<Rightarrow> lse \<times> rq \<Rightarrow> fault + (lse \<times> rq)" where
  "track_task k he p event sr =
     (case sr of (s, rq) \<Rightarrow>
        (case sys_lts s (ts_id p) of None \<Rightarrow> Inr (s, rq) | Some lts \<Rightarrow>
           ebind (lse_rq_clock (sys_clock s) (dump_info (sys_walt s)) (he_rq_clock he)
                    (sys_lrq s (rq_cpu rq)) rq) (\<lambda>(wallclock, rq).
           ebind (sys_update_task_ravg k (he_here he) rq p event wallclock lts s) (\<lambda>s.
           Inr (s, rq)))))"

section \<open>The hooks\<close>

text \<open>\<open>old\<close> is what \<open>cmpxchg64\<close> finds: 0 unless another CPU has set the clock since it was read.\<close>

definition lse_scheduler_tick :: "kernel \<Rightarrow> hook_env \<Rightarrow> u64 \<Rightarrow> lse \<Rightarrow> lse" where
  "lse_scheduler_tick k he old s =
     (if slim_walt_ctrl s = 0 then s
      else
        let touch = (\<lambda>s. s\<lparr>sys_mon := lse_monitor_touch (he_jiffies he) (sys_mon s)\<rparr>) in
        if tick_sched_clock (sys_walt s) = 0 then
          if old \<noteq> 0 then s
          else
            let t = rq_clock (he_cpu_rq he (he_here he)) - 20000;
                lrq = fold (\<lambda>cpu lrq. lrq(cpu := (lrq cpu)\<lparr>window_start := t\<rparr>)) (cpu_possible k) (sys_lrq s);
                s = set_sys_lrq lrq s
            in touch (s\<lparr>sys_walt := (sys_walt s)\<lparr>tick_sched_clock := t, lse_run_rollover_lastq_ws := t\<rparr>\<rparr>)
        else touch s)"

definition lse_schedule ::
  "kernel \<Rightarrow> hook_env \<Rightarrow> task_struct \<Rightarrow> task_struct \<Rightarrow> rq \<Rightarrow> lse \<Rightarrow> fault + lse" where
  "lse_schedule k he prev next_task rq s =
     (if slim_walt_ctrl s = 0 then Inr s
      else
        ebind (if ts_id prev \<noteq> ts_id next_task
               then ebind (track_task k he prev PUT_PREV_TASK (s, rq)) (track_task k he next_task PICK_NEXT_TASK)
               else track_task k he prev TASK_UPDATE (s, rq)) (\<lambda>(s, rq).
        let (L, d) = lse_dsq_on_schedule k (he_jiffies he) (he_cpu_rq he) (slim_stats (sys_mon s))
                       (Some rq) (Some prev) (Some next_task) (sys_lts s, sys_dsq s)
        in Inr (s\<lparr>sys_lts := L, sys_dsq := d,
                  sys_shadow := lse_shadow_tick_update_cpu (he_here he) rq (sys_shadow s)\<rparr>)))"

definition lse_tick_entry :: "kernel \<Rightarrow> hook_env \<Rightarrow> task_struct \<Rightarrow> rq \<Rightarrow> lse \<Rightarrow> fault + lse" where
  "lse_tick_entry k he p rq s =
     (if slim_walt_ctrl s = 0 then Inr s
      else
        let s = s\<lparr>sys_mon := lse_monitor_touch (he_jiffies he) (sys_mon s)\<rparr> in
        ebind (track_task k he p TASK_UPDATE (s, rq)) (\<lambda>(s, rq).
        ebind (lse_gov_tick_update k (lse_sched_ravg_window (sys_walt s)) (sys_lrq s) (sys_dsq s)
                 (he_local_clock1 he) (he_local_clock2 he) rq (sys_gov s)) (\<lambda>g.
        Inr (s\<lparr>sys_gov := g\<rparr>))))"

text \<open>The roll-over work, on the CPU it was queued on; the pending mark is cleared before the
  function runs, and the function takes the lock of the run queue.  \<open>p\<close> is \<open>rq->curr\<close>.\<close>

definition lse_irq_work :: "kernel \<Rightarrow> nat \<Rightarrow> u64 \<Rightarrow> task_struct \<Rightarrow> rq \<Rightarrow> lse \<Rightarrow> fault + lse" where
  "lse_irq_work k cpu sched_clock p rq s =
     (let s = s\<lparr>sys_walt := (sys_walt s)\<lparr>lse_slim_walt_irq_work := None\<rparr>\<rparr>;
          rq = rq\<lparr>rq_locked := True\<rparr>;
          wc = lse_sched_clock (sys_clock s) sched_clock
      in
      ebind (case sys_lts s (ts_id p) of None \<Rightarrow> Inr s
             | Some lts \<Rightarrow> sys_update_task_ravg k cpu rq p TASK_UPDATE wc lts s) (\<lambda>s.
      ebind (if update_hook (sys_gov s) cpu
             then lsegov_update_freq k (lse_sched_ravg_window (sys_walt s)) (sys_lrq s)
                    (sys_cluster_list s) True (sys_gov s)
             else Inr (sys_gov s)) (\<lambda>g.
      Inr (s\<lparr>sys_gov := g, sys_walt := adopt_new_window wc (sys_lrq s cpu) (sys_walt s)\<rparr>))))"

text \<open>The expiry of a shadow tick timer: the timer's own state, then what the callback does for the
  current task \<open>p\<close> of the CPU it runs on.\<close>

definition lse_shadow_tick_expire ::
  "kernel \<Rightarrow> hook_env \<Rightarrow> u64 \<Rightarrow> nat \<Rightarrow> task_struct \<Rightarrow> rq \<Rightarrow> lse \<Rightarrow> fault + lse" where
  "lse_shadow_tick_expire k he sched_clock owner p rq s =
     (case shadow_tick_expire (slim_walt_ctrl s \<noteq> 0) (sys_lts s) (he_cpu_rq he) owner (sys_shadow s) of
        (act, sh) \<Rightarrow>
          (let s = s\<lparr>sys_shadow := sh\<rparr> in
           case act of
             None \<Rightarrow> Inr s
           | Some Shadow_Touch \<Rightarrow> Inr (s\<lparr>sys_mon := lse_monitor_touch (he_jiffies he) (sys_mon s)\<rparr>)
           | Some (Shadow_Update t) \<Rightarrow>
               (case sys_lts s t of None \<Rightarrow> Inr s
                | Some lts \<Rightarrow> sys_update_task_ravg k (he_here he) (rq\<lparr>rq_locked := True\<rparr>) p TASK_UPDATE
                    (lse_sched_clock (sys_clock s) sched_clock) lts s)))"

section \<open>What an update leaves alone\<close>

definition walt_fixed :: "walt \<Rightarrow> u64 \<times> u32" where
  "walt_fixed w = (tick_sched_clock w, new_lse_sched_ravg_window w)"

lemma add_to_task_demand_keeps: "on_dsq (snd (add_to_task_demand w l t d)) = on_dsq t"
  by (auto simp: add_to_task_demand_def Let_def)

lemma push_samples_on_dsq: "on_dsq (push_samples n r t) = on_dsq t"
  by (induction n arbitrary: t) (simp_all add: push_sample_def)

lemma update_history_keeps: "update_history w p r n t = Inr t' \<Longrightarrow> on_dsq t' = on_dsq t"
  by (auto simp: update_history_def Let_def ebind_eq_Inr push_samples_on_dsq split: if_splits)

lemma update_task_demand_keeps: "update_task_demand w l rq p e wc t = Inr (r, t') \<Longrightarrow> on_dsq t' = on_dsq t"
  by (auto simp: update_task_demand_def Let_def ebind_eq_Inr case_prod_unfold add_to_task_demand_keeps
      split: if_splits dest!: update_history_keeps) (metis add_to_task_demand_keeps snd_conv)+

lemma run_once_keeps:
  "walt_fixed (fst (lse_window_rollover_run_once k c old l wm)) = walt_fixed (fst wm)"
  by (cases wm) (simp add: lse_window_rollover_run_once_def Let_def irq_work_queue_def window_rollover_systrace_c_def walt_fixed_def)

lemma busy_time_keeps:
  "walt_fixed (fst (update_cpu_busy_time rq p e wc t wl)) = walt_fixed (fst wl)"
  "window_start (snd (update_cpu_busy_time rq p e wc t wl)) = window_start (snd wl)"
  by (cases wl; simp add: update_cpu_busy_time_def Let_def cpu_util_update_systrace_c_def walt_fixed_def)+

lemma ravg_done_keeps:
  "ravg_done k c old wc r = Inr r' \<Longrightarrow> on_dsq (rv_lts r') = on_dsq (rv_lts r) \<and>
     walt_fixed (rv_walt r') = walt_fixed (rv_walt r) \<and> rv_lrq r' = rv_lrq r"
  using run_once_keeps [of k c old "rv_lrq r" "(rv_walt r, rv_mon r)"]
  by (auto simp: ravg_done_def Let_def ebind_eq_Inr case_prod_unfold)

lemma ravg_account_keeps:
  "ravg_account k pol rq p e wc r = Inr r' \<Longrightarrow> on_dsq (rv_lts r') = on_dsq (rv_lts r) \<and>
     walt_fixed (rv_walt r') = walt_fixed (rv_walt r) \<and>
     window_start (rv_lrq r') = window_start (rv_lrq r)"
  by (auto simp: ravg_account_def Let_def ebind_eq_Inr update_task_rq_cpu_cycles_def case_prod_unfold busy_time_keeps
      dest: update_task_demand_keeps)

text \<open>What a successful update did: nothing but refresh the hint, or a roll-over of the CPU's window,
  the accounting of a task whose last event is known, and the event itself.\<close>

definition ravg_begin :: "task_struct \<Rightarrow> ravg \<Rightarrow> lse_rq \<Rightarrow> ravg" where
  "ravg_begin p r l =
     (let t = lse_refresh_task_hint (rv_walt r) p (rv_lts r)
      in r\<lparr>rv_lts := if lts_window_start t = 0 then t\<lparr>lts_window_start := window_start l\<rparr> else t, rv_lrq := l\<rparr>)"

lemma ravg_cases:
  assumes "lse_update_task_ravg k ctrl c pol rq p e wc r = Inr r'"
  obtains (idle) "r' = r \<or> r' = r\<lparr>rv_lts := lse_refresh_task_hint (rv_walt r) p (rv_lts r)\<rparr>"
    | (event) old l r2 where "update_window_start (rv_walt r) wc (rv_lrq r) = Inr (old, l)"
      "r2 = ravg_begin p r l \<or> ravg_account k pol rq p e wc (ravg_begin p r l) = Inr r2"
      "ravg_done k c old wc r2 = Inr r'"
proof (cases "ctrl = 0 \<or> window_start (rv_lrq r) = 0 \<or> mark_start (lse_refresh_task_hint (rv_walt r) p (rv_lts r)) = wc")
  case True
  then show ?thesis using assms by (intro idle) (auto simp: lse_update_task_ravg_def Let_def split: if_splits)
next
  case False
  let ?t = "lse_refresh_task_hint (rv_walt r) p (rv_lts r)"
  obtain old l where l: "update_window_start (rv_walt r) wc (rv_lrq r) = Inr (old, l)"
    using assms False by (auto simp: lse_update_task_ravg_def Let_def ebind_eq_Inr)
  show ?thesis
  proof (cases "mark_start ?t = 0")
    case True
    then have "ravg_done k c old wc (ravg_begin p r l) = Inr r'"
      using assms False l
      by (cases "lts_window_start ?t = 0") (auto simp: lse_update_task_ravg_def ravg_begin_def Let_def ebind_eq_Inr)
    then show ?thesis using event [OF l] by blast
  next
    case known: False
    have "ebind (ravg_account k pol rq p e wc (ravg_begin p r l)) (ravg_done k c old wc) = Inr r'"
      using assms False l known
      by (cases "lts_window_start ?t = 0")
        (auto simp: lse_update_task_ravg_def ravg_account_def ravg_begin_def Let_def ebind_eq_Inr case_prod_unfold)
    then show ?thesis using event [OF l] by (auto simp: ebind_eq_Inr)
  qed
qed

lemma ravg_begin_simps [simp]:
  "rv_lrq (ravg_begin p r l) = l" "rv_walt (ravg_begin p r l) = rv_walt r" "rv_mon (ravg_begin p r l) = rv_mon r"
  "on_dsq (rv_lts (ravg_begin p r l)) = on_dsq (rv_lts r)"
  by (simp_all add: ravg_begin_def Let_def)

lemma ravg_keeps:
  assumes "lse_update_task_ravg k ctrl c pol rq p e wc r = Inr r'"
  shows "on_dsq (rv_lts r') = on_dsq (rv_lts r)"
    "walt_fixed (rv_walt r') = walt_fixed (rv_walt r)"
    "rv_lrq r' = rv_lrq r \<or>
     (\<exists>old l. update_window_start (rv_walt r) wc (rv_lrq r) = Inr (old, l) \<and> window_start (rv_lrq r') = window_start l)"
proof -
  have "on_dsq (rv_lts r') = on_dsq (rv_lts r) \<and> walt_fixed (rv_walt r') = walt_fixed (rv_walt r) \<and>
    (rv_lrq r' = rv_lrq r \<or>
     (\<exists>old l. update_window_start (rv_walt r) wc (rv_lrq r) = Inr (old, l) \<and> window_start (rv_lrq r') = window_start l))"
    using assms
  proof (cases rule: ravg_cases)
    case (event old l r2)
    have "on_dsq (rv_lts r2) = on_dsq (rv_lts r) \<and> walt_fixed (rv_walt r2) = walt_fixed (rv_walt r) \<and>
      window_start (rv_lrq r2) = window_start l"
      using event(2) ravg_account_keeps [of k pol rq p e wc "ravg_begin p r l" r2] by auto
    with ravg_done_keeps [OF event(3)] event(1) show ?thesis by auto
  qed auto
  then show "on_dsq (rv_lts r') = on_dsq (rv_lts r)"
    "walt_fixed (rv_walt r') = walt_fixed (rv_walt r)"
    "rv_lrq r' = rv_lrq r \<or>
     (\<exists>old l. update_window_start (rv_walt r) wc (rv_lrq r) = Inr (old, l) \<and> window_start (rv_lrq r') = window_start l)"
    by blast+
qed

section \<open>The invariant of the module\<close>

definition sys_started :: "lse \<Rightarrow> bool" where
  "sys_started s \<longleftrightarrow> tick_sched_clock (sys_walt s) \<noteq> 0"

text \<open>Before the first tick no CPU has a window and no task has been seen; from then on every
  possible CPU has a window.\<close>

definition windows_ok :: "kernel \<Rightarrow> lse \<Rightarrow> bool" where
  "windows_ok k s \<longleftrightarrow>
     (if sys_started s then \<forall>cpu \<in> set (cpu_possible k). window_start (sys_lrq s cpu) \<noteq> 0
      else (\<forall>cpu. window_start (sys_lrq s cpu) = 0 \<and> latest_clock (sys_lrq s cpu) = 0) \<and>
           (\<forall>t l. sys_lts s t = Some l \<longrightarrow> mark_start l = 0))"

definition core_ok :: "kernel \<Rightarrow> u32 \<Rightarrow> u32 \<Rightarrow> nat \<Rightarrow> lse \<Rightarrow> bool" where
  "core_ok k W B S s \<longleftrightarrow> slim_walt_ctrl s \<noteq> 0 \<and> \<not> lse_clock_suspended (sys_clock s) \<and>
     walt_ok B S (sys_walt s) \<and> lse_sched_ravg_window (sys_walt s) = W \<and>
     W \<le> new_lse_sched_ravg_window (sys_walt s) \<and> new_lse_sched_ravg_window (sys_walt s) \<le> B \<and>
     (\<forall>cpu. cpu_ok W (sys_lrq s cpu)) \<and> table_ok B S (sys_lts s) \<and> windows_ok k s \<and>
     (\<forall>cpu. policy_ok (cpu_policy s cpu))"

text \<open>\<open>cur cpu\<close> is the task that CPU runs.  A task runs on one CPU, and has been marked there not before
  the window and the latest event of the CPU.\<close>

definition current_ok :: "kernel \<Rightarrow> (nat \<Rightarrow> nat) \<Rightarrow> lse \<Rightarrow> bool" where
  "current_ok k cur s \<longleftrightarrow> inj_on cur (set (cpu_possible k)) \<and>
     (\<forall>cpu \<in> set (cpu_possible k). \<forall>l. sys_lts s (cur cpu) = Some l \<longrightarrow> mark_start l \<noteq> 0 \<longrightarrow>
        window_start (sys_lrq s cpu) \<le> mark_start l \<and> latest_clock (sys_lrq s cpu) \<le> mark_start l)"

definition sys_ok :: "kernel \<Rightarrow> u32 \<Rightarrow> u32 \<Rightarrow> nat \<Rightarrow> bool \<Rightarrow> (nat \<Rightarrow> nat) \<Rightarrow> lse \<Rightarrow> bool" where
  "sys_ok k W B S b cur s \<longleftrightarrow> core_ok k W B S s \<and> current_ok k cur s \<and>
     dsq_wf (sys_lts s, sys_dsq s) \<and> shadow_consistent (sys_shadow s) \<and> attached b (sys_gov s)"

text \<open>What is relied on of a reading of the clock on a CPU: it is not before the CPU's window and its
  latest event, less than \<open>2^54\<close> ns (six months) and \<open>2^31\<close> windows after the window began, and
  below \<open>2^63\<close>.\<close>

definition reading_ok :: "u32 \<Rightarrow> u64 \<Rightarrow> lse_rq \<Rightarrow> bool" where
  "reading_ok W wc l \<longleftrightarrow> latest_clock l \<le> wc \<and> window_start l \<le> wc \<and> unat wc < 2 ^ 63 \<and>
     unat (wc - window_start l) < 2 ^ 54 \<and> unat (wc - window_start l) div unat W < 2 ^ 31"

lemma window_start_moves:
  assumes "update_window_start w wc l = Inr (old, l')" "reading_ok W wc l"
    and "lse_sched_ravg_window w = W" "W \<noteq> 0"
  shows "window_start l \<le> window_start l'"
proof -
  define n where "n = unat (wc - window_start l) div unat W"
  have "update_window_start w wc l = Inr (window_start l,
      if n = 0 then l\<lparr>latest_clock := wc\<rparr>
      else rollover_cpu_window (l\<lparr>latest_clock := wc,
             window_start := window_start l + word_of_nat n * ucast W, prev_window_size := W\<rparr>) (1 < n))"
    using update_window_start_eq [of w l wc] assms(2-4) by (simp add: reading_ok_def n_def)
  then have "window_start l' = (if n = 0 then window_start l else window_start l + word_of_nat n * ucast W)"
    using assms(1) by auto
  moreover have "window_start l \<le> window_start l + word_of_nat n * ucast W"
    using window_advance(2) [of "window_start l" wc W] assms(2,4) by (simp add: reading_ok_def n_def)
  ultimately show ?thesis by simp
qed

lemma sys_lrq_set [simp]:
  "sys_lrq (set_sys_lrq lrq s) = lrq" "sys_lrq (s\<lparr>sys_walt := w, sys_mon := m, sys_lts := L\<rparr>) = sys_lrq s"
  "sys_lts (set_sys_lrq lrq s) = sys_lts s" "sys_walt (set_sys_lrq lrq s) = sys_walt s"
  "sys_gov (set_sys_lrq lrq s) = sys_gov s" "sys_dsq (set_sys_lrq lrq s) = sys_dsq s"
  "sys_shadow (set_sys_lrq lrq s) = sys_shadow s" "sys_clock (set_sys_lrq lrq s) = sys_clock s"
  "slim_walt_ctrl (set_sys_lrq lrq s) = slim_walt_ctrl s"
  by (simp_all add: sys_lrq_def set_sys_lrq_def)

text \<open>The result of an update: a new structure for the task, a new state of the CPU's run queue.\<close>

definition updated :: "u32 \<Rightarrow> u64 \<Rightarrow> rq \<Rightarrow> task_struct \<Rightarrow> lse_task_struct \<Rightarrow> lse \<Rightarrow> lse \<Rightarrow> bool" where
  "updated W wc rq p lts s s' \<longleftrightarrow>
     (\<exists>w m lts' l'. s' = set_sys_lrq ((sys_lrq s)(rq_cpu rq := l'))
          (s\<lparr>sys_walt := w, sys_mon := m, sys_lts := (sys_lts s)(ts_id p \<mapsto> lts')\<rparr>) \<and>
        reading_ok W wc l' \<and> latest_clock (sys_lrq s (rq_cpu rq)) \<le> latest_clock l' \<and> on_dsq lts' = on_dsq lts \<and>
        mark_start lts' = (if sys_started s then wc else 0) \<and> walt_fixed w = walt_fixed (sys_walt s))"

lemma sys_update_ok:
  assumes core: "core_ok k W B S s" and cap: "\<forall>cpu. unat (arch_scale_cpu_capacity k cpu) \<le> 1024"
    and lts: "sys_lts s (ts_id p) = Some lts"
    and rq: "rq_cpu rq \<in> set (cpu_possible k)" "rq_locked rq"
    and wc: "reading_ok W wc (sys_lrq s (rq_cpu rq))"
    and charged: "account_busy_for_cpu_time p e \<Longrightarrow> mark_start lts \<noteq> 0 \<Longrightarrow>
      window_start (sys_lrq s (rq_cpu rq)) \<le> mark_start lts \<and>
      latest_clock (sys_lrq s (rq_cpu rq)) \<le> mark_start lts \<and> mark_start lts \<le> wc"
  shows "\<exists>s'. sys_update_task_ravg k here rq p e wc lts s = Inr s' \<and> core_ok k W B S s' \<and>
    updated W wc rq p lts s s'"
proof -
  let ?c = "rq_cpu rq"
  let ?r = "\<lparr>rv_walt = sys_walt s, rv_mon = sys_mon s, rv_lts = lts, rv_lrq = sys_lrq s ?c\<rparr>"
  note core' = core [unfolded core_ok_def]
  have W: "W \<noteq> 0" using core' by (auto simp: walt_ok_def)
  have inv: "ravg_inv W B S ?r"
    using core' lts table_okD by (auto simp: ravg_inv_def)
  have pre: "ravg_pre k (cpu_policy s ?c) rq p e wc ?r"
    using core' cap rq(2) wc charged by (auto simp: ravg_pre_def Let_def reading_ok_def)
  obtain r where r: "lse_update_task_ravg k (slim_walt_ctrl s) here (cpu_policy s ?c) rq p e wc ?r = Inr r"
    "ravg_inv W B S r" "walt_ok B S (rv_walt r)" "lse_sched_ravg_window (rv_walt r) = W"
    "window_start (sys_lrq s ?c) \<noteq> 0 \<Longrightarrow> mark_start (rv_lts r) = wc"
    "window_start (sys_lrq s ?c) \<noteq> 0 \<and> mark_start lts \<noteq> wc \<Longrightarrow> latest_clock (rv_lrq r) = wc \<and>
       window_start (rv_lrq r) \<le> wc \<and> unat (wc - window_start (rv_lrq r)) < unat W"
    using lse_update_task_ravg_ok [OF inv pre, of "slim_walt_ctrl s" here] core' by auto
  note keep = ravg_keeps [OF r(1)]
  have same: "r = ?r \<or> r = ?r\<lparr>rv_lts := lse_refresh_task_hint (sys_walt s) p lts\<rparr>"
    if "window_start (sys_lrq s ?c) = 0 \<or> mark_start lts = wc"
    using r(1) that core' by (auto simp: lse_update_task_ravg_def Let_def split: if_splits)
  have rd: "reading_ok W wc (rv_lrq r)"
  proof (cases "window_start (sys_lrq s ?c) = 0 \<or> mark_start lts = wc")
    case True
    then show ?thesis using same wc by auto
  next
    case False
    then have "latest_clock (rv_lrq r) = wc" "window_start (rv_lrq r) \<le> wc"
      "unat (wc - window_start (rv_lrq r)) < unat W" using r(6) by auto
    moreover from this(3) have "unat (wc - window_start (rv_lrq r)) < 2 ^ 54"
      using u32_bound [of W] by simp
    ultimately show ?thesis using wc W by (simp add: reading_ok_def)
  qed
  have lc: "latest_clock (sys_lrq s ?c) \<le> latest_clock (rv_lrq r)"
    using same r(6) wc by (cases "window_start (sys_lrq s ?c) = 0 \<or> mark_start lts = wc") (auto simp: reading_ok_def)
  have mark: "mark_start (rv_lts r) = (if sys_started s then wc else 0)"
  proof (cases "sys_started s")
    case True
    then have "window_start (sys_lrq s ?c) \<noteq> 0" using core' rq(1) by (auto simp: windows_ok_def)
    then show ?thesis using r(5) True by simp
  next
    case False
    then have "window_start (sys_lrq s ?c) = 0" "mark_start lts = 0"
      using core' lts by (auto simp: windows_ok_def)
    then show ?thesis using same False by auto
  qed
  have ws: "window_start (rv_lrq r) = 0 \<Longrightarrow> window_start (sys_lrq s ?c) = 0"
    using keep(3) window_start_moves [of "sys_walt s" wc "sys_lrq s ?c" _ _ W] wc core' W by fastforce
  have un: "\<not> sys_started s \<Longrightarrow> rv_lrq r = sys_lrq s ?c"
    using same core' by (auto simp: windows_ok_def)
  let ?s = "set_sys_lrq ((sys_lrq s)(?c := rv_lrq r))
    (s\<lparr>sys_walt := rv_walt r, sys_mon := rv_mon r, sys_lts := (sys_lts s)(ts_id p \<mapsto> rv_lts r)\<rparr>)"
  have run: "sys_update_task_ravg k here rq p e wc lts s = Inr ?s"
    by (simp add: sys_update_task_ravg_def r(1))
  have "sys_started ?s = sys_started s" using keep(2) by (simp add: sys_started_def walt_fixed_def)
  then have "windows_ok k ?s"
    using core' ws un mark by (auto simp: windows_ok_def)
  moreover have "table_ok B S (sys_lts ?s)"
    using core' r(2) by (auto simp: ravg_inv_def intro!: table_ok_upd)
  moreover have "cpu_policy ?s = cpu_policy s" by (rule ext) (simp add: cpu_policy_def)
  ultimately have "core_ok k W B S ?s"
    using core' r(2-4) keep(2) by (simp add: core_ok_def ravg_inv_def walt_fixed_def)
  moreover have "updated W wc rq p lts s ?s"
    unfolding updated_def using rd lc keep(1,2) mark
    by (intro exI [of _ "rv_walt r"] exI [of _ "rv_mon r"] exI [of _ "rv_lts r"] exI [of _ "rv_lrq r"]) simp
  ultimately show ?thesis using run by blast
qed

section \<open>Reading the clock\<close>

definition rq_time :: "hook_env \<Rightarrow> rq \<Rightarrow> u64" where
  "rq_time he rq = (if rq_clock_updated rq then rq_clock rq else he_rq_clock he)"

definition rq_fresh :: "hook_env \<Rightarrow> rq \<Rightarrow> rq" where
  "rq_fresh he rq =
     (if rq_clock_updated rq then rq else rq\<lparr>rq_clock := he_rq_clock he, rq_clock_updated := True\<rparr>)"

lemma rq_fresh_simps [simp]:
  "rq_time he (rq_fresh he rq) = rq_time he rq" "rq_cpu (rq_fresh he rq) = rq_cpu rq"
  "rq_curr (rq_fresh he rq) = rq_curr rq" "rq_idle (rq_fresh he rq) = rq_idle rq"
  "rq_locked (rq_fresh he rq) = rq_locked rq"
  by (simp_all add: rq_fresh_def rq_time_def)

lemma lse_rq_clock_locked:
  "\<not> lse_clock_suspended c \<Longrightarrow> rq_locked rq \<Longrightarrow>
   lse_rq_clock c dump (he_rq_clock he) l rq = Inr (max (rq_time he rq) (latest_clock l), rq_fresh he rq)"
  by (simp add: lse_rq_clock_def rq_time_def rq_fresh_def Let_def)

text \<open>The reading a hook takes on the CPU of \<open>rq\<close>.\<close>

definition hook_clock :: "hook_env \<Rightarrow> rq \<Rightarrow> lse \<Rightarrow> u64" where
  "hook_clock he rq s = max (rq_time he rq) (latest_clock (sys_lrq s (rq_cpu rq)))"

definition may_charge :: "task_struct \<Rightarrow> task_event \<Rightarrow> u64 \<Rightarrow> rq \<Rightarrow> lse \<Rightarrow> bool" where
  "may_charge p e wc rq s \<longleftrightarrow> (account_busy_for_cpu_time p e \<longrightarrow>
     (\<forall>l. sys_lts s (ts_id p) = Some l \<longrightarrow> mark_start l \<noteq> 0 \<longrightarrow>
        window_start (sys_lrq s (rq_cpu rq)) \<le> mark_start l \<and>
        latest_clock (sys_lrq s (rq_cpu rq)) \<le> mark_start l \<and> mark_start l \<le> wc))"

definition tracked :: "u32 \<Rightarrow> u64 \<Rightarrow> rq \<Rightarrow> task_struct \<Rightarrow> lse \<Rightarrow> lse \<Rightarrow> bool" where
  "tracked W wc rq p s s' \<longleftrightarrow>
     (case sys_lts s (ts_id p) of None \<Rightarrow> s' = s | Some lts \<Rightarrow> updated W wc rq p lts s s')"

lemma track_task_ok:
  assumes core: "core_ok k W B S s" and cap: "\<forall>cpu. unat (arch_scale_cpu_capacity k cpu) \<le> 1024"
    and rq: "rq_cpu rq \<in> set (cpu_possible k)" "rq_locked rq"
    and wc: "hook_clock he rq s = wc" "reading_ok W wc (sys_lrq s (rq_cpu rq))"
    and charged: "may_charge p e wc rq s"
  shows "\<exists>s' rq'. track_task k he p e (s, rq) = Inr (s', rq') \<and> core_ok k W B S s' \<and>
    tracked W wc rq p s s' \<and> (rq' = rq \<or> rq' = rq_fresh he rq)"
proof (cases "sys_lts s (ts_id p)")
  case None
  then show ?thesis using core by (auto simp: track_task_def tracked_def)
next
  case (Some lts)
  have clock: "lse_rq_clock (sys_clock s) d (he_rq_clock he) (sys_lrq s (rq_cpu rq)) rq = Inr (wc, rq_fresh he rq)" for d
    using lse_rq_clock_locked [of "sys_clock s" rq] core rq(2) wc(1) by (simp add: core_ok_def hook_clock_def)
  obtain s' where s': "sys_update_task_ravg k (he_here he) (rq_fresh he rq) p e wc lts s = Inr s'"
    "core_ok k W B S s'" "updated W wc (rq_fresh he rq) p lts s s'"
    using sys_update_ok [OF core cap Some, of "rq_fresh he rq" wc e "he_here he"] rq wc(2) charged Some
    by (auto simp: may_charge_def)
  have "updated W wc rq p lts s s'" using s'(3) by (simp add: updated_def)
  then show ?thesis using s'(1,2) Some
    by (intro exI [of _ s'] exI [of _ "rq_fresh he rq"]) (simp add: track_task_def clock tracked_def)
qed

text \<open>A second reading on the same CPU is the same.\<close>

lemma tracked_clock:
  assumes "tracked W (hook_clock he rq s) rq p s s'" "reading_ok W (hook_clock he rq s) (sys_lrq s (rq_cpu rq))"
    and "rq' = rq \<or> rq' = rq_fresh he rq"
  shows "hook_clock he rq' s' = hook_clock he rq s"
    "reading_ok W (hook_clock he rq s) (sys_lrq s' (rq_cpu rq))"
proof -
  let ?wc = "hook_clock he rq s" and ?c = "rq_cpu rq"
  have l: "latest_clock (sys_lrq s ?c) \<le> latest_clock (sys_lrq s' ?c) \<and> reading_ok W ?wc (sys_lrq s' ?c)"
    using assms(1,2) by (auto simp: tracked_def updated_def split: option.splits)
  then show "reading_ok W ?wc (sys_lrq s' ?c)" ..
  have "latest_clock (sys_lrq s' ?c) \<le> max (rq_time he rq) (latest_clock (sys_lrq s ?c))"
    using l by (simp add: reading_ok_def hook_clock_def)
  then have "max (rq_time he rq) (latest_clock (sys_lrq s' ?c)) = max (rq_time he rq) (latest_clock (sys_lrq s ?c))"
    using l by (auto simp: max_def)
  then show "hook_clock he rq' s' = ?wc" using assms(3) by (auto simp: hook_clock_def)
qed

lemma tracked_frame:
  assumes "tracked W wc rq p s s'"
  shows "sys_gov s' = sys_gov s" "sys_dsq s' = sys_dsq s" "sys_shadow s' = sys_shadow s"
    "sys_started s' = sys_started s"
    "t \<noteq> ts_id p \<Longrightarrow> sys_lts s' t = sys_lts s t"
    "cpu \<noteq> rq_cpu rq \<Longrightarrow> sys_lrq s' cpu = sys_lrq s cpu"
    "on_dsq_flag (sys_lts s') t = on_dsq_flag (sys_lts s) t"
    "(sys_lts s' t = None) = (sys_lts s t = None)"
    "sys_lts s' (ts_id p) = Some l \<Longrightarrow> mark_start l = (if sys_started s then wc else 0)"
  using assms by (auto simp: tracked_def updated_def sys_started_def walt_fixed_def on_dsq_flag_def split: option.splits if_splits)

text \<open>The current tasks after an update on the CPU \<open>c\<close>, which now runs \<open>t\<close>: the task that was updated
  last.\<close>

lemma tracked_current:
  assumes cur: "current_ok k cur s" and tr: "tracked W wc rq p s s'"
    and inj: "inj_on cur' (set (cpu_possible k))"
    and other: "\<And>cpu. cpu \<in> set (cpu_possible k) \<Longrightarrow> cpu \<noteq> rq_cpu rq \<Longrightarrow> cur' cpu = cur cpu \<and> cur cpu \<noteq> ts_id p"
    and runs: "cur' (rq_cpu rq) = ts_id p" and rd: "reading_ok W wc (sys_lrq s' (rq_cpu rq))"
  shows "current_ok k cur' s'"
  unfolding current_ok_def
proof (intro conjI ballI allI impI)
  fix cpu l assume cpu: "cpu \<in> set (cpu_possible k)" and l: "sys_lts s' (cur' cpu) = Some l" "mark_start l \<noteq> 0"
  have "window_start (sys_lrq s' cpu) \<le> mark_start l \<and> latest_clock (sys_lrq s' cpu) \<le> mark_start l"
  proof (cases "cpu = rq_cpu rq")
    case True
    then have "mark_start l = wc" using tracked_frame(9) [OF tr, of l] l runs by (auto split: if_splits)
    then show ?thesis using rd True by (simp add: reading_ok_def)
  next
    case False
    then have "sys_lts s (cur cpu) = Some l"
      using other [OF cpu False] l(1) tracked_frame(5) [OF tr, of "cur cpu"] by simp
    then show ?thesis using cur cpu l(2) tracked_frame(6) [OF tr False] by (simp add: current_ok_def)
  qed
  then show "window_start (sys_lrq s' cpu) \<le> mark_start l" "latest_clock (sys_lrq s' cpu) \<le> mark_start l"
    by blast+
qed (rule inj)

section \<open>The dispatch queues only write the mark \<open>on_dsq\<close>\<close>

lemma enqueue_class: "same_class M (fst s) \<Longrightarrow> same_class M (fst (lse_dsq_enqueue_task k j cpu_rq p c s))"
  by (cases s) (auto simp: lse_dsq_enqueue_task_def dsq_enqueue_def Let_def same_class_set split: option.split)

lemma dequeue_class: "same_class M (fst s) \<Longrightarrow> same_class M (fst (lse_dsq_dequeue_task k j p s))"
  by (cases s) (auto simp: lse_dsq_dequeue_task_def dsq_dequeue_def Let_def same_class_set split: option.split)

lemma on_schedule_class:
  "same_class M (fst s) \<Longrightarrow> same_class M (fst (lse_dsq_on_schedule k j cpu_rq st rq prev n s))"
proof -
  assume s: "same_class M (fst s)"
  have sw: "same_class M (fst (dsq_switch k j cpu_rq c prev n s))" for c
    using s by (auto simp: dsq_switch_def Let_def intro: enqueue_class dequeue_class split: option.split)
  have scan: "fst (dsq_throttled_scan k j c x) = fst x" for c x
    by (cases x) (simp add: dsq_throttled_scan_def)
  show ?thesis using s sw by (auto simp: lse_dsq_on_schedule_def Let_def scan split: option.split)
qed

lemma same_class_refl: "same_class L L"
  by (simp add: same_class_def)

lemma same_class_Some:
  assumes "same_class L L'" "L' t = Some l'"
  shows "\<exists>l. L t = Some l \<and> mark_start l' = mark_start l \<and> lts_window_start l' = lts_window_start l \<and>
    lts_bounded B S l' = lts_bounded B S l"
proof -
  have eq: "map_option (\<lambda>l. l\<lparr>on_dsq := False\<rparr>) (L' t) = map_option (\<lambda>l. l\<lparr>on_dsq := False\<rparr>) (L t)"
    using assms(1) by (simp add: same_class_def)
  then obtain l where l: "L t = Some l" "l'\<lparr>on_dsq := False\<rparr> = l\<lparr>on_dsq := False\<rparr>"
    using assms(2) by (cases "L t") auto
  have "mark_start (l'\<lparr>on_dsq := False\<rparr>) = mark_start (l\<lparr>on_dsq := False\<rparr>)"
    "lts_window_start (l'\<lparr>on_dsq := False\<rparr>) = lts_window_start (l\<lparr>on_dsq := False\<rparr>)"
    "lts_bounded B S (l'\<lparr>on_dsq := False\<rparr>) = lts_bounded B S (l\<lparr>on_dsq := False\<rparr>)" using l(2) by simp_all
  then show ?thesis using l(1) by (simp add: lts_bounded_def history_ok_def)
qed

lemma same_class_table: "same_class L L' \<Longrightarrow> table_ok B S L \<Longrightarrow> table_ok B S L'"
  unfolding table_ok_def using same_class_Some [of L L' _ _ B S] by metis

text \<open>Writes that touch neither the windows nor the marks of the tasks.\<close>

lemma quiet_ok:
  assumes ok: "core_ok k W B S s" and L: "same_class (sys_lts s) (sys_lts s')"
    and eq: "sys_walt s' = sys_walt s" "sys_lrq s' = sys_lrq s" "slim_walt_ctrl s' = slim_walt_ctrl s"
      "sys_clock s' = sys_clock s" "cpu_policy s' = cpu_policy s"
  shows "core_ok k W B S s'" and "current_ok k cur s \<Longrightarrow> current_ok k cur s'"
proof -
  have some: "\<exists>l. sys_lts s t = Some l \<and> mark_start l' = mark_start l" if "sys_lts s' t = Some l'" for t l'
    using same_class_Some [OF L that] by blast
  have "windows_ok k s'"
    using ok by (auto simp: core_ok_def windows_ok_def sys_started_def eq dest!: some)
  then show "core_ok k W B S s'" using ok L by (auto simp: core_ok_def eq intro: same_class_table)
  show "current_ok k cur s'" if cur: "current_ok k cur s"
    unfolding current_ok_def
  proof (intro conjI ballI allI impI)
    show "inj_on cur (set (cpu_possible k))" using cur by (simp add: current_ok_def)
    fix cpu l' assume "cpu \<in> set (cpu_possible k)" "sys_lts s' (cur cpu) = Some l'" "mark_start l' \<noteq> 0"
    with some [of "cur cpu" l'] cur
    show "window_start (sys_lrq s' cpu) \<le> mark_start l'" "latest_clock (sys_lrq s' cpu) \<le> mark_start l'"
      by (auto simp: current_ok_def eq)
  qed
qed

lemma wf_flags: "dsq_wf (L, d) \<Longrightarrow> (\<And>t. on_dsq_flag M t = on_dsq_flag L t) \<Longrightarrow> dsq_wf (M, d)"
  by (rule dsq_wf_cong) (auto dest: dsq_wfD(1))

section \<open>The hooks keep the invariant\<close>

definition kernel_ok :: "kernel \<Rightarrow> bool" where
  "kernel_ok k \<longleftrightarrow> (\<forall>cpu. unat (arch_scale_cpu_capacity k cpu) \<le> 1024)"

text \<open>What the kernel guarantees when it calls a hook: the run queue is that of the CPU the hook runs
  on, and locked; the clock has not gone back since the window, the latest event, and the mark of
  the task the CPU runs.\<close>

definition hook_at :: "kernel \<Rightarrow> u32 \<Rightarrow> hook_env \<Rightarrow> (nat \<Rightarrow> nat) \<Rightarrow> rq \<Rightarrow> lse \<Rightarrow> bool" where
  "hook_at k W he cur rq s \<longleftrightarrow> rq_cpu rq \<in> set (cpu_possible k) \<and> he_here he = rq_cpu rq \<and> rq_locked rq \<and>
     reading_ok W (hook_clock he rq s) (sys_lrq s (rq_cpu rq)) \<and>
     (\<forall>l. sys_lts s (cur (rq_cpu rq)) = Some l \<longrightarrow> mark_start l \<le> hook_clock he rq s)"

definition hook_frame :: "lse \<Rightarrow> lse \<Rightarrow> bool" where
  "hook_frame s s' \<longleftrightarrow> sys_gov s' = sys_gov s \<and> sys_dsq s' = sys_dsq s \<and> sys_shadow s' = sys_shadow s \<and>
     (\<forall>t. on_dsq_flag (sys_lts s') t = on_dsq_flag (sys_lts s) t)"

lemma tracked_hook_frame: "tracked W wc rq p s s' \<Longrightarrow> hook_frame s s'"
  using tracked_frame(1-3,7) by (simp add: hook_frame_def)

lemma hook_frame_trans: "hook_frame s s' \<Longrightarrow> hook_frame s' s'' \<Longrightarrow> hook_frame s s''"
  by (simp add: hook_frame_def)

lemma may_charge_current:
  "current_ok k cur s \<Longrightarrow> hook_at k W he cur rq s \<Longrightarrow> ts_id p = cur (rq_cpu rq) \<Longrightarrow>
   may_charge p e (hook_clock he rq s) rq s"
  by (auto simp: may_charge_def current_ok_def hook_at_def)

lemma may_charge_pick: "may_charge p PICK_NEXT_TASK wc rq s"
  by (simp add: may_charge_def account_busy_for_cpu_time_def)

text \<open>An update of the task the CPU runs.\<close>

lemma track_current_ok:
  assumes ok: "core_ok k W B S s" "current_ok k cur s" and k: "kernel_ok k" and at: "hook_at k W he cur rq s"
    and p: "ts_id p = cur (rq_cpu rq)"
  shows "\<exists>s' rq'. track_task k he p e (s, rq) = Inr (s', rq') \<and> core_ok k W B S s' \<and> current_ok k cur s' \<and>
    tracked W (hook_clock he rq s) rq p s s' \<and> (rq' = rq \<or> rq' = rq_fresh he rq)"
proof -
  note at' = at [unfolded hook_at_def]
  obtain s' rq' where s': "track_task k he p e (s, rq) = Inr (s', rq')" "core_ok k W B S s'"
    "tracked W (hook_clock he rq s) rq p s s'" "rq' = rq \<or> rq' = rq_fresh he rq"
    using track_task_ok [OF ok(1) _ _ _ refl, of rq he p e] k at' may_charge_current [OF ok(2) at p]
    by (auto simp: kernel_ok_def)
  have "current_ok k cur s'"
  proof (rule tracked_current [OF ok(2) s'(3)])
    show "inj_on cur (set (cpu_possible k))" using ok(2) by (simp add: current_ok_def)
    show "reading_ok W (hook_clock he rq s) (sys_lrq s' (rq_cpu rq))"
      using tracked_clock(2) [OF s'(3) _ s'(4)] at' by blast
    show "cur cpu = cur cpu \<and> cur cpu \<noteq> ts_id p" if "cpu \<in> set (cpu_possible k)" "cpu \<noteq> rq_cpu rq" for cpu
      using ok(2) that at' p by (auto simp: current_ok_def dest: inj_onD)
    show "cur (rq_cpu rq) = ts_id p" using p by simp
  qed
  then show ?thesis using s' by blast
qed

lemma inj_on_switch:
  assumes "inj_on f A" "y \<notin> f ` (A - {c})" shows "inj_on (f(c := y)) A"
proof (rule inj_onI)
  fix a b assume "a \<in> A" "b \<in> A" "(f(c := y)) a = (f(c := y)) b"
  then show "a = b" using assms by (cases "a = c"; cases "b = c") (auto dest: inj_onD)
qed

text \<open>A switch to a task that no other CPU runs.\<close>

lemma track_switch_ok:
  assumes ok: "core_ok k W B S s" "current_ok k cur s" and k: "kernel_ok k" and at: "hook_at k W he cur rq s"
    and prev: "ts_id prev = cur (rq_cpu rq)" and new: "ts_id n \<notin> cur ` (set (cpu_possible k) - {rq_cpu rq})"
  shows "\<exists>s' rq'. ebind (track_task k he prev PUT_PREV_TASK (s, rq)) (track_task k he n PICK_NEXT_TASK) = Inr (s', rq') \<and>
    core_ok k W B S s' \<and> current_ok k (cur(rq_cpu rq := ts_id n)) s' \<and> hook_frame s s' \<and>
    (rq' = rq \<or> rq' = rq_fresh he rq)"
proof -
  let ?wc = "hook_clock he rq s" and ?c = "rq_cpu rq"
  note at' = at [unfolded hook_at_def]
  obtain s1 rq1 where s1: "track_task k he prev PUT_PREV_TASK (s, rq) = Inr (s1, rq1)"
    "core_ok k W B S s1" "current_ok k cur s1" "tracked W ?wc rq prev s s1" "rq1 = rq \<or> rq1 = rq_fresh he rq"
    using track_current_ok [OF ok k at prev] by blast
  have rd: "reading_ok W ?wc (sys_lrq s ?c)" using at' by blast
  have cpu: "rq_cpu rq1 = ?c" "rq_locked rq1 = rq_locked rq" using s1(5) by auto
  note clock = tracked_clock [OF s1(4) rd s1(5)]
  have cap: "\<forall>cpu. unat (arch_scale_cpu_capacity k cpu) \<le> 1024" using k by (simp add: kernel_ok_def)
  have here: "rq_cpu rq1 \<in> set (cpu_possible k)" "rq_locked rq1" "reading_ok W ?wc (sys_lrq s1 (rq_cpu rq1))"
    using at' cpu clock(2) by simp_all
  obtain s2 rq2 where s2: "track_task k he n PICK_NEXT_TASK (s1, rq1) = Inr (s2, rq2)"
    "core_ok k W B S s2" "tracked W ?wc rq1 n s1 s2" "rq2 = rq1 \<or> rq2 = rq_fresh he rq1"
    using track_task_ok [where p = n and e = PICK_NEXT_TASK, OF s1(2) cap here(1,2) clock(1) here(3) may_charge_pick] by metis
  have "current_ok k (cur(?c := ts_id n)) s2"
  proof (rule tracked_current [OF s1(3) s2(3)])
    show "inj_on (cur(?c := ts_id n)) (set (cpu_possible k))"
      using ok(2) new by (intro inj_on_switch) (simp_all add: current_ok_def)
    show "reading_ok W ?wc (sys_lrq s2 (rq_cpu rq1))"
      using tracked_clock(2) [where W = W and he = he and rq = rq1 and p = n and s = s1 and s' = s2 and rq' = rq2] s2(3,4) clock cpu by simp
    show "(cur(?c := ts_id n)) cpu = cur cpu \<and> cur cpu \<noteq> ts_id n"
      if "cpu \<in> set (cpu_possible k)" "cpu \<noteq> rq_cpu rq1" for cpu
    proof -
      have "cur cpu \<in> cur ` (set (cpu_possible k) - {rq_cpu rq})" using that cpu(1) by simp
      then show ?thesis using new that(2) cpu(1) by auto
    qed
    show "(cur(?c := ts_id n)) (rq_cpu rq1) = ts_id n" using cpu by simp
  qed
  moreover have "hook_frame s s2"
    using hook_frame_trans tracked_hook_frame [OF s1(4)] tracked_hook_frame [OF s2(3)] by blast
  moreover have "rq_fresh he (rq_fresh he rq) = rq_fresh he rq" by (simp add: rq_fresh_def)
  then have "rq2 = rq \<or> rq2 = rq_fresh he rq" using s1(5) s2(4) by auto
  ultimately show ?thesis using s1(1) s2(1,2) by auto
qed

lemma current_same: "ts_id n = cur c \<Longrightarrow> cur(c := ts_id n) = cur"
  by auto

lemma lse_schedule_ok:
  assumes ok: "sys_ok k W B S b cur s" and k: "kernel_ok k" and at: "hook_at k W he cur rq s"
    and prev: "ts_id prev = cur (rq_cpu rq)" and new: "ts_id n \<notin> cur ` (set (cpu_possible k) - {rq_cpu rq})"
  shows "\<exists>s'. lse_schedule k he prev n rq s = Inr s' \<and> sys_ok k W B S b (cur(rq_cpu rq := ts_id n)) s'"
proof -
  let ?cur = "cur(rq_cpu rq := ts_id n)"
  note ok' = ok [unfolded sys_ok_def]
  have core: "core_ok k W B S s" and cur: "current_ok k cur s" using ok' by blast+
  let ?m = "if ts_id prev \<noteq> ts_id n
      then ebind (track_task k he prev PUT_PREV_TASK (s, rq)) (track_task k he n PICK_NEXT_TASK)
      else track_task k he prev TASK_UPDATE (s, rq)"
  have "\<exists>s1 rq1. ?m = Inr (s1, rq1) \<and> core_ok k W B S s1 \<and> current_ok k ?cur s1 \<and> hook_frame s s1 \<and>
      (rq1 = rq \<or> rq1 = rq_fresh he rq)"
  proof (cases "ts_id prev = ts_id n")
    case True
    then have "?cur = cur" using prev by auto
    then show ?thesis using track_current_ok [OF core cur k at prev, of TASK_UPDATE] True tracked_hook_frame by fastforce
  qed (use track_switch_ok [OF core cur k at prev new] in simp)
  then obtain s1 rq1 where s1: "?m = Inr (s1, rq1)" "core_ok k W B S s1" "current_ok k ?cur s1" "hook_frame s s1"
    and rq1: "rq1 = rq \<or> rq1 = rq_fresh he rq" by blast
  obtain L d where Ld: "lse_dsq_on_schedule k (he_jiffies he) (he_cpu_rq he) (slim_stats (sys_mon s1))
      (Some rq1) (Some prev) (Some n) (sys_lts s1, sys_dsq s1) = (L, d)" by fastforce
  let ?s = "s1\<lparr>sys_lts := L, sys_dsq := d, sys_shadow := lse_shadow_tick_update_cpu (he_here he) rq1 (sys_shadow s1)\<rparr>"
  have run: "lse_schedule k he prev n rq s = Inr ?s"
    using core s1(1) Ld by (simp add: lse_schedule_def core_ok_def)
  have cls: "same_class (sys_lts s1) L"
    using on_schedule_class [of "sys_lts s1" "(sys_lts s1, sys_dsq s1)"] Ld same_class_refl by (metis fst_conv)
  have "sys_lrq ?s = sys_lrq s1" "cpu_policy ?s = cpu_policy s1"
    by (auto simp: sys_lrq_def cpu_policy_def)
  then have q: "core_ok k W B S ?s" "current_ok k ?cur ?s"
    using quiet_ok [OF s1(2), of ?s] s1(3) cls by auto
  have "dsq_wf (sys_lts s1, sys_dsq s1)"
    using ok' s1(4) wf_flags [of "sys_lts s" "sys_dsq s"] by (simp add: hook_frame_def)
  then have wf: "dsq_wf (L, d)"
    using dsq_step_wf [OF dsq_step.schedule] Ld by metis
  have "shadow_consistent (lse_shadow_tick_update_cpu (he_here he) rq1 (sys_shadow s1))"
    using ok' s1(4) rq1 at update_consistent [of "sys_shadow s1" "he_here he" rq1]
    by (auto simp: hook_frame_def hook_at_def)
  then have "sys_ok k W B S b ?cur ?s" using q wf ok' s1(4) by (simp add: sys_ok_def hook_frame_def)
  with run show ?thesis by blast
qed

section \<open>The governor inside the hooks\<close>

lemma update_cpufreq_frame:
  "lse_gov_update_cpufreq k W pp s g = Inr g' \<Longrightarrow> policy_obj g' = policy_obj g \<and> policy_of_cpu g' = policy_of_cpu g"
  by (auto simp: lse_gov_update_cpufreq_def Let_def ebind_eq_Inr split: option.splits)

lemma tick_total:
  assumes "attached b g"
  shows "\<exists>g'. lse_gov_tick_update k W lrq d now now2 rq g = Inr g' \<and> attached b g' \<and>
    policy_obj g' = policy_obj g \<and> policy_of_cpu g' = policy_of_cpu g"
proof (cases "now - last_tick_ns (lse_gov_rq_data g (rq_cpu rq)) < LSE_GOV_RATE_LIMIT_NS \<or>
    policy_of_cpu g (rq_cpu rq) = None \<or> governor_data g (the (policy_of_cpu g (rq_cpu rq))) = None")
  case True
  then have "lse_gov_tick_update k W lrq d now now2 rq g = Inr g"
    using tick_limited by (auto simp: lse_gov_tick_update_def Let_def split: option.split)
  then show ?thesis using assms by simp
next
  case False
  then obtain pol lg where pol: "policy_of_cpu g (rq_cpu rq) = Some pol" "governor_data g pol = Some lg" by auto
  obtain tn where tn: "lg_tunables_obj g lg = Some tn"
    using attached_ready [OF assms, of pol] pol(2) by (auto simp: gov_ready_def)
  have due: "\<not> now - last_tick_ns (lse_gov_rq_data g (rq_cpu rq)) < LSE_GOV_RATE_LIMIT_NS" using False by blast
  from tick_effective [OF pol tn due, of k W lrq d now2] obtain g' lg' grq f where
    g': "lse_gov_tick_update k W lrq d now now2 rq g = Inr g'"
    "g' = commit_freq pol f lg' (g\<lparr>lse_gov_rq_data := (lse_gov_rq_data g)(rq_cpu rq := grq)\<rparr>)" by blast
  then show ?thesis using tick_attached [OF g'(1) assms] by simp
qed

lemma cluster_freq_keeps:
  assumes "update_cluster_freq k W lrq c g = Inr g'" "attached b g"
  shows "attached b g' \<and> policy_obj g' = policy_obj g \<and> policy_of_cpu g' = policy_of_cpu g"
proof -
  have "g' = g \<or> (\<exists>pp s. lse_gov_update_cpufreq k W pp s g = Inr g')"
    using assms(1) by (auto simp: update_cluster_freq_def Let_def split: if_splits list.splits)
  then show ?thesis
  proof
    assume "\<exists>pp s. lse_gov_update_cpufreq k W pp s g = Inr g'"
    then obtain pp s where pp: "lse_gov_update_cpufreq k W pp s g = Inr g'" by blast
    then obtain pol where "pp = Some pol" by (cases pp) (auto simp: lse_gov_update_cpufreq_def)
    with pp have u: "lse_gov_update_cpufreq k W (Some pol) s g = Inr g'" by simp
    show ?thesis using update_attached [OF u assms(2)] update_cpufreq_frame [OF u] by simp
  qed (use assms(2) in simp)
qed

lemma rollover_keeps:
  assumes "lsegov_update_freq k W lrq cs r g = Inr g'" "attached b g"
  shows "attached b g' \<and> policy_obj g' = policy_obj g \<and> policy_of_cpu g' = policy_of_cpu g"
proof (cases r)
  case True
  have "efold (update_cluster_freq k W lrq) cs h = Inr g' \<Longrightarrow> attached b h \<Longrightarrow>
      attached b g' \<and> policy_obj g' = policy_obj h \<and> policy_of_cpu g' = policy_of_cpu h" for h
  proof (induction cs arbitrary: h)
    case (Cons c cs)
    from Cons.prems(1) obtain h1 where h1: "update_cluster_freq k W lrq c h = Inr h1"
      "efold (update_cluster_freq k W lrq) cs h1 = Inr g'" by (auto simp: ebind_eq_Inr)
    show ?case using cluster_freq_keeps [OF h1(1) Cons.prems(2)] Cons.IH [OF h1(2)] by simp
  qed simp
  then show ?thesis using assms True by (simp add: lsegov_update_freq_def)
qed (use assms in \<open>simp add: lsegov_update_freq_def\<close>)

section \<open>Ticks and works\<close>

lemma cpu_policy_gov:
  "policy_obj (sys_gov s') = policy_obj (sys_gov s) \<Longrightarrow> policy_of_cpu (sys_gov s') = policy_of_cpu (sys_gov s) \<Longrightarrow>
   cpu_policy s' = cpu_policy s"
  by (rule ext) (simp add: cpu_policy_def)

lemma touch_ok:
  assumes "sys_ok k W B S b cur s"
  shows "sys_ok k W B S b cur (s\<lparr>sys_mon := m\<rparr>)"
proof -
  let ?s = "s\<lparr>sys_mon := m\<rparr>"
  have "sys_lrq ?s = sys_lrq s" "cpu_policy ?s = cpu_policy s" by (auto simp: sys_lrq_def cpu_policy_def)
  then show ?thesis
    using assms quiet_ok [of k W B S s ?s] same_class_refl by (simp add: sys_ok_def)
qed

lemma gov_ok:
  assumes "sys_ok k W B S b cur s" "attached b g" "policy_obj g = policy_obj (sys_gov s)"
    "policy_of_cpu g = policy_of_cpu (sys_gov s)"
  shows "sys_ok k W B S b cur (s\<lparr>sys_gov := g\<rparr>)"
proof -
  let ?s = "s\<lparr>sys_gov := g\<rparr>"
  have "sys_lrq ?s = sys_lrq s" "cpu_policy ?s = cpu_policy s" using assms(3,4)
    by (auto simp: sys_lrq_def cpu_policy_def)
  then show ?thesis
    using assms quiet_ok [of k W B S s ?s] same_class_refl by (simp add: sys_ok_def)
qed

lemma tracked_sys_ok:
  assumes "sys_ok k W B S b cur s" "core_ok k W B S s'" "current_ok k cur s'" "hook_frame s s'"
  shows "sys_ok k W B S b cur s'"
  using assms wf_flags [of "sys_lts s" "sys_dsq s" "sys_lts s'"] by (simp add: sys_ok_def hook_frame_def)

lemma lse_tick_entry_ok:
  assumes ok: "sys_ok k W B S b cur s" and k: "kernel_ok k" and at: "hook_at k W he cur rq s"
    and p: "ts_id p = cur (rq_cpu rq)"
  shows "\<exists>s'. lse_tick_entry k he p rq s = Inr s' \<and> sys_ok k W B S b cur s'"
proof -
  let ?s = "s\<lparr>sys_mon := lse_monitor_touch (he_jiffies he) (sys_mon s)\<rparr>"
  have ok1: "sys_ok k W B S b cur ?s" by (rule touch_ok [OF ok])
  have at1: "hook_at k W he cur rq ?s" using at by (simp add: hook_at_def hook_clock_def sys_lrq_def)
  have core: "core_ok k W B S ?s" "current_ok k cur ?s" using ok1 by (simp_all add: sys_ok_def)
  obtain s1 rq1 where s1: "track_task k he p TASK_UPDATE (?s, rq) = Inr (s1, rq1)" "core_ok k W B S s1"
    "current_ok k cur s1" "tracked W (hook_clock he rq ?s) rq p ?s s1"
    using track_current_ok [OF core k at1 p] by blast
  have ok2: "sys_ok k W B S b cur s1" by (rule tracked_sys_ok [OF ok1 s1(2,3) tracked_hook_frame [OF s1(4)]])
  then have "attached b (sys_gov s1)" by (simp add: sys_ok_def)
  from tick_total [OF this] obtain g where g: "lse_gov_tick_update k (lse_sched_ravg_window (sys_walt s1))
      (sys_lrq s1) (sys_dsq s1) (he_local_clock1 he) (he_local_clock2 he) rq1 (sys_gov s1) = Inr g"
    "attached b g" "policy_obj g = policy_obj (sys_gov s1)" "policy_of_cpu g = policy_of_cpu (sys_gov s1)" by blast
  have "lse_tick_entry k he p rq s = Inr (s1\<lparr>sys_gov := g\<rparr>)"
    using ok s1(1) g(1) by (simp add: lse_tick_entry_def sys_ok_def core_ok_def)
  then show ?thesis using gov_ok [OF ok2 g(2-4)] by blast
qed

lemma fold_window_start:
  "fold (\<lambda>cpu lrq. lrq(cpu := (lrq cpu)\<lparr>window_start := t\<rparr>)) cpus lrq =
   (\<lambda>cpu. if cpu \<in> set cpus then (lrq cpu)\<lparr>window_start := t\<rparr> else lrq cpu)"
  by (induction cpus arbitrary: lrq) (auto simp: fun_eq_iff)

lemma lse_scheduler_tick_ok:
  assumes ok: "sys_ok k W B S b cur s" and t: "rq_clock (he_cpu_rq he (he_here he)) \<noteq> 20000"
  shows "sys_ok k W B S b cur (lse_scheduler_tick k he old s)"
proof (cases "tick_sched_clock (sys_walt s) = 0 \<and> old = 0")
  case False
  then have "lse_scheduler_tick k he old s = s \<or>
      lse_scheduler_tick k he old s = s\<lparr>sys_mon := lse_monitor_touch (he_jiffies he) (sys_mon s)\<rparr>"
    by (auto simp: lse_scheduler_tick_def)
  then show ?thesis using ok touch_ok by auto
next
  case True
  define t where "t = rq_clock (he_cpu_rq he (he_here he)) - 20000"
  have t0: "t \<noteq> 0" using assms(2) by (simp add: t_def)
  define lrq where "lrq = (\<lambda>cpu. if cpu \<in> set (cpu_possible k) then (sys_lrq s cpu)\<lparr>window_start := t\<rparr> else sys_lrq s cpu)"
  let ?s = "(set_sys_lrq lrq s)\<lparr>sys_walt := (sys_walt s)\<lparr>tick_sched_clock := t, lse_run_rollover_lastq_ws := t\<rparr>\<rparr>"
  have core: "core_ok k W B S s" and cur: "current_ok k cur s" using ok by (simp_all add: sys_ok_def)
  have run: "lse_scheduler_tick k he old s = ?s\<lparr>sys_mon := lse_monitor_touch (he_jiffies he) (sys_mon s)\<rparr>"
  proof -
    have f: "fold (\<lambda>cpu lrq. lrq(cpu := (lrq cpu)\<lparr>window_start := t\<rparr>)) (cpu_possible k) (sys_lrq s) = lrq"
      unfolding lrq_def by (rule fold_window_start)
    show ?thesis using True core unfolding lse_scheduler_tick_def Let_def t_def [symmetric] f
      by (simp add: core_ok_def set_sys_lrq_def)
  qed
  have sel: "sys_lrq ?s = lrq" "sys_lts ?s = sys_lts s" "cpu_policy ?s = cpu_policy s"
    by (simp_all add: sys_lrq_def set_sys_lrq_def cpu_policy_def fun_eq_iff)
  have un: "\<forall>cpu. window_start (sys_lrq s cpu) = 0 \<and> latest_clock (sys_lrq s cpu) = 0"
    "\<forall>t l. sys_lts s t = Some l \<longrightarrow> mark_start l = 0"
    using core True by (simp_all add: core_ok_def windows_ok_def sys_started_def)
  have "cpu_ok W (lrq cpu)" for cpu
  proof -
    have "cpu_ok W (sys_lrq s cpu)" "latest_clock (sys_lrq s cpu) = 0" "window_start (sys_lrq s cpu) = 0"
      using core un(1) by (simp_all add: core_ok_def)
    then show ?thesis by (auto simp: lrq_def cpu_ok_def)
  qed
  moreover have "windows_ok k ?s"
    unfolding windows_ok_def sel using t0 by (simp add: sys_started_def) (simp add: lrq_def)
  ultimately have "core_ok k W B S ?s"
    using core unfolding core_ok_def walt_ok_def sel by auto
  moreover have "current_ok k cur ?s" using cur un(2) by (auto simp: current_ok_def sel)
  ultimately have "sys_ok k W B S b cur ?s" using ok by (simp add: sys_ok_def set_sys_lrq_def)
  then show ?thesis unfolding run by (rule touch_ok)
qed

text \<open>An update at a wall clock that is not the run queue's, of the task the CPU runs.\<close>

lemma update_current_ok:
  assumes ok: "sys_ok k W B S b cur s" and k: "kernel_ok k" and rq: "rq_cpu rq \<in> set (cpu_possible k)" "rq_locked rq"
    and p: "ts_id p = cur (rq_cpu rq)" and wc: "reading_ok W wc (sys_lrq s (rq_cpu rq))"
    and mark: "\<forall>l. sys_lts s (cur (rq_cpu rq)) = Some l \<longrightarrow> mark_start l \<le> wc" and lts: "sys_lts s (ts_id p) = Some lts"
  shows "\<exists>s'. sys_update_task_ravg k here rq p e wc lts s = Inr s' \<and> sys_ok k W B S b cur s' \<and>
    sys_gov s' = sys_gov s"
proof -
  have core: "core_ok k W B S s" and cur: "current_ok k cur s" using ok by (simp_all add: sys_ok_def)
  have cap: "\<forall>cpu. unat (arch_scale_cpu_capacity k cpu) \<le> 1024" using k by (simp add: kernel_ok_def)
  have charged: "mark_start lts \<noteq> 0 \<Longrightarrow> window_start (sys_lrq s (rq_cpu rq)) \<le> mark_start lts \<and>
      latest_clock (sys_lrq s (rq_cpu rq)) \<le> mark_start lts \<and> mark_start lts \<le> wc"
    using cur mark lts p rq(1) by (auto simp: current_ok_def)
  obtain s' where s': "sys_update_task_ravg k here rq p e wc lts s = Inr s'" "core_ok k W B S s'"
    "updated W wc rq p lts s s'"
    using sys_update_ok [OF core cap lts rq wc charged] by blast
  have tr: "tracked W wc rq p s s'" using s'(3) lts by (simp add: tracked_def)
  have "current_ok k cur s'"
  proof (rule tracked_current [OF cur tr])
    show inj: "inj_on cur (set (cpu_possible k))" using cur by (simp add: current_ok_def)
    show "cur cpu = cur cpu \<and> cur cpu \<noteq> ts_id p" if "cpu \<in> set (cpu_possible k)" "cpu \<noteq> rq_cpu rq" for cpu
      using inj that rq(1) p by (auto dest: inj_onD)
    show "cur (rq_cpu rq) = ts_id p" using p by simp
    show "reading_ok W wc (sys_lrq s' (rq_cpu rq))" using s'(3) by (auto simp: updated_def)
  qed
  then have "sys_ok k W B S b cur s'" by (rule tracked_sys_ok [OF ok s'(2) _ tracked_hook_frame [OF tr]])
  then show ?thesis using s'(1) tracked_frame(1) [OF tr] by blast
qed

lemma pending_ok:
  assumes "sys_ok k W B S b cur s"
  shows "sys_ok k W B S b cur (s\<lparr>sys_walt := (sys_walt s)\<lparr>lse_slim_walt_irq_work := x\<rparr>\<rparr>)"
proof -
  let ?s = "s\<lparr>sys_walt := (sys_walt s)\<lparr>lse_slim_walt_irq_work := x\<rparr>\<rparr>"
  have "sys_lrq ?s = sys_lrq s" "cpu_policy ?s = cpu_policy s" by (auto simp: sys_lrq_def cpu_policy_def)
  moreover have "walt_ok B S (sys_walt ?s) = walt_ok B S (sys_walt s)" by (simp add: walt_ok_def)
  ultimately show ?thesis using assms
    by (simp add: sys_ok_def core_ok_def current_ok_def windows_ok_def sys_started_def)
qed

text \<open>The roll-over work is the update of the current task, then the governor's part.\<close>

lemma lse_irq_work_split:
  assumes ok: "sys_ok k W B S b cur s" and k: "kernel_ok k" and rq: "rq_cpu rq \<in> set (cpu_possible k)"
    and p: "ts_id p = cur (rq_cpu rq)" and wc: "reading_ok W wc (sys_lrq s (rq_cpu rq))"
    and mark: "\<forall>l. sys_lts s (cur (rq_cpu rq)) = Some l \<longrightarrow> mark_start l \<le> wc"
  shows "\<exists>s1. sys_ok k W B S b cur s1 \<and> sys_gov s1 = sys_gov s \<and> sys_cluster_list s1 = sys_cluster_list s \<and>
    lse_irq_work k (rq_cpu rq) wc p rq s = ebind (if update_hook (sys_gov s1) (rq_cpu rq)
      then lsegov_update_freq k (lse_sched_ravg_window (sys_walt s1)) (sys_lrq s1) (sys_cluster_list s1) True (sys_gov s1)
      else Inr (sys_gov s1)) (\<lambda>g. Inr (s1\<lparr>sys_gov := g,
        sys_walt := adopt_new_window wc (sys_lrq s1 (rq_cpu rq)) (sys_walt s1)\<rparr>))"
proof -
  let ?s = "s\<lparr>sys_walt := (sys_walt s)\<lparr>lse_slim_walt_irq_work := None\<rparr>\<rparr>" and ?rq = "rq\<lparr>rq_locked := True\<rparr>"
  let ?c = "rq_cpu rq"
  have ok1: "sys_ok k W B S b cur ?s" by (rule pending_ok [OF ok])
  have lrq: "sys_lrq ?s = sys_lrq s" by (simp add: sys_lrq_def)
  have clock: "lse_sched_clock (sys_clock ?s) wc = wc"
    using ok by (simp add: sys_ok_def core_ok_def lse_sched_clock_def)
  have "\<exists>s1. (case sys_lts ?s (ts_id p) of None \<Rightarrow> Inr ?s
      | Some lts \<Rightarrow> sys_update_task_ravg k ?c ?rq p TASK_UPDATE wc lts ?s) = Inr s1 \<and>
    sys_ok k W B S b cur s1 \<and> sys_gov s1 = sys_gov s \<and> sys_cluster_list s1 = sys_cluster_list s"
  proof (cases "sys_lts s (ts_id p)")
    case None
    then show ?thesis using ok1 by (auto simp: sys_cluster_list_def)
  next
    case (Some lts)
    then obtain s1 where s1: "sys_update_task_ravg k ?c ?rq p TASK_UPDATE wc lts ?s = Inr s1"
      "sys_ok k W B S b cur s1" "sys_gov s1 = sys_gov ?s"
      using update_current_ok [OF ok1 k, of ?rq p wc lts ?c TASK_UPDATE] rq p wc mark lrq by auto
    have "cl (sys_clusters s1) = cl (sys_clusters s)" "lse_cluster_head (sys_clusters s1) = lse_cluster_head (sys_clusters s)"
      using s1(1) by (auto simp: sys_update_task_ravg_def ebind_eq_Inr set_sys_lrq_def cl_def fun_eq_iff)
    then show ?thesis using s1 Some by (simp add: sys_cluster_list_def)
  qed
  then obtain s1 where s1: "(case sys_lts ?s (ts_id p) of None \<Rightarrow> Inr ?s
      | Some lts \<Rightarrow> sys_update_task_ravg k ?c ?rq p TASK_UPDATE wc lts ?s) = Inr s1"
    "sys_ok k W B S b cur s1" "sys_gov s1 = sys_gov s" "sys_cluster_list s1 = sys_cluster_list s" by blast
  let ?F = "\<lambda>s. ebind (if update_hook (sys_gov s) ?c
      then lsegov_update_freq k (lse_sched_ravg_window (sys_walt s)) (sys_lrq s) (sys_cluster_list s) True (sys_gov s)
      else Inr (sys_gov s)) (\<lambda>g. Inr (s\<lparr>sys_gov := g, sys_walt := adopt_new_window wc (sys_lrq s ?c) (sys_walt s)\<rparr>))"
  have "lse_irq_work k ?c wc p rq s = ebind (case sys_lts ?s (ts_id p) of None \<Rightarrow> Inr ?s
      | Some lts \<Rightarrow> sys_update_task_ravg k ?c ?rq p TASK_UPDATE wc lts ?s) ?F"
    unfolding lse_irq_work_def Let_def clock ..
  also have "\<dots> = ?F s1" unfolding s1(1) by (rule ebind_simps(2))
  finally have "lse_irq_work k ?c wc p rq s = ?F s1" .
  then show ?thesis using s1(2-4) by (intro exI [of _ s1]) simp
qed

text \<open>A window that grows: what was charged to the old one still fits.\<close>

lemma cpu_ok_mono: "cpu_ok W l \<Longrightarrow> W \<le> W' \<Longrightarrow> cpu_ok W' l"
  by (auto simp: cpu_ok_def u32_le_iff)

lemma adopt_ok:
  assumes ok: "sys_ok k W B S b cur s"
  shows "sys_ok k (lse_sched_ravg_window (adopt_new_window wc l (sys_walt s))) B S b cur
    (s\<lparr>sys_walt := adopt_new_window wc l (sys_walt s)\<rparr>)"
proof -
  let ?w = "adopt_new_window wc l (sys_walt s)" and ?s = "s\<lparr>sys_walt := adopt_new_window wc l (sys_walt s)\<rparr>"
  have core: "core_ok k W B S s" using ok by (simp add: sys_ok_def)
  have keep: "tick_sched_clock ?w = tick_sched_clock (sys_walt s)"
    "new_lse_sched_ravg_window ?w = new_lse_sched_ravg_window (sys_walt s)"
    "lse_scale_demand_divisor ?w = lse_scale_demand_divisor (sys_walt s)"
    by (simp_all add: adopt_new_window_def)
  have grows: "W \<le> lse_sched_ravg_window ?w" "lse_sched_ravg_window ?w \<le> new_lse_sched_ravg_window (sys_walt s)"
    using core by (auto simp: adopt_new_window_def core_ok_def)
  have same: "sys_lrq ?s = sys_lrq s" "cpu_policy ?s = cpu_policy s" "sys_started ?s = sys_started s"
    by (auto simp: sys_lrq_def cpu_policy_def sys_started_def keep)
  have "W \<noteq> 0" "new_lse_sched_ravg_window (sys_walt s) \<le> B" using core by (auto simp: core_ok_def walt_ok_def)
  then have "walt_ok B S ?w" using core grows by (auto simp: core_ok_def walt_ok_def keep)
  moreover have "\<forall>cpu. cpu_ok (lse_sched_ravg_window ?w) (sys_lrq s cpu)"
    using core cpu_ok_mono [OF _ grows(1)] by (simp add: core_ok_def)
  ultimately have "core_ok k (lse_sched_ravg_window ?w) B S ?s"
    using core grows by (simp add: core_ok_def same windows_ok_def keep)
  then show ?thesis using ok by (simp add: sys_ok_def current_ok_def same)
qed

lemma lse_irq_work_keeps:
  assumes ok: "sys_ok k W B S b cur s" "kernel_ok k" "rq_cpu rq \<in> set (cpu_possible k)"
      "ts_id p = cur (rq_cpu rq)" "reading_ok W wc (sys_lrq s (rq_cpu rq))"
      "\<forall>l. sys_lts s (cur (rq_cpu rq)) = Some l \<longrightarrow> mark_start l \<le> wc"
    and run: "lse_irq_work k (rq_cpu rq) wc p rq s = Inr s'"
  shows "sys_ok k (lse_sched_ravg_window (sys_walt s')) B S b cur s'"
proof -
  obtain s1 where s1: "sys_ok k W B S b cur s1"
    "lse_irq_work k (rq_cpu rq) wc p rq s = ebind (if update_hook (sys_gov s1) (rq_cpu rq)
      then lsegov_update_freq k (lse_sched_ravg_window (sys_walt s1)) (sys_lrq s1) (sys_cluster_list s1) True (sys_gov s1)
      else Inr (sys_gov s1)) (\<lambda>g. Inr (s1\<lparr>sys_gov := g,
        sys_walt := adopt_new_window wc (sys_lrq s1 (rq_cpu rq)) (sys_walt s1)\<rparr>))"
    using lse_irq_work_split [OF ok] by blast
  have att: "attached b (sys_gov s1)" using s1(1) by (simp add: sys_ok_def)
  obtain g where g: "(if update_hook (sys_gov s1) (rq_cpu rq)
      then lsegov_update_freq k (lse_sched_ravg_window (sys_walt s1)) (sys_lrq s1) (sys_cluster_list s1) True (sys_gov s1)
      else Inr (sys_gov s1)) = Inr g"
    "s' = s1\<lparr>sys_gov := g, sys_walt := adopt_new_window wc (sys_lrq s1 (rq_cpu rq)) (sys_walt s1)\<rparr>"
    using run s1(2) by (auto simp: ebind_eq_Inr)
  have "attached b g" "policy_obj g = policy_obj (sys_gov s1)" "policy_of_cpu g = policy_of_cpu (sys_gov s1)"
    using rollover_keeps [OF _ att] g(1) att by (auto split: if_splits)
  then have "sys_ok k W B S b cur (s1\<lparr>sys_gov := g\<rparr>)" by (rule gov_ok [OF s1(1)])
  from adopt_ok [OF this, of wc "sys_lrq s1 (rq_cpu rq)"] show ?thesis unfolding g(2) by simp
qed

text \<open>Only the governor's part can stop the work, and only as \<open>rollover_fault\<close> says.\<close>

lemma lse_irq_work_stops:
  assumes ok: "sys_ok k W B S b cur s" "kernel_ok k" "rq_cpu rq \<in> set (cpu_possible k)"
      "ts_id p = cur (rq_cpu rq)" "reading_ok W wc (sys_lrq s (rq_cpu rq))"
      "\<forall>l. sys_lts s (cur (rq_cpu rq)) = Some l \<longrightarrow> mark_start l \<le> wc"
    and run: "lse_irq_work k (rq_cpu rq) wc p rq s = Inl f"
  shows "\<exists>W lrq. lsegov_update_freq k W lrq (sys_cluster_list s) True (sys_gov s) = Inl f"
proof -
  obtain s1 where s1: "sys_gov s1 = sys_gov s" "sys_cluster_list s1 = sys_cluster_list s"
    "lse_irq_work k (rq_cpu rq) wc p rq s = ebind (if update_hook (sys_gov s1) (rq_cpu rq)
      then lsegov_update_freq k (lse_sched_ravg_window (sys_walt s1)) (sys_lrq s1) (sys_cluster_list s1) True (sys_gov s1)
      else Inr (sys_gov s1)) (\<lambda>g. Inr (s1\<lparr>sys_gov := g,
        sys_walt := adopt_new_window wc (sys_lrq s1 (rq_cpu rq)) (sys_walt s1)\<rparr>))"
    using lse_irq_work_split [OF ok] by blast
  then show ?thesis using run by (auto simp: ebind_def split: if_splits sum.splits)
qed

lemma shadow_ok:
  assumes "sys_ok k W B S b cur s" "shadow_consistent sh"
  shows "sys_ok k W B S b cur (s\<lparr>sys_shadow := sh\<rparr>)"
proof -
  let ?s = "s\<lparr>sys_shadow := sh\<rparr>"
  have "sys_lrq ?s = sys_lrq s" "cpu_policy ?s = cpu_policy s" by (auto simp: sys_lrq_def cpu_policy_def)
  then show ?thesis using assms quiet_ok [of k W B S s ?s] same_class_refl by (simp add: sys_ok_def)
qed

lemma lse_shadow_tick_expire_ok:
  assumes ok: "sys_ok k W B S b cur s" and k: "kernel_ok k" and rq: "rq_cpu rq \<in> set (cpu_possible k)"
    and p: "ts_id p = cur (rq_cpu rq)" and wc: "reading_ok W wc (sys_lrq s (rq_cpu rq))"
    and mark: "\<forall>l. sys_lts s (cur (rq_cpu rq)) = Some l \<longrightarrow> mark_start l \<le> wc"
    and curr: "rq_curr (he_cpu_rq he (rq_cpu rq)) = ts_id p"
  shows "\<exists>s'. lse_shadow_tick_expire k he wc (rq_cpu rq) p rq s = Inr s' \<and> sys_ok k W B S b cur s'"
proof -
  obtain act sh where ex: "shadow_tick_expire (slim_walt_ctrl s \<noteq> 0) (sys_lts s) (he_cpu_rq he) (rq_cpu rq)
      (sys_shadow s) = (act, sh)" by fastforce
  have con: "shadow_consistent (sys_shadow s)" using ok by (simp add: sys_ok_def)
  have "shadow_consistent sh" using expire_consistent [OF con] ex by (metis snd_conv)
  then have ok1: "sys_ok k W B S b cur (s\<lparr>sys_shadow := sh\<rparr>)" by (rule shadow_ok [OF ok])
  have act: "act \<in> {None, Some Shadow_Touch, Some (Shadow_Update (ts_id p))}"
    using ex con curr unfolding shadow_consistent_def
    by (auto simp: shadow_tick_expire_def lse_shadow_tick_cb_def split: if_splits)
  have clock: "lse_sched_clock (sys_clock s) wc = wc"
    using ok by (simp add: sys_ok_def core_ok_def lse_sched_clock_def)
  have lrq: "sys_lrq (s\<lparr>sys_shadow := sh\<rparr>) = sys_lrq s" by (simp add: sys_lrq_def)
  show ?thesis
  proof (cases "act = Some (Shadow_Update (ts_id p)) \<and> sys_lts s (ts_id p) \<noteq> None")
    case True
    then obtain lts where lts: "sys_lts s (ts_id p) = Some lts" by blast
    from update_current_ok [OF ok1 k, of "rq\<lparr>rq_locked := True\<rparr>" p wc lts "he_here he" TASK_UPDATE]
    obtain s' where "sys_update_task_ravg k (he_here he) (rq\<lparr>rq_locked := True\<rparr>) p TASK_UPDATE wc lts
        (s\<lparr>sys_shadow := sh\<rparr>) = Inr s'" "sys_ok k W B S b cur s'"
      using rq p wc mark lrq lts by auto
    then show ?thesis using True lts by (simp add: lse_shadow_tick_expire_def ex Let_def clock)
  next
    case False
    then have "lse_shadow_tick_expire k he wc (rq_cpu rq) p rq s = Inr (s\<lparr>sys_shadow := sh\<rparr>) \<or>
      (\<exists>m. lse_shadow_tick_expire k he wc (rq_cpu rq) p rq s = Inr (s\<lparr>sys_shadow := sh\<rparr>\<lparr>sys_mon := m\<rparr>))"
      using act by (auto simp: lse_shadow_tick_expire_def ex Let_def split: option.split)
    then show ?thesis using ok1 touch_ok [OF ok1] by auto
  qed
qed

section \<open>Loading the module\<close>

text \<open>The initialisers of the globals of \<open>src/lse_monitor.c\<close>, and those of the whole module, before the
  init function runs; the per-policy state of the governor is that of the cpufreq core.\<close>

definition boot_monitor :: "u64 \<Rightarrow> monitor" where
  "boot_monitor initial_jiffies =
     \<lparr>slim_stats = 0, heartbeat = 0, heartbeat_enable = 0, watchdog_enable = 0,
      lse_watchdog_timeout = 0, lse_watchdog_timestamp = initial_jiffies, lse_heartbeat_last_touch = 0,
      lse_watchdog_work = None, lse_heartbeat_timer = None, lse_proc_root = False,
      lse_monitor_inited = False, lse_stats_update_cnt = 0, lse_stats_rollover_cnt = 0,
      lse_stats_tick_cnt = 0, monitor_log = []\<rparr>"

definition boot_lse :: "u64 \<Rightarrow> gov \<Rightarrow> lse" where
  "boot_lse initial_jiffies g =
     \<lparr>slim_walt_ctrl = 1, frame_per_sec = 120, sysctl_lse_gov_debug = 0, sys_clock = init_clock,
      sys_walt = init_walt, sys_mon = boot_monitor initial_jiffies, sys_lts = (\<lambda>_. None),
      sys_clusters = boot_clusters (\<lambda>_. boot_lrq), sys_dsq = boot_dsq, sys_shadow = boot_shadow, sys_gov = g\<rparr>"

text \<open>What the kernel answers while the module is loaded.\<close>

record load_env =
  le_cache_ok :: bool
  le_alloc_ok :: "nat \<Rightarrow> bool"
  le_threads :: "task_struct list"
  le_idle :: "nat \<Rightarrow> task_struct"
  le_kzalloc_ok :: "nat \<Rightarrow> bool"
  le_mkdir_ok :: bool
  le_jiffies :: u64
  le_here :: nat
  le_cpu_rq :: "nat \<Rightarrow> rq"

definition lse_sysctl_init :: "kernel \<Rightarrow> load_env \<Rightarrow> lse \<Rightarrow> lse" where
  "lse_sysctl_init k le s =
     (let (L, d) = lse_dsq_sync k (sys_lts s, sys_dsq s)
      in s\<lparr>sys_lts := L, sys_dsq := d, sys_mon := lse_monitor_sync k (le_jiffies le) (sys_mon s),
           sys_shadow := lse_shadow_tick_sync_all k (le_cpu_rq le) (le_here le) (sys_shadow s)\<rparr>)"

definition lunar_sched_ext_init :: "kernel \<Rightarrow> load_env \<Rightarrow> lse \<Rightarrow> fault + lse" where
  "lunar_sched_ext_init k le s =
     (let s = s\<lparr>sys_lts := snd (lse_task_struct_ext_init k (le_cache_ok le) (le_alloc_ok le)
                (le_threads le) (le_idle le) (sys_lts s))\<rparr> in
      ebind (lse_sched_cluster_init k (le_kzalloc_ok le) (sys_clusters s)) (\<lambda>cs.
        let s = s\<lparr>sys_clusters := cs\<rparr>;
            s = s\<lparr>sys_dsq := lse_dsq_init k (le_jiffies le) (sys_dsq s)\<rparr>;
            (w, lrq) = lse_sched_stats_init k (sys_walt s, sys_lrq s);
            s = set_sys_lrq lrq (s\<lparr>sys_walt := w\<rparr>);
            s = s\<lparr>sys_mon := lse_monitor_init k (le_mkdir_ok le) (le_jiffies le) (sys_mon s)\<rparr>;
            s = s\<lparr>sys_shadow := lse_shadow_tick_init k (sys_shadow s)\<rparr>
        in Inr (lse_sysctl_init k le s)))"

section \<open>The state after loading\<close>

text \<open>Building the clusters writes two fields of a CPU's structure.\<close>

definition lrq_rest :: "lse_rq \<Rightarrow> lse_rq" where
  "lrq_rest l = l\<lparr>lrq_cluster := None, freq_domain_cpumask := []\<rparr>"

definition rest_of :: "cluster_state \<Rightarrow> nat \<Rightarrow> lse_rq" where
  "rest_of s cpu = lrq_rest (cl_lrq s cpu)"

lemma set_lrq_cluster_rest: "rest_of (set_lrq_cluster cpus c s) = rest_of s"
proof -
  have "lrq_rest (fold (\<lambda>i lrq. lrq(i := (lrq i)\<lparr>lrq_cluster := Some c\<rparr>)) cpus lrq cpu) = lrq_rest (lrq cpu)" for lrq cpu
    by (induction cpus arbitrary: lrq) (auto simp: lrq_rest_def)
  then show ?thesis by (simp add: rest_of_def set_lrq_cluster_def fun_eq_iff)
qed

lemma rest_of_upd [simp]:
  "rest_of (s\<lparr>lse_num_sched_clusters := n\<rparr>) = rest_of s" "rest_of (s\<lparr>cl_heap := h\<rparr>) = rest_of s"
  "rest_of (s\<lparr>cl_next := x\<rparr>) = rest_of s" "rest_of (s\<lparr>lse_cluster_head := y\<rparr>) = rest_of s"
  by (simp_all add: rest_of_def fun_eq_iff)

lemma init_clusters_rest: "rest_of (init_clusters k s) = rest_of s"
proof -
  have "lrq_rest (fold (\<lambda>cpu lrq. lrq(cpu := (lrq cpu)\<lparr>lrq_cluster := Some init_cluster_ptr,
      freq_domain_cpumask := [cpu]\<rparr>)) cpus lrq x) = lrq_rest (lrq x)" for cpus lrq x
    by (induction cpus arbitrary: lrq) (auto simp: lrq_rest_def)
  then show ?thesis by (simp add: rest_of_def init_clusters_def fun_eq_iff)
qed

lemma cleanup_rest: "rest_of (cleanup_clusters head s) = rest_of s"
  by (induction head arbitrary: s) (simp_all add: Let_def set_lrq_cluster_rest)

lemma add_cluster_rest: "add_cluster k ok cpus hs = Inr hs' \<Longrightarrow> rest_of (snd hs') = rest_of (snd hs)"
  by (cases hs) (auto simp: add_cluster_def alloc_new_cluster_def Let_def set_lrq_cluster_rest split: if_splits)

lemma topology_rest: "topology_loop k ok cpus hs = Inr (b, head, s) \<Longrightarrow> rest_of s = rest_of (snd hs)"
proof (induction k ok cpus hs rule: topology_loop.induct)
  case (2 k ok i cpus hs)
  show ?case
  proof (cases "get_possible_siblings k i = []")
    case True
    then show ?thesis using 2(2) by (auto simp: cleanup_rest)
  next
    case False
    then obtain hs1 where hs1: "add_cluster k ok (get_possible_siblings k i) hs = Inr hs1"
      "topology_loop k ok (filter (\<lambda>c. c \<notin> set (get_possible_siblings k i)) cpus) hs1 = Inr (b, head, s)"
      using 2(2) by (auto simp: Let_def ebind_eq_Inr)
    show ?thesis using 2(1) [OF refl False hs1(1) hs1(2)] add_cluster_rest [OF hs1(1)] by simp
  qed
qed auto

lemma assign_ids_rest: "rest_of (assign_cluster_ids k head s) = rest_of s"
  unfolding assign_cluster_ids_def by (induction head arbitrary: s) simp_all

lemma cluster_init_rest:
  "lse_sched_cluster_init k ok s = Inr s' \<Longrightarrow> rest_of s' = rest_of s"
  by (auto simp: lse_sched_cluster_init_def update_cluster_topology_def ebind_eq_Inr Let_def assign_ids_rest
      init_clusters_rest dest!: topology_rest split: if_splits)

lemma rest_fields:
  "lrq_rest l = lrq_rest m \<Longrightarrow> window_start l = window_start m \<and> latest_clock l = latest_clock m \<and>
     curr_runnable_sum l = curr_runnable_sum m \<and> prev_runnable_sum l = prev_runnable_sum m"
  by (cases l; cases m) (simp add: lrq_rest_def)

text \<open>\<open>module_loaded\<close>: the module has been loaded into a kernel whose frequencies are consistent, with
  no policy running its governor yet; \<open>cur\<close> are the tasks the CPUs run.\<close>

definition module_loaded :: "kernel \<Rightarrow> load_env \<Rightarrow> u64 \<Rightarrow> gov \<Rightarrow> (nat \<Rightarrow> nat) \<Rightarrow> lse \<Rightarrow> bool" where
  "module_loaded k le j g cur s \<longleftrightarrow> lunar_sched_ext_init k le (boot_lse j g) = Inr s \<and> gov_boot g \<and>
     inj_on cur (set (cpu_possible k)) \<and> (\<forall>cpu. policy_ok (cpu_policy (boot_lse j g) cpu)) \<and>
     (\<forall>cpu. rq_cpu (le_cpu_rq le cpu) = cpu) \<and> distinct (cpu_possible k)"


lemma loaded_lrq:
  assumes "lse_sched_cluster_init k ok (boot_clusters (\<lambda>_. boot_lrq)) = Inr cs"
    and "lse_sched_stats_init k (init_walt, cl_lrq cs) = (w, lrq)"
  shows "window_start (lrq cpu) = 0 \<and> latest_clock (lrq cpu) = 0 \<and> cpu_ok 8000000 (lrq cpu)"
proof -
  have "lrq_rest (cl_lrq cs cpu) = lrq_rest boot_lrq"
    using fun_cong [OF cluster_init_rest [OF assms(1)], of cpu] by (simp add: rest_of_def boot_clusters_def)
  then have "window_start (cl_lrq cs cpu) = 0 \<and> latest_clock (cl_lrq cs cpu) = 0 \<and>
      curr_runnable_sum (cl_lrq cs cpu) = 0 \<and> prev_runnable_sum (cl_lrq cs cpu) = 0"
    using rest_fields [of "cl_lrq cs cpu" boot_lrq] by (simp add: boot_lrq_def)
  then show ?thesis
    using stats_init_lrq [OF assms(2) [symmetric]] by (simp add: cpu_ok_def lse_sched_init_rq_def)
qed

lemma loaded_walt:
  assumes "lse_sched_stats_init k (init_walt, lrq0) = (w, lrq)"
  shows "8000000 \<le> B \<Longrightarrow> walt_ok B (unat B div 7812) w" "lse_sched_ravg_window w = 8000000" "new_lse_sched_ravg_window w = 8000000"
    "tick_sched_clock w = 0"
  using assms by (auto simp: lse_sched_stats_init_def init_walt_def Let_def lse_fixup_window_dep_def
      DEFAULT_SCHED_RAVG_WINDOW_def SCHED_CAPACITY_SHIFT_def walt_ok_def)

lemma alloc_loop_new:
  assumes "\<forall>t l. L t = Some l \<longrightarrow> mark_start l = 0 \<and> \<not> on_dsq l"
  shows "\<forall>t l. alloc_lts_loop a ps L t = Some l \<longrightarrow> mark_start l = 0 \<and> \<not> on_dsq l"
  using assms
proof (induction ps arbitrary: L)
  case (Cons p ps)
  show ?case unfolding alloc_loop_Cons by (rule Cons.IH) (use Cons.prems in auto)
qed (simp add: alloc_loop_Cons)

lemma loaded_lts:
  assumes "L = snd (lse_task_struct_ext_init k c a threads idle (\<lambda>_. None))"
  shows "\<forall>t l. L t = Some l \<longrightarrow> mark_start l = 0 \<and> \<not> on_dsq l" "table_ok B S L"
    "\<forall>t. \<not> on_dsq_flag L t"
proof -
  have "\<forall>t l. alloc_lts_loop a ps (alloc_lts_loop a qs (\<lambda>_. None)) t = Some l \<longrightarrow> mark_start l = 0 \<and> \<not> on_dsq l"
    for ps qs by (intro alloc_loop_new) simp
  then show new: "\<forall>t l. L t = Some l \<longrightarrow> mark_start l = 0 \<and> \<not> on_dsq l"
    by (simp add: assms lse_task_struct_ext_init_def alloc_lts_mem_for_all_threads_def)
  show "table_ok B S L" unfolding assms by (rule ext_init_ok)
  show "\<forall>t. \<not> on_dsq_flag L t" using new by (auto simp: on_dsq_flag_def split: option.splits)
qed

lemma dsq_sync_enabled: "lse_dsq_enable d \<noteq> 0 \<Longrightarrow> lse_dsq_sync k (L, d) = (L, d)"
  by (simp add: lse_dsq_sync_def)

lemma shadow_sync_loaded:
  assumes "\<forall>cpu. rq_cpu (cpu_rq cpu) = cpu" "distinct (cpu_possible k)"
  shows "shadow_consistent (lse_shadow_tick_sync_all k cpu_rq here (lse_shadow_tick_init k boot_shadow))"
proof -
  let ?s = "lse_shadow_tick_init k boot_shadow"
  have "highres_tick_ctrl (fold (\<lambda>cpu. set_shadow cpu None False) cpus s) = highres_tick_ctrl s" for cpus s
    by (induction cpus arbitrary: s) simp_all
  then have "\<not> lse_shadow_tick_enabled ?s"
    by (simp add: lse_shadow_tick_init_def lse_shadow_tick_enabled_def boot_shadow_def)
  then show ?thesis
    using sync_fold_consistent [where here = here and cpus = "filter (cpu_online k) (cpu_possible k)", OF assms(1) init_consistent]
      init_consistent [of k] assms(2)
    by (simp add: lse_shadow_tick_sync_all_def)
qed

lemma module_loaded_state:
  assumes "module_loaded k le j g cur s"
  obtains cs w lrq where "lse_sched_cluster_init k (le_kzalloc_ok le) (boot_clusters (\<lambda>_. boot_lrq)) = Inr cs"
    "lse_sched_stats_init k (init_walt, cl_lrq cs) = (w, lrq)"
    "s = (set_sys_lrq lrq (boot_lse j g\<lparr>sys_lts := snd (lse_task_struct_ext_init k (le_cache_ok le) (le_alloc_ok le)
           (le_threads le) (le_idle le) (\<lambda>_. None)), sys_clusters := cs,
           sys_dsq := lse_dsq_init k (le_jiffies le) boot_dsq, sys_walt := w\<rparr>))
      \<lparr>sys_mon := sys_mon s,
       sys_shadow := lse_shadow_tick_sync_all k (le_cpu_rq le) (le_here le) (lse_shadow_tick_init k boot_shadow)\<rparr>"
proof -
  obtain cs where cs: "lse_sched_cluster_init k (le_kzalloc_ok le) (boot_clusters (\<lambda>_. boot_lrq)) = Inr cs"
    using assms by (auto simp: module_loaded_def lunar_sched_ext_init_def boot_lse_def Let_def ebind_eq_Inr)
  obtain w lrq where w: "lse_sched_stats_init k (init_walt, cl_lrq cs) = (w, lrq)" by fastforce
  let ?d = "lse_dsq_init k (le_jiffies le) boot_dsq"
  have "lse_dsq_sync k (L, ?d) = (L, ?d)" for L by (rule dsq_sync_enabled) (simp add: dsq_init_tunables(1))
  then show thesis
    using assms cs w
    by (intro that [OF cs w]) (auto simp: module_loaded_def lunar_sched_ext_init_def lse_sysctl_init_def
        boot_lse_def Let_def sys_lrq_def set_sys_lrq_def)
qed

lemma module_loaded_ok:
  assumes "module_loaded k le j g cur s" and B: "8000000 \<le> B"
  shows "sys_ok k 8000000 B (unat B div 7812) b cur s"
proof -
  define L where "L = snd (lse_task_struct_ext_init k (le_cache_ok le) (le_alloc_ok le) (le_threads le)
      (le_idle le) (\<lambda>_. None))"
  note lts = loaded_lts [OF L_def]
  let ?d = "lse_dsq_init k (le_jiffies le) boot_dsq"
  obtain cs w lrq where cs: "lse_sched_cluster_init k (le_kzalloc_ok le) (boot_clusters (\<lambda>_. boot_lrq)) = Inr cs"
    and w: "lse_sched_stats_init k (init_walt, cl_lrq cs) = (w, lrq)"
    and s: "s = (set_sys_lrq lrq (boot_lse j g\<lparr>sys_lts := L, sys_clusters := cs, sys_dsq := ?d, sys_walt := w\<rparr>))
      \<lparr>sys_mon := sys_mon s,
       sys_shadow := lse_shadow_tick_sync_all k (le_cpu_rq le) (le_here le) (lse_shadow_tick_init k boot_shadow)\<rparr>"
    unfolding L_def using module_loaded_state [OF assms(1)] by blast
  note wok = loaded_walt [OF w] and lok = loaded_lrq [OF cs w]
  have lrq: "sys_lrq s = lrq" by (subst s) (simp add: sys_lrq_def set_sys_lrq_def)
  have sel: "sys_walt s = w" "sys_lts s = L" "sys_dsq s = ?d" "slim_walt_ctrl s = 1" "sys_clock s = init_clock"
    "sys_gov s = g" "sys_shadow s = lse_shadow_tick_sync_all k (le_cpu_rq le) (le_here le) (lse_shadow_tick_init k boot_shadow)"
    by (subst s; simp add: set_sys_lrq_def boot_lse_def)+
  have pol: "cpu_policy s cpu = cpu_policy (boot_lse j g) cpu" for cpu
    by (simp add: cpu_policy_def sel) (simp add: boot_lse_def)
  have "core_ok k 8000000 B (unat B div 7812) s"
    using assms wok lok lts by (simp add: core_ok_def sel lrq pol windows_ok_def sys_started_def init_clock_def module_loaded_def)
  moreover have "current_ok k cur s" using assms lts by (auto simp: current_ok_def sel module_loaded_def)
  moreover have "dsq_wf (L, ?d)" using lts(3) by (intro started_wf) (auto simp: dsq_started_def)
  moreover have "attached b g" using assms gov_sys.inv_init by (simp add: module_loaded_def)
  moreover have "shadow_consistent (sys_shadow s)"
    unfolding sel using assms by (intro shadow_sync_loaded) (simp_all add: module_loaded_def)
  ultimately show ?thesis by (simp add: sys_ok_def sel)
qed

end
