(* ===== verification/Lse_Text.thy ===== *)
theory Lse_Text
  imports Lse_Prelude
begin

text \<open>
  The text that the files under \<open>/proc\<close> and \<open>/sys\<close> show: what \<open>%d\<close>, \<open>%u\<close> and \<open>%lu\<close> print, the
  cut that \<open>scnprintf\<close> makes at the end of a buffer, lists of named values one per line, and the
  functions that read them back.  Printing is injective where nothing is cut: the lemmas
  \<open>read_dec_int\<close> and \<open>read_fields\<close> are the round trips.
\<close>

section \<open>Decimal numbers\<close>

definition digit :: "nat \<Rightarrow> char" where
  "digit n = char_of (48 + n)"

definition digit_value :: "char \<Rightarrow> nat option" where
  "digit_value c = (if 48 \<le> (of_char c :: nat) \<and> (of_char c :: nat) \<le> 57 then Some (of_char c - 48) else None)"

fun dec_nat :: "nat \<Rightarrow> string" where
  "dec_nat n = (if n < 10 then [digit n] else dec_nat (n div 10) @ [digit (n mod 10)])"

declare dec_nat.simps [simp del]

definition dec_int :: "int \<Rightarrow> string" where
  "dec_int i = (if i < 0 then CHR ''-'' # dec_nat (nat (- i)) else dec_nat (nat i))"

fun read_digits :: "nat \<Rightarrow> string \<Rightarrow> nat option" where
  "read_digits a [] = Some a"
| "read_digits a (c # cs) = (case digit_value c of None \<Rightarrow> None | Some d \<Rightarrow> read_digits (10 * a + d) cs)"

definition read_nat :: "string \<Rightarrow> nat option" where
  "read_nat cs = (if cs = [] then None else read_digits 0 cs)"

definition read_int :: "string \<Rightarrow> int option" where
  "read_int cs =
     (case cs of [] \<Rightarrow> None
      | c # ds \<Rightarrow> if c = CHR ''-'' then map_option (\<lambda>n. - int n) (read_nat ds) else map_option int (read_nat cs))"

lemma digit_value_digit [simp]: "n < 10 \<Longrightarrow> digit_value (digit n) = Some n"
  by (simp add: digit_value_def digit_def of_char_of)

lemma digit_code: "n < 10 \<Longrightarrow> (of_char (digit n) :: nat) = 48 + n"
  by (simp add: digit_def of_char_of)

lemma read_digits_append:
  "read_digits a (xs @ ys) = (case read_digits a xs of None \<Rightarrow> None | Some b \<Rightarrow> read_digits b ys)"
  by (induction a xs rule: read_digits.induct) (auto split: option.split)

lemma read_dec_digits: "read_digits 0 (dec_nat n) = Some n"
proof (induction n rule: dec_nat.induct)
  case (1 n)
  then show ?case by (subst dec_nat.simps) (auto simp: read_digits_append)
qed

lemma dec_nat_nonempty [simp]: "dec_nat n \<noteq> []"
  by (subst dec_nat.simps) simp

lemma read_dec_nat: "read_nat (dec_nat n) = Some n"
  by (simp add: read_nat_def read_dec_digits)

lemma dec_nat_chars: "c \<in> set (dec_nat n) \<Longrightarrow> \<exists>d < 10. c = digit d"
proof (induction n rule: dec_nat.induct)
  case (1 n)
  show ?case
  proof (cases "n < 10")
    case True
    then show ?thesis using 1(2) by (subst (asm) dec_nat.simps) auto
  next
    case False
    then show ?thesis using 1 by (subst (asm) (2) dec_nat.simps) (auto intro: exI [of _ "n mod 10"])
  qed
qed

lemma dec_nat_plain: "c \<in> set (dec_nat n) \<Longrightarrow> c \<noteq> CHR ''-'' \<and> c \<noteq> CHR 0x0A \<and> c \<noteq> CHR ''=''"
  using dec_nat_chars [of c n] digit_code by fastforce

lemma read_dec_int: "read_int (dec_int i) = Some i"
proof (cases "i < 0")
  case False
  obtain c cs where c: "dec_nat (nat i) = c # cs" using dec_nat_nonempty by (meson neq_Nil_conv)
  then have "c \<noteq> CHR ''-''" using dec_nat_plain [of c "nat i"] by simp
  with c False show ?thesis using read_dec_nat [of "nat i"] by (simp add: read_int_def dec_int_def)
qed (simp add: read_int_def dec_int_def read_dec_nat)

lemma dec_int_plain: "c \<in> set (dec_int i) \<Longrightarrow> c \<noteq> CHR 0x0A \<and> c \<noteq> CHR ''=''"
  using dec_nat_plain by (auto simp: dec_int_def split: if_splits)

lemma length_dec_nat: "n < 10 ^ d \<Longrightarrow> 0 < d \<Longrightarrow> length (dec_nat n) \<le> d"
proof (induction d arbitrary: n)
  case (Suc d)
  show ?case
  proof (cases "n < 10")
    case False
    then have "0 < d" using Suc.prems(1) by (cases d) auto
    moreover have "n div 10 < 10 ^ d" using Suc.prems(1) by (simp add: less_mult_imp_div_less mult.commute)
    ultimately have "length (dec_nat (n div 10)) \<le> d" by (rule Suc.IH [rotated])
    then show ?thesis using False by (subst dec_nat.simps) simp
  qed (subst dec_nat.simps, simp)
qed simp

lemma length_dec_int: "0 \<le> i \<Longrightarrow> i < 10 ^ d \<Longrightarrow> 0 < d \<Longrightarrow> length (dec_int i) \<le> d"
  by (simp add: dec_int_def length_dec_nat nat_less_iff)

section \<open>Buffers\<close>

text \<open>\<open>scnprintf(tmp, n, ...)\<close> writes at most \<open>n - 1\<close> characters.\<close>

definition scnprintf :: "nat \<Rightarrow> string \<Rightarrow> string" where
  "scnprintf n s = take (n - 1) s"

lemma scnprintf_fits: "length s < n \<Longrightarrow> scnprintf n s = s"
  by (simp add: scnprintf_def)

lemma length_scnprintf: "0 < n \<Longrightarrow> length (scnprintf n s) < n"
  by (auto simp: scnprintf_def)

section \<open>Named values, one per line\<close>

definition field_line :: "string \<times> int \<Rightarrow> string" where
  "field_line f = fst f @ ''='' @ dec_int (snd f) @ [CHR 0x0A]"

definition fields_text :: "(string \<times> int) list \<Rightarrow> string" where
  "fields_text fs = concat (map field_line fs)"

text \<open>Reading back: the text up to a newline is one line, its name ends at the first \<open>=\<close>.\<close>

function lines_of :: "string \<Rightarrow> string list" where
  "lines_of [] = []"
| "lines_of (c # cs) =
     takeWhile (\<lambda>x. x \<noteq> CHR 0x0A) (c # cs) # lines_of (drop 1 (dropWhile (\<lambda>x. x \<noteq> CHR 0x0A) (c # cs)))"
  by pat_completeness auto
termination
proof (relation "measure length")
  fix c :: char and cs
  have "length (dropWhile (\<lambda>x. x \<noteq> CHR 0x0A) (c # cs)) \<le> length (c # cs)" by (rule length_dropWhile_le)
  then show "(drop 1 (dropWhile (\<lambda>x. x \<noteq> CHR 0x0A) (c # cs)), c # cs) \<in> measure length" by (simp del: dropWhile.simps)
qed simp

definition read_field :: "string \<Rightarrow> string \<times> int option" where
  "read_field l = (takeWhile (\<lambda>x. x \<noteq> CHR ''='') l, read_int (drop 1 (dropWhile (\<lambda>x. x \<noteq> CHR ''='') l)))"

definition read_fields :: "string \<Rightarrow> (string \<times> int option) list" where
  "read_fields t = map read_field (lines_of t)"

lemma lines_of_line:
  assumes "CHR 0x0A \<notin> set l" shows "lines_of (l @ CHR 0x0A # rest) = l # lines_of rest"
proof -
  have "\<And>x. x \<in> set l \<Longrightarrow> x \<noteq> CHR 0x0A" using assms by auto
  then have "takeWhile (\<lambda>x. x \<noteq> CHR 0x0A) (l @ CHR 0x0A # rest) = l"
    "dropWhile (\<lambda>x. x \<noteq> CHR 0x0A) (l @ CHR 0x0A # rest) = CHR 0x0A # rest"
    by (simp_all add: takeWhile_append2 dropWhile_append2)
  then show ?thesis
    by (cases "l @ CHR 0x0A # rest") auto
qed

lemma read_field_line:
  assumes "CHR ''='' \<notin> set n" shows "read_field (n @ ''='' @ dec_int v) = (n, Some v)"
proof -
  have "\<And>x. x \<in> set n \<Longrightarrow> x \<noteq> CHR ''=''" using assms by auto
  then have "takeWhile (\<lambda>x. x \<noteq> CHR ''='') (n @ CHR ''='' # dec_int v) = n"
    "dropWhile (\<lambda>x. x \<noteq> CHR ''='') (n @ CHR ''='' # dec_int v) = CHR ''='' # dec_int v"
    by (simp_all add: takeWhile_append2 dropWhile_append2)
  then show ?thesis by (simp add: read_field_def read_dec_int)
qed

lemmas read_field_line' = read_field_line [simplified]

lemma read_fields_text:
  assumes "\<forall>(n, v) \<in> set fs. CHR ''='' \<notin> set n \<and> CHR 0x0A \<notin> set n"
  shows "read_fields (fields_text fs) = map (\<lambda>(n, v). (n, Some v)) fs"
  using assms
proof (induction fs)
  case (Cons f fs)
  obtain n v where f: "f = (n, v)" by fastforce
  have "CHR 0x0A \<notin> set (n @ ''='' @ dec_int v)" using Cons.prems dec_int_plain [of _ v] by (auto simp: f)
  from lines_of_line [OF this, of "fields_text fs"]
  have "lines_of (fields_text (f # fs)) = (n @ ''='' @ dec_int v) # lines_of (fields_text fs)"
    by (simp add: fields_text_def field_line_def f)
  then show ?case using Cons by (simp add: read_fields_def read_field_line' f)
qed (simp add: read_fields_def fields_text_def)

lemma length_fields_text: "length (fields_text fs) = (\<Sum>(n, v)\<leftarrow>fs. length n + length (dec_int v) + 2)"
  by (induction fs) (auto simp: fields_text_def field_line_def)

end
