(* ===== verification/Lse_Report.thy ===== *)
theory Lse_Report
  imports Lse_Text Lse_Hooks
begin

text \<open>
  What the module shows of its state: the files under \<open>/proc/lunar_sched_ext\<close>
  (\<open>src/lse_monitor.c\<close>), the governor's attributes under \<open>/sys\<close> (\<open>src/cpufreq_lse.c\<close>) and the
  diagnostic dump of the dispatch queues (\<open>src/lse_dsq.c\<close>).  A read is the text the function
  leaves in its buffer; \<open>simple_read_from_buffer\<close>, which hands the reader a part of it, is the
  kernel's.
\<close>

section \<open>The status file\<close>

definition status_fields :: "u64 \<Rightarrow> lse \<Rightarrow> (string \<times> int) list" where
  "status_fields jiffies s =
     (let w = sys_walt s; m = sys_mon s; d = sys_dsq s; c = ctl (sys_gov s) in
     [(''slim_walt_ctrl'', slim_walt_ctrl s),
      (''slim_stats'', slim_stats m),
      (''heartbeat'', heartbeat m),
      (''heartbeat_enable'', heartbeat_enable m),
      (''watchdog_enable'', watchdog_enable m),
      (''fg_prio_threshold'', lse_fg_prio_threshold w),
      (''boost_bg_pct'', lse_boost_bg_pct w),
      (''boost_fg_pct'', lse_boost_fg_pct w),
      (''boost_rt_pct'', lse_boost_rt_pct w),
      (''dsq_enable'', lse_dsq_enable d),
      (''dsq_rescue_enable'', lse_dsq_rescue_enable d),
      (''dsq_max_depth'', lse_dsq_max_depth d),
      (''shadow_tick_enable'', uint (highres_tick_ctrl (sys_shadow s))),
      (''util_norm_enable'', util_norm_enable c),
      (''cluster_window_enable'', cluster_window_enable c),
      (''cluster_tl_dyn_enable'', cluster_tl_dyn_enable c),
      (''cluster_freq_cap_enable'', cluster_freq_cap_enable c),
      (''cluster_agg_mode'', cluster_agg_mode c),
      (''gov_legacy_formula_enable'', gov_legacy_formula_enable c),
      (''heartbeat_age_jiffies'', uint (jiffies - lse_heartbeat_last_touch m)),
      (''watchdog_age_jiffies'', uint (jiffies - lse_watchdog_timestamp m)),
      (''watchdog_timeout_jiffies'', uint (lse_watchdog_timeout m))])"

definition lse_proc_status_read :: "u64 \<Rightarrow> lse \<Rightarrow> string" where
  "lse_proc_status_read jiffies s = scnprintf 512 (fields_text (status_fields jiffies s))"

section \<open>The statistics and the task list\<close>

text \<open>\<open>%lld\<close> of an \<open>atomic64_t\<close>: the counter as a signed number.\<close>

definition lse_proc_stats_read :: "monitor \<Rightarrow> string" where
  "lse_proc_stats_read m = scnprintf 512 (fields_text
     [(''update_cnt'', sint (lse_stats_update_cnt m)),
      (''rollover_cnt'', sint (lse_stats_rollover_cnt m)),
      (''tick_cnt'', sint (lse_stats_tick_cnt m))])"

definition lse_dsq_depth_cpu :: "kernel \<Rightarrow> int \<Rightarrow> dsq \<Rightarrow> int" where
  "lse_dsq_depth_cpu k cpu d = lse_dsq_depth_pcp k cpu d"

text \<open>\<open>curr cpu\<close> is the task the CPU runs, with its \<open>pid\<close> and \<open>comm\<close>.\<close>

definition tasks_header :: string where
  "tasks_header = ''cpu pid comm class boost prio demand scaled dsq_depth cw_ns tl_dyn agg_util freq_cap power_pressure'' @ [CHR 0x0A]"

fun join_words :: "string list \<Rightarrow> string" where
  "join_words [] = []"
| "join_words [w] = w @ [CHR 0x0A]"
| "join_words (w # ws) = w @ '' '' @ join_words ws"

definition task_row ::
  "kernel \<Rightarrow> lse \<Rightarrow> (nat \<Rightarrow> nat \<times> int \<times> string) \<Rightarrow> nat \<Rightarrow> fault + string option" where
  "task_row k s curr_of cpu =
     (case curr_of cpu of (t, pid, comm) \<Rightarrow>
       (case sys_lts s t of None \<Rightarrow> Inr None
        | Some l \<Rightarrow>
            ebind (lse_gov_cluster_window_ns k (lse_sched_ravg_window (sys_walt s)) (sys_gov s) (int cpu)) (\<lambda>cw_ns.
            ebind (lse_gov_cluster_target_load_dyn k (sys_gov s) (int cpu)) (\<lambda>tl_dyn.
            ebind (lse_gov_cluster_agg_util k (sys_gov s) (int cpu)) (\<lambda>agg_util.
            ebind (lse_gov_cluster_freq_cap_applied k (sys_gov s) (int cpu)) (\<lambda>freq_cap.
            ebind (lse_gov_cluster_power_pressure k (sys_gov s) (int cpu)) (\<lambda>pressure.
            Inr (Some (join_words
              [dec_int (int cpu), dec_int pid, comm, lse_task_class_name (task_class l),
               dec_int (uint (boost_pct l)), dec_int (uint (priority_hint l)),
               dec_int (uint (demand l)), dec_int (uint (demand_scaled l)),
               dec_int (lse_dsq_depth_cpu k (int cpu) (sys_dsq s)),
               dec_int (uint cw_ns), dec_int (uint tl_dyn), dec_int (uint agg_util),
               dec_int (uint freq_cap), dec_int (uint pressure)])))))))))"

fun tasks_loop :: "(nat \<Rightarrow> fault + string option) \<Rightarrow> nat list \<Rightarrow> string \<Rightarrow> fault + string" where
  "tasks_loop row [] tmp = Inr tmp"
| "tasks_loop row (cpu # cpus) tmp =
     ebind (row cpu) (\<lambda>line.
       case line of None \<Rightarrow> tasks_loop row cpus tmp
       | Some r \<Rightarrow>
           (let tmp = tmp @ scnprintf (1024 - length tmp) r
            in if length tmp \<ge> 1024 - 96 then Inr tmp else tasks_loop row cpus tmp))"

definition lse_proc_tasks_read :: "kernel \<Rightarrow> (nat \<Rightarrow> nat \<times> int \<times> string) \<Rightarrow> lse \<Rightarrow> fault + string" where
  "lse_proc_tasks_read k curr_of s =
     tasks_loop (task_row k s curr_of) (for_each_online_cpu k) (scnprintf 1024 tasks_header)"

section \<open>The governor's attributes\<close>

text \<open>\<open>%d\<close> of an \<open>unsigned int\<close> prints it as a signed number.\<close>

definition show_line :: "int \<Rightarrow> string" where
  "show_line v = dec_int v @ [CHR 0x0A]"

definition target_loads_show :: "lse_gov_tunables \<Rightarrow> string" where
  "target_loads_show tn = show_line (sint (target_loads tn))"

definition soft_freq_max_show :: "lse_gov_tunables \<Rightarrow> string" where
  "soft_freq_max_show tn =
     (if soft_freq_max tn < 0 then ''max'' @ [CHR 0x0A] else show_line (soft_freq_max tn))"

definition soft_freq_min_show :: "lse_gov_tunables \<Rightarrow> string" where
  "soft_freq_min_show tn =
     (if soft_freq_min tn < 0 then ''0'' @ [CHR 0x0A] else show_line (soft_freq_min tn))"

definition soft_freq_cur_show :: "lse_gov_tunables \<Rightarrow> string" where
  "soft_freq_cur_show tn = ''none'' @ [CHR 0x0A]"

definition apply_freq_immediately_show :: "lse_gov_tunables \<Rightarrow> string" where
  "apply_freq_immediately_show tn = show_line (if apply_freq_immediately tn then 1 else 0)"

section \<open>The dump of the dispatch queues\<close>

definition NSEC_PER_MSEC :: u64 where "NSEC_PER_MSEC = 1000000"

definition LSE_DSQ_DEFAULT_QUOTAS :: "u64 list" where
  "LSE_DSQ_DEFAULT_QUOTAS = [0, 0, 0, 0, 0, 32 * NSEC_PER_MSEC, 20 * NSEC_PER_MSEC, 14 * NSEC_PER_MSEC,
     8 * NSEC_PER_MSEC, 6 * NSEC_PER_MSEC]"

text \<open>One line of the log, with the values it reports.\<close>

datatype dsq_dump_line =
    Dump_Round u64
  | Dump_Curr_Idx int int
  | Dump_Gdsq nat u32 u64 int bool   \<comment> \<open>queue, deadline and quota in ms, depth, timeout\<close>
  | Dump_Pcp nat int int bool        \<comment> \<open>CPU, depth, run time, round\<close>
  | Dump_Backlog int
  | Dump_Urgency nat u32

definition lse_dsq_dump_state :: "kernel \<Rightarrow> nat \<Rightarrow> dsq \<Rightarrow> dsq_dump_line list" where
  "lse_dsq_dump_state k this_cpu d =
     [Dump_Round (lse_dsq_round d),
      Dump_Curr_Idx (curr_idx (lse_dsq_sinfo d) ! 0) (curr_idx (lse_dsq_sinfo d) ! 1)] @
     map (\<lambda>i. Dump_Gdsq i (lse_dsq_deadlines d ! i) (LSE_DSQ_DEFAULT_QUOTAS ! i div NSEC_PER_MSEC)
                (lse_dsq_depth_global (int i) d) (lse_dsq_has_timeout (int i) d))
       (filter (\<lambda>i. lse_dsq_depth_global (int i) d > 0 \<or> lse_dsq_has_timeout (int i) d) [0..<LSE_MAX_GLOBAL_DSQS]) @
     map (\<lambda>cpu. Dump_Pcp cpu (lse_dsq_depth_pcp k (int cpu) d) (pcp_rtime (lse_pcp_info d cpu))
                  (pcp_round (lse_pcp_info d cpu)))
       (filter (\<lambda>cpu. lse_dsq_depth_pcp k (int cpu) d > 0) (for_each_online_cpu k)) @
     [Dump_Backlog (lse_dsq_total_backlog k d), Dump_Urgency this_cpu (lse_dsq_urgency_signal d)]"

section \<open>What the buffers hold\<close>

text \<open>The widths of the numbers under which the status file fits its buffer.\<close>

definition status_narrow :: "lse \<Rightarrow> bool" where
  "status_narrow s \<longleftrightarrow>
     (let w = sys_walt s; m = sys_mon s; d = sys_dsq s; c = ctl (sys_gov s) in
      (\<forall>v \<in> {slim_walt_ctrl s, slim_stats m, heartbeat m, heartbeat_enable m, watchdog_enable m,
          lse_dsq_enable d, lse_dsq_rescue_enable d, uint (highres_tick_ctrl (sys_shadow s)),
          util_norm_enable c, cluster_window_enable c, cluster_tl_dyn_enable c, cluster_freq_cap_enable c,
          cluster_agg_mode c, gov_legacy_formula_enable c}. 0 \<le> v \<and> v < 10) \<and>
      (\<forall>v \<in> {lse_fg_prio_threshold w, lse_boost_bg_pct w, lse_boost_fg_pct w, lse_boost_rt_pct w,
          lse_dsq_max_depth d}. 0 \<le> v \<and> v < 10000))"

lemma length_dec_u64: "length (dec_int (uint (w :: u64))) \<le> 20"
proof (rule length_dec_int)
  show "uint w < 10 ^ 20" using uint_lt2p [of w] by simp
qed simp_all

lemma length_dec_1: "0 \<le> v \<and> v < 10 \<Longrightarrow> length (dec_int v) \<le> 1"
  using length_dec_int [of v 1] by simp

lemma length_dec_4: "0 \<le> v \<and> v < 10000 \<Longrightarrow> length (dec_int v) \<le> 4"
  using length_dec_int [of v 4] by simp

lemma status_length:
  assumes "status_narrow s" shows "length (fields_text (status_fields j s)) < 512"
proof -
  note one = length_dec_1 [OF bspec [OF conjunct1 [OF assms [unfolded status_narrow_def Let_def]]]]
  note four = length_dec_4 [OF bspec [OF conjunct2 [OF assms [unfolded status_narrow_def Let_def]]]]
  have "length (fields_text (status_fields j s)) \<le> 406 + (14 * 1 + 5 * 4 + 3 * 20)"
    unfolding length_fields_text status_fields_def Let_def
    using one [of "slim_walt_ctrl s"] one [of "slim_stats (sys_mon s)"] one [of "heartbeat (sys_mon s)"]
      one [of "heartbeat_enable (sys_mon s)"] one [of "watchdog_enable (sys_mon s)"] one [of "lse_dsq_enable (sys_dsq s)"]
      one [of "lse_dsq_rescue_enable (sys_dsq s)"] one [of "uint (highres_tick_ctrl (sys_shadow s))"]
      one [of "util_norm_enable (ctl (sys_gov s))"] one [of "cluster_window_enable (ctl (sys_gov s))"]
      one [of "cluster_tl_dyn_enable (ctl (sys_gov s))"] one [of "cluster_freq_cap_enable (ctl (sys_gov s))"]
      one [of "cluster_agg_mode (ctl (sys_gov s))"] one [of "gov_legacy_formula_enable (ctl (sys_gov s))"]
      four [of "lse_fg_prio_threshold (sys_walt s)"] four [of "lse_boost_bg_pct (sys_walt s)"]
      four [of "lse_boost_fg_pct (sys_walt s)"] four [of "lse_boost_rt_pct (sys_walt s)"]
      four [of "lse_dsq_max_depth (sys_dsq s)"]
      length_dec_u64 [of "j - lse_heartbeat_last_touch (sys_mon s)"]
      length_dec_u64 [of "j - lse_watchdog_timestamp (sys_mon s)"]
      length_dec_u64 [of "lse_watchdog_timeout (sys_mon s)"]
    by simp
  then show ?thesis by simp
qed

lemma status_names: "\<forall>(n, v) \<in> set (status_fields j s). CHR ''='' \<notin> set n \<and> CHR 0x0A \<notin> set n"
  by (simp add: status_fields_def Let_def)

lemma status_read_back:
  assumes "status_narrow s"
  shows "read_fields (lse_proc_status_read j s) = map (\<lambda>(n, v). (n, Some v)) (status_fields j s)"
  unfolding lse_proc_status_read_def scnprintf_fits [OF status_length [OF assms]]
  by (rule read_fields_text [OF status_names])

text \<open>The task list: never more than the buffer holds, and complete rows of the first CPUs only.\<close>

lemma tasks_loop_bound: "tasks_loop row cpus tmp = Inr text \<Longrightarrow> length tmp < 1024 \<Longrightarrow> length text < 1024"
proof (induction row cpus tmp rule: tasks_loop.induct)
  case (2 row cpu cpus tmp)
  have fit: "length (tmp @ scnprintf (1024 - length tmp) r) < 1024" for r
    using 2(4) by (auto simp: scnprintf_def)
  obtain line where line: "row cpu = Inr line" using 2(3) by (auto simp: ebind_eq_Inr)
  show ?case
  proof (cases line)
    case None
    then show ?thesis using 2(1) [OF line None] 2(3,4) line by simp
  next
    case (Some r)
    then show ?thesis using 2(2) [OF line Some refl] 2(3) fit [of r] line by (auto simp: Let_def split: if_splits)
  qed
qed simp

definition rows_text :: "(nat \<Rightarrow> fault + string option) \<Rightarrow> nat list \<Rightarrow> string" where
  "rows_text row cpus = concat (List.map_filter (\<lambda>cpu. case row cpu of Inl f \<Rightarrow> None | Inr line \<Rightarrow> line) cpus)"

lemma rows_text_simps:
  "rows_text row [] = []" "row cpu = Inr None \<Longrightarrow> rows_text row (cpu # cpus) = rows_text row cpus"
  "row cpu = Inr (Some r) \<Longrightarrow> rows_text row (cpu # cpus) = r @ rows_text row cpus"
  by (simp_all add: rows_text_def map_filter_simps)

lemma tasks_loop_prefix:
  assumes "tasks_loop row cpus tmp = Inr text"
    and "length tmp < 1024 - 96" "\<forall>cpu \<in> set cpus. \<forall>r. row cpu = Inr (Some r) \<longrightarrow> length r < 96"
  shows "\<exists>n. text = tmp @ rows_text row (take n cpus) \<and> (n < length cpus \<longrightarrow> 1024 - 96 \<le> length text)"
  using assms
proof (induction row cpus tmp rule: tasks_loop.induct)
  case (1 row tmp)
  then show ?case by (simp add: rows_text_simps)
next
  case (2 row cpu cpus tmp)
  obtain line where line: "row cpu = Inr line" using 2(3) by (auto simp: ebind_eq_Inr)
  show ?case
  proof (cases line)
    case None
    then have "tasks_loop row cpus tmp = Inr text" using 2(3) line by simp
    from 2(1) [OF line None this 2(4)] 2(5) obtain n where
      "text = tmp @ rows_text row (take n cpus) \<and> (n < length cpus \<longrightarrow> 1024 - 96 \<le> length text)" by auto
    then show ?thesis using None line by (intro exI [of _ "Suc n"]) (auto simp: rows_text_simps)
  next
    case (Some r)
    then have "length r < 96" using 2(5) line by auto
    then have fit: "tmp @ scnprintf (1024 - length tmp) r = tmp @ r" using 2(4) by (simp add: scnprintf_fits)
    show ?thesis
    proof (cases "length (tmp @ r) \<ge> 1024 - 96")
      case True
      then show ?thesis using Some fit line 2(3)
        by (intro exI [of _ 1]) (auto simp: rows_text_simps Let_def)
    next
      case False
      then have "tasks_loop row cpus (tmp @ r) = Inr text" using 2(3) line Some fit by (simp add: Let_def)
      from 2(2) [OF line Some refl] this False 2(5) fit obtain n where
        "text = (tmp @ r) @ rows_text row (take n cpus) \<and> (n < length cpus \<longrightarrow> 1024 - 96 \<le> length text)" by auto
      then show ?thesis using Some line by (intro exI [of _ "Suc n"]) (auto simp: rows_text_simps)
    qed
  qed
qed

lemma tasks_header_length: "length tasks_header < 1024 - 96"
  by (simp add: tasks_header_def)

lemma tasks_read_prefix:
  assumes "lse_proc_tasks_read k curr_of s = Inr text"
    and "\<forall>cpu \<in> set (for_each_online_cpu k). \<forall>r. task_row k s curr_of cpu = Inr (Some r) \<longrightarrow> length r < 96"
  shows "\<exists>n. text = tasks_header @ rows_text (task_row k s curr_of) (take n (for_each_online_cpu k)) \<and>
    (n < length (for_each_online_cpu k) \<longrightarrow> 1024 - 96 \<le> length text)"
proof -
  have "scnprintf 1024 tasks_header = tasks_header" using tasks_header_length by (simp add: scnprintf_fits)
  then have "tasks_loop (task_row k s curr_of) (for_each_online_cpu k) tasks_header = Inr text"
    using assms(1) by (simp add: lse_proc_tasks_read_def)
  from tasks_loop_prefix [OF this tasks_header_length assms(2)] show ?thesis .
qed

text \<open>A store of a soft limit leaves the value in the tunables, whatever the frequency does.\<close>

lemma commit_tunables: "tunables_obj (commit_freq pol f lg g) = tunables_obj g"
  by (simp add: commit_freq_def set_governor_data_def)

lemma apply_soft_limits_tunables: "apply_soft_limits k t g = Inr g' \<Longrightarrow> tunables_obj g' = tunables_obj g"
  by (auto simp: apply_soft_limits_def lse_gov_update_soft_limit_cpufreq_def Let_def ebind_eq_Inr commit_tunables
      split: option.splits if_splits list.splits)

lemma soft_limit_store_value:
  assumes "soft_limit_store k same upd t (Some v) n g = Inr (r, g')"
    and "\<And>tn. same (upd v tn) v" "\<And>tn. same tn v \<Longrightarrow> upd v tn = tn"
  shows "\<exists>tn. tunables_obj g t = Some tn \<and> tunables_obj g' t = Some (upd v tn)"
proof -
  obtain tn where tn: "tunables_obj g t = Some tn" using assms(1) by (auto simp: soft_limit_store_def split: option.splits)
  show ?thesis
  proof (cases "same tn v")
    case True
    then show ?thesis using assms tn by (auto simp: soft_limit_store_def)
  next
    case False
    then have "apply_soft_limits k t (upd_tunables t (upd v) g) = Inr g'"
      using assms(1) tn by (auto simp: soft_limit_store_def ebind_eq_Inr)
    then show ?thesis using tn by (auto simp: apply_soft_limits_tunables upd_tunables_def)
  qed
qed

section \<open>Properties\<close>

text \<open>C29: The status file is not cut, and reading it back gives every value, while the switches have one
  digit, the tunables four, whatever the ages are.  (The switches written by \<open>proc_dointvec\<close> have no
  range, so the text can be made longer than its buffer.)\<close>

theorem status_roundtrip:
  assumes "status_narrow s"
  shows "read_fields (lse_proc_status_read j s) = map (\<lambda>(n, v). (n, Some v)) (status_fields j s)"
  by (rule status_read_back [OF assms])

definition demo_module :: lse where
  "demo_module = boot_lse 0 demo_gov"

theorem status_roundtrip_witness:
  "(''boost_rt_pct'', Some 1536) \<in> set (read_fields (lse_proc_status_read 5 demo_module))"
proof -
  have "status_narrow demo_module"
    by (simp add: status_narrow_def demo_module_def boot_lse_def boot_monitor_def boot_dsq_def boot_shadow_def
        demo_gov_def demo_ctl_def init_walt_def DEFAULT_PRIO_def)
  moreover have "(''boost_rt_pct'', 1536) \<in> set (status_fields 5 demo_module)"
    by (simp add: status_fields_def demo_module_def boot_lse_def init_walt_def Let_def)
  ultimately show ?thesis by (subst status_roundtrip) force+
qed

text \<open>The task list shows the header and complete rows, one for each of the first online CPUs whose
  task has a structure; CPUs are left out only when the text has reached 928 characters, and the
  text never exceeds its 1024-byte buffer, as long as no row reaches 96 characters.\<close>

theorem tasks_rows_complete:
  assumes "lse_proc_tasks_read k curr_of s = Inr text"
    and "\<forall>cpu \<in> set (for_each_online_cpu k). \<forall>r. task_row k s curr_of cpu = Inr (Some r) \<longrightarrow> length r < 96"
  shows "\<exists>n. text = tasks_header @ rows_text (task_row k s curr_of) (take n (for_each_online_cpu k)) \<and>
    (n < length (for_each_online_cpu k) \<longrightarrow> 1024 - 96 \<le> length text) \<and> length text < 1024"
proof -
  have "length text < 1024"
    by (rule tasks_loop_bound [OF assms(1) [unfolded lse_proc_tasks_read_def]]) (simp add: length_scnprintf)
  then show ?thesis using tasks_read_prefix [OF assms] by blast
qed

definition demo_curr :: "nat \<Rightarrow> nat \<times> int \<times> string" where
  "demo_curr cpu = (if cpu = 3 then (5, 17, ''init'') else (9, 0, ''swapper''))"

definition demo_tasks :: lse where
  "demo_tasks = demo_module\<lparr>sys_lts := [5 \<mapsto> demo_lts 5]\<rparr>"

lemma demo_task_rows:
  "task_row demo_kernel demo_tasks demo_curr cpu =
     Inr (if cpu = 3 then Some (''3 17 init normal 1024 120 0 0 0 16000000 90 0 0 0'' @ [CHR 0x0A]) else None)"
proof -
  have num: "dec_int 0 = ''0''" "dec_int 3 = ''3''" "dec_int 17 = ''17''" "dec_int 90 = ''90''" "dec_int 120 = ''120''"
    "dec_int 1024 = ''1024''" "dec_int 16000000 = ''16000000''"
    by (simp_all add: dec_int_def dec_nat.simps digit_def char_of_def bit_iff_odd)
  have lts: "sys_lts demo_tasks = [5 \<mapsto> demo_lts 5]" and sel: "sys_dsq demo_tasks = boot_dsq" "sys_gov demo_tasks = demo_gov"
    by (simp_all add: demo_tasks_def demo_module_def boot_lse_def)
  have gov: "lse_gov_policy_from_cpu demo_kernel demo_gov 3 = Some (0, 0)" "lg_deref demo_gov (0, 0) = Inr demo_lg"
    by (simp_all add: lse_gov_policy_from_cpu_def demo_kernel_def demo_gov_def lg_deref_def)
  have lg: "cluster_window_ns demo_lg = 16000000" "last_target_load_dyn demo_lg = 0" "target_load_base demo_lg = 90"
    "last_agg_util demo_lg = 0" "last_freq_cap_applied demo_lg = 0" "last_power_pressure demo_lg = 0"
    by (simp_all add: demo_lg_def lse_gov_policy_alloc_def)
  have depth: "lse_dsq_depth_cpu demo_kernel 3 boot_dsq = 0"
    by (simp add: lse_dsq_depth_cpu_def lse_dsq_depth_pcp_def boot_dsq_def demo_kernel_def init_one_dsq_def)
  show ?thesis
    by (simp add: task_row_def demo_curr_def lts sel depth lse_gov_cluster_window_ns_def lse_gov_cluster_target_load_dyn_def
        lse_gov_cluster_agg_util_def lse_gov_cluster_freq_cap_applied_def lse_gov_cluster_power_pressure_def gov lg)
      (simp add: num demo_lts_def)
qed

theorem tasks_rows_complete_witness:
  "\<exists>text n. lse_proc_tasks_read demo_kernel demo_curr demo_tasks = Inr text \<and> length text < 1024 \<and>
     text = tasks_header @ rows_text (task_row demo_kernel demo_tasks demo_curr) (take n [0..<8])"
proof -
  have online: "for_each_online_cpu demo_kernel = [0..<8]" by (simp add: for_each_online_cpu_def demo_kernel_def)
  have "\<exists>text. tasks_loop (task_row demo_kernel demo_tasks demo_curr) cpus tmp = Inr text" for cpus tmp
    by (induction cpus arbitrary: tmp) (simp_all add: demo_task_rows Let_def)
  then obtain out where run: "lse_proc_tasks_read demo_kernel demo_curr demo_tasks = Inr out"
    unfolding lse_proc_tasks_read_def by blast
  have "\<forall>cpu \<in> set (for_each_online_cpu demo_kernel). \<forall>r. task_row demo_kernel demo_tasks demo_curr cpu = Inr (Some r) \<longrightarrow> length r < 96"
    by (auto simp: demo_task_rows split: if_splits)
  from tasks_rows_complete [OF run this] run show ?thesis unfolding online by blast
qed

text \<open>A non-negative soft limit reads back as it was written.  A negative one, which switches the
  limit off, does not: the maximum shows as \<open>max\<close>, which is no number a store accepts, and the
  minimum as 0, which is a limit.\<close>

theorem soft_limit_roundtrip:
  assumes "soft_freq_max_store k t (Some v) n g = Inr (r, g')" "soft_freq_min_store k t (Some u) m g' = Inr (r', g'')"
  shows "\<exists>tn. tunables_obj g'' t = Some tn \<and>
    read_int (butlast (soft_freq_max_show tn)) = (if v < 0 then None else Some v) \<and>
    read_int (butlast (soft_freq_min_show tn)) = (if u < 0 then Some 0 else Some u)"
proof -
  obtain tn where tn: "tunables_obj g' t = Some (tn\<lparr>soft_freq_max := v\<rparr>)"
    using soft_limit_store_value [OF assms(1) [unfolded soft_freq_max_store_def]] by auto
  then have "tunables_obj g'' t = Some (tn\<lparr>soft_freq_max := v, soft_freq_min := u\<rparr>)"
    using soft_limit_store_value [OF assms(2) [unfolded soft_freq_min_store_def]] by auto
  moreover have "read_int ''max'' = None" "read_int ''0'' = Some 0"
    by (simp_all add: read_int_def read_nat_def digit_value_def)
  ultimately show ?thesis
    by (auto simp: soft_freq_max_show_def soft_freq_min_show_def show_line_def read_dec_int)
qed


theorem soft_limit_roundtrip_witness:
  "\<exists>r g' r' g''. soft_freq_max_store demo_kernel 0 (Some 1500000) 8 demo_gov = Inr (r, g') \<and>
     soft_freq_min_store demo_kernel 0 (Some (- 1)) 3 g' = Inr (r', g'') \<and>
     map_option (\<lambda>tn. read_int (butlast (soft_freq_max_show tn))) (tunables_obj g'' 0) = Some (Some 1500000)"
proof -
  obtain r g' r' g'' where run: "soft_freq_max_store demo_kernel 0 (Some 1500000) 8 demo_gov = Inr (r, g')"
     "soft_freq_min_store demo_kernel 0 (Some (- 1)) 3 g' = Inr (r', g'')"
  proof -
    have att: "attached False demo_gov" and t: "tunables_obj demo_gov 0 \<noteq> None"
      by (auto simp: attached_def links_ok_def tunables_ptr_def attr_list_def demo_gov_def demo_lg_def demo_tunables_def
          split: if_splits)
    have keep: "attr_policies (tn\<lparr>soft_freq_max := v\<rparr>) = attr_policies tn" "attr_policies (tn\<lparr>soft_freq_min := v\<rparr>) = attr_policies tn"
      for v tn by simp_all
    note st = soft_limit_store_attached [where k = demo_kernel and t = 0]
    obtain r g' where 1: "soft_freq_max_store demo_kernel 0 (Some 1500000) 8 demo_gov = Inr (r, g')" "attached False g'"
      using st [where upd = "\<lambda>v tn. tn\<lparr>soft_freq_max := v\<rparr>", OF att t keep(1)] unfolding soft_freq_max_store_def by blast
    have t': "tunables_obj g' 0 \<noteq> None"
      using soft_limit_store_value [OF 1(1) [unfolded soft_freq_max_store_def]] by auto
    obtain r' g'' where "soft_freq_min_store demo_kernel 0 (Some (- 1)) 3 g' = Inr (r', g'')"
      using st [where upd = "\<lambda>v tn. tn\<lparr>soft_freq_min := v\<rparr>", OF 1(2) t' keep(2)] unfolding soft_freq_min_store_def by blast
    with 1(1) show ?thesis using that by blast
  qed
  show ?thesis using soft_limit_roundtrip [OF run] run by auto
qed

end
