(* ===== verification/Lse_Sysctl.thy ===== *)
theory Lse_Sysctl
  imports Lse_Hooks Lse_Report
begin

text \<open>
  \<open>src/lse_sysctl.c\<close>: the table of sysctls with the variable behind each entry, its range and its
  handler, and the handlers, on the state of the whole module.  What the kernel's \<open>proc_dobool\<close>,
  \<open>proc_dointvec\<close> and \<open>proc_dointvec_minmax\<close> make of the user's text is a parameter; that a
  Boolean is 0 or 1, that an integer fits \<open>int\<close> and that the third function refuses what is out
  of range is the documented behaviour \<open>helpers_ok\<close>.  The lemmas show what a write changes,
  which writes crash, and that the ranges are kept.
\<close>

section \<open>The table\<close>

datatype ctl_data =
    Ctl_slim_walt_ctrl | Ctl_slim_stats | Ctl_heartbeat | Ctl_fg_prio_threshold | Ctl_boost_bg_pct
  | Ctl_boost_fg_pct | Ctl_boost_rt_pct | Ctl_window_stats_policy | Ctl_frame_per_sec | Ctl_gov_debug
  | Ctl_highres_tick_ctrl | Ctl_heartbeat_enable | Ctl_watchdog_enable | Ctl_dsq_enable
  | Ctl_dsq_rescue_enable | Ctl_dsq_max_depth | Ctl_highres_tick_ctrl_dbg | Ctl_util_norm_enable
  | Ctl_cluster_window_enable | Ctl_cluster_tl_dyn_enable | Ctl_cluster_freq_cap_enable
  | Ctl_cluster_agg_mode | Ctl_gov_legacy_formula_enable

datatype proc_handler =
    Proc_Dobool | Proc_Dointvec | Proc_Dointvec_Minmax | Proc_Shadow_Tick_Update
  | Proc_Sched_Ravg_Window_Update | Proc_Monitor_Toggle_Update | Proc_Dsq_Toggle_Update
  | Proc_Dsq_Dump | Proc_Dsq_Urgency

text \<open>\<open>ctl_data\<close> is the variable that \<open>.data\<close> points to, \<open>None\<close> for the constant \<open>SYSCTL_ZERO\<close>; the
  range is \<open>.extra1\<close> and \<open>.extra2\<close>.\<close>

record ctl_table =
  procname :: string
  ctl_var :: "ctl_data option"
  ctl_mode :: nat
  ctl_handler :: proc_handler
  ctl_range :: "(int \<times> int) option"

definition ctl_entry ::
  "string \<Rightarrow> ctl_data option \<Rightarrow> nat \<Rightarrow> proc_handler \<Rightarrow> (int \<times> int) option \<Rightarrow> ctl_table" where
  "ctl_entry n d m h r = \<lparr>procname = n, ctl_var = d, ctl_mode = m, ctl_handler = h, ctl_range = r\<rparr>"

text \<open>The entries of the tracker, the monitor, the shadow tick and the queues; the modes are 0644 and
  0666, \<open>extra2\<close> of the ninth is \<open>SYSCTL_INT_MAX\<close>.\<close>

definition lse_table_tracking :: "ctl_table list" where
  "lse_table_tracking =
     [ctl_entry ''slim_walt_ctrl'' (Some Ctl_slim_walt_ctrl) 420 Proc_Dobool None,
      ctl_entry ''slim_stats'' (Some Ctl_slim_stats) 438 Proc_Dointvec None,
      ctl_entry ''heartbeat'' (Some Ctl_heartbeat) 438 Proc_Dointvec None,
      ctl_entry ''fg_prio_threshold'' (Some Ctl_fg_prio_threshold) 438 Proc_Dointvec_Minmax (Some (0, 139)),
      ctl_entry ''boost_bg_pct'' (Some Ctl_boost_bg_pct) 438 Proc_Dointvec_Minmax (Some (1, 4096)),
      ctl_entry ''boost_fg_pct'' (Some Ctl_boost_fg_pct) 438 Proc_Dointvec_Minmax (Some (1, 4096)),
      ctl_entry ''boost_rt_pct'' (Some Ctl_boost_rt_pct) 438 Proc_Dointvec_Minmax (Some (1, 4096)),
      ctl_entry ''slim_walt_policy'' (Some Ctl_window_stats_policy) 420 Proc_Dointvec_Minmax
        (Some (WINDOW_STATS_RECENT, WINDOW_STATS_INVALID_POLICY)),
      ctl_entry ''sched_ravg_window_frame_per_sec'' (Some Ctl_frame_per_sec) 420
        Proc_Sched_Ravg_Window_Update (Some (0, 2147483647)),
      ctl_entry ''lse_gov_debug'' (Some Ctl_gov_debug) 438 Proc_Dointvec None,
      ctl_entry ''scx_shadow_tick_enable'' (Some Ctl_highres_tick_ctrl) 438 Proc_Shadow_Tick_Update None,
      ctl_entry ''heartbeat_enable'' (Some Ctl_heartbeat_enable) 438 Proc_Monitor_Toggle_Update None,
      ctl_entry ''watchdog_enable'' (Some Ctl_watchdog_enable) 438 Proc_Monitor_Toggle_Update None,
      ctl_entry ''dsq_enable'' (Some Ctl_dsq_enable) 438 Proc_Dsq_Toggle_Update None,
      ctl_entry ''dsq_rescue_enable'' (Some Ctl_dsq_rescue_enable) 438 Proc_Dsq_Toggle_Update None,
      ctl_entry ''dsq_max_depth'' (Some Ctl_dsq_max_depth) 438 Proc_Dointvec_Minmax (Some (1, 4096)),
      ctl_entry ''highres_tick_ctrl_dbg'' (Some Ctl_highres_tick_ctrl_dbg) 438 Proc_Dointvec None]"

text \<open>The entries of the governor and the views of the queues, with the modes 0666, 0444 and 0200.\<close>

definition lse_table_governor :: "ctl_table list" where
  "lse_table_governor =
     [ctl_entry ''util_norm_enable'' (Some Ctl_util_norm_enable) 438 Proc_Dointvec_Minmax (Some (0, 1)),
      ctl_entry ''cluster_window_enable'' (Some Ctl_cluster_window_enable) 438 Proc_Dointvec_Minmax (Some (0, 1)),
      ctl_entry ''cluster_tl_dyn_enable'' (Some Ctl_cluster_tl_dyn_enable) 438 Proc_Dointvec_Minmax (Some (0, 1)),
      ctl_entry ''cluster_freq_cap_enable'' (Some Ctl_cluster_freq_cap_enable) 438 Proc_Dointvec_Minmax (Some (0, 1)),
      ctl_entry ''cluster_agg_mode'' (Some Ctl_cluster_agg_mode) 438 Proc_Dointvec_Minmax (Some (0, 1)),
      ctl_entry ''gov_legacy_formula_enable'' (Some Ctl_gov_legacy_formula_enable) 438 Proc_Dointvec_Minmax (Some (0, 1)),
      ctl_entry ''dsq_backlog'' None 292 Proc_Dsq_Dump None,
      ctl_entry ''dsq_urgency'' None 292 Proc_Dsq_Urgency None,
      ctl_entry ''dsq_dump'' None 128 Proc_Dsq_Dump None]"

definition lse_table :: "ctl_table list" where
  "lse_table = lse_table_tracking @ lse_table_governor"

lemmas lse_table_defs = lse_table_def lse_table_tracking_def lse_table_governor_def

section \<open>The variables\<close>

fun ctl_get :: "ctl_data \<Rightarrow> lse \<Rightarrow> int" where
  "ctl_get Ctl_slim_walt_ctrl s = slim_walt_ctrl s"
| "ctl_get Ctl_slim_stats s = slim_stats (sys_mon s)"
| "ctl_get Ctl_heartbeat s = heartbeat (sys_mon s)"
| "ctl_get Ctl_fg_prio_threshold s = lse_fg_prio_threshold (sys_walt s)"
| "ctl_get Ctl_boost_bg_pct s = lse_boost_bg_pct (sys_walt s)"
| "ctl_get Ctl_boost_fg_pct s = lse_boost_fg_pct (sys_walt s)"
| "ctl_get Ctl_boost_rt_pct s = lse_boost_rt_pct (sys_walt s)"
| "ctl_get Ctl_window_stats_policy s = sched_window_stats_policy (sys_walt s)"
| "ctl_get Ctl_frame_per_sec s = frame_per_sec s"
| "ctl_get Ctl_gov_debug s = sysctl_lse_gov_debug s"
| "ctl_get Ctl_highres_tick_ctrl s = uint (highres_tick_ctrl (sys_shadow s))"
| "ctl_get Ctl_heartbeat_enable s = heartbeat_enable (sys_mon s)"
| "ctl_get Ctl_watchdog_enable s = watchdog_enable (sys_mon s)"
| "ctl_get Ctl_dsq_enable s = lse_dsq_enable (sys_dsq s)"
| "ctl_get Ctl_dsq_rescue_enable s = lse_dsq_rescue_enable (sys_dsq s)"
| "ctl_get Ctl_dsq_max_depth s = lse_dsq_max_depth (sys_dsq s)"
| "ctl_get Ctl_highres_tick_ctrl_dbg s = sint (highres_tick_ctrl_dbg (sys_shadow s))"
| "ctl_get Ctl_util_norm_enable s = util_norm_enable (ctl (sys_gov s))"
| "ctl_get Ctl_cluster_window_enable s = cluster_window_enable (ctl (sys_gov s))"
| "ctl_get Ctl_cluster_tl_dyn_enable s = cluster_tl_dyn_enable (ctl (sys_gov s))"
| "ctl_get Ctl_cluster_freq_cap_enable s = cluster_freq_cap_enable (ctl (sys_gov s))"
| "ctl_get Ctl_cluster_agg_mode s = cluster_agg_mode (ctl (sys_gov s))"
| "ctl_get Ctl_gov_legacy_formula_enable s = gov_legacy_formula_enable (ctl (sys_gov s))"

definition upd_ctl :: "(gov_ctl \<Rightarrow> gov_ctl) \<Rightarrow> lse \<Rightarrow> lse" where
  "upd_ctl f s = s\<lparr>sys_gov := (sys_gov s)\<lparr>ctl := f (ctl (sys_gov s))\<rparr>\<rparr>"

fun ctl_set :: "ctl_data \<Rightarrow> int \<Rightarrow> lse \<Rightarrow> lse" where
  "ctl_set Ctl_slim_walt_ctrl v s = s\<lparr>slim_walt_ctrl := v\<rparr>"
| "ctl_set Ctl_slim_stats v s = s\<lparr>sys_mon := (sys_mon s)\<lparr>slim_stats := v\<rparr>\<rparr>"
| "ctl_set Ctl_heartbeat v s = s\<lparr>sys_mon := (sys_mon s)\<lparr>heartbeat := v\<rparr>\<rparr>"
| "ctl_set Ctl_fg_prio_threshold v s = s\<lparr>sys_walt := (sys_walt s)\<lparr>lse_fg_prio_threshold := v\<rparr>\<rparr>"
| "ctl_set Ctl_boost_bg_pct v s = s\<lparr>sys_walt := (sys_walt s)\<lparr>lse_boost_bg_pct := v\<rparr>\<rparr>"
| "ctl_set Ctl_boost_fg_pct v s = s\<lparr>sys_walt := (sys_walt s)\<lparr>lse_boost_fg_pct := v\<rparr>\<rparr>"
| "ctl_set Ctl_boost_rt_pct v s = s\<lparr>sys_walt := (sys_walt s)\<lparr>lse_boost_rt_pct := v\<rparr>\<rparr>"
| "ctl_set Ctl_window_stats_policy v s = s\<lparr>sys_walt := (sys_walt s)\<lparr>sched_window_stats_policy := v\<rparr>\<rparr>"
| "ctl_set Ctl_frame_per_sec v s = s\<lparr>frame_per_sec := v\<rparr>"
| "ctl_set Ctl_gov_debug v s = s\<lparr>sysctl_lse_gov_debug := v\<rparr>"
| "ctl_set Ctl_highres_tick_ctrl v s = s\<lparr>sys_shadow := (sys_shadow s)\<lparr>highres_tick_ctrl := word_of_int v\<rparr>\<rparr>"
| "ctl_set Ctl_heartbeat_enable v s = s\<lparr>sys_mon := (sys_mon s)\<lparr>heartbeat_enable := v\<rparr>\<rparr>"
| "ctl_set Ctl_watchdog_enable v s = s\<lparr>sys_mon := (sys_mon s)\<lparr>watchdog_enable := v\<rparr>\<rparr>"
| "ctl_set Ctl_dsq_enable v s = s\<lparr>sys_dsq := (sys_dsq s)\<lparr>lse_dsq_enable := v\<rparr>\<rparr>"
| "ctl_set Ctl_dsq_rescue_enable v s = s\<lparr>sys_dsq := (sys_dsq s)\<lparr>lse_dsq_rescue_enable := v\<rparr>\<rparr>"
| "ctl_set Ctl_dsq_max_depth v s = s\<lparr>sys_dsq := (sys_dsq s)\<lparr>lse_dsq_max_depth := v\<rparr>\<rparr>"
| "ctl_set Ctl_highres_tick_ctrl_dbg v s = s\<lparr>sys_shadow := (sys_shadow s)\<lparr>highres_tick_ctrl_dbg := word_of_int v\<rparr>\<rparr>"
| "ctl_set Ctl_util_norm_enable v s = upd_ctl (\<lambda>c. c\<lparr>util_norm_enable := v\<rparr>) s"
| "ctl_set Ctl_cluster_window_enable v s = upd_ctl (\<lambda>c. c\<lparr>cluster_window_enable := v\<rparr>) s"
| "ctl_set Ctl_cluster_tl_dyn_enable v s = upd_ctl (\<lambda>c. c\<lparr>cluster_tl_dyn_enable := v\<rparr>) s"
| "ctl_set Ctl_cluster_freq_cap_enable v s = upd_ctl (\<lambda>c. c\<lparr>cluster_freq_cap_enable := v\<rparr>) s"
| "ctl_set Ctl_cluster_agg_mode v s = upd_ctl (\<lambda>c. c\<lparr>cluster_agg_mode := v\<rparr>) s"
| "ctl_set Ctl_gov_legacy_formula_enable v s = upd_ctl (\<lambda>c. c\<lparr>gov_legacy_formula_enable := v\<rparr>) s"

section \<open>The handlers\<close>

text \<open>The kernel's functions on the user's text: \<open>Inl\<close> their error, \<open>Inr\<close> the value they store.\<close>

record proc_helpers =
  hp_dobool :: "string \<Rightarrow> int + int"
  hp_dointvec :: "string \<Rightarrow> int + int"
  hp_minmax :: "int \<times> int \<Rightarrow> string \<Rightarrow> int + int"

definition helpers_ok :: "proc_helpers \<Rightarrow> bool" where
  "helpers_ok h \<longleftrightarrow> (\<forall>b v. hp_dobool h b = Inr v \<longrightarrow> v \<in> {0, 1}) \<and>
     (\<forall>b v. hp_dointvec h b = Inr v \<longrightarrow> - (2 ^ 31) \<le> v \<and> v < 2 ^ 31) \<and>
     (\<forall>r b v. hp_minmax h r b = Inr v \<longrightarrow> fst r \<le> v \<and> v \<le> snd r)"

record ctl_env =
  ce_jiffies :: u64
  ce_here :: nat
  ce_cpu_rq :: "nat \<Rightarrow> rq"

definition EPERM :: int where "EPERM = 1"

text \<open>The handler tests nothing of \<open>extra1\<close> and \<open>extra2\<close>.\<close>

definition lse_proc_sched_ravg_window_update ::
  "bool \<Rightarrow> int + int \<Rightarrow> lse \<Rightarrow> fault + (int \<times> lse)" where
  "lse_proc_sched_ravg_window_update write io s =
     (case io of
        Inl ret \<Rightarrow> Inr (ret, s)
      | Inr val \<Rightarrow>
          if \<not> write \<or> val = frame_per_sec s then Inr (0, s)
          else
            let s = s\<lparr>frame_per_sec := val\<rparr>
            in ebind (sched_ravg_window_change (frame_per_sec s) (sys_walt s)) (\<lambda>w.
               Inr (0, s\<lparr>sys_walt := w\<rparr>)))"

text \<open>The value is what a read shows; a write prints the dump.\<close>

definition lse_proc_dsq_dump ::
  "kernel \<Rightarrow> nat \<Rightarrow> bool \<Rightarrow> int + int \<Rightarrow> dsq \<Rightarrow> int \<times> int \<times> dsq_dump_line list" where
  "lse_proc_dsq_dump k this_cpu write io d =
     (if write
      then (case io of Inl ret \<Rightarrow> (ret, 0, []) | Inr val \<Rightarrow> (0, val, lse_dsq_dump_state k this_cpu d))
      else (0, lse_dsq_total_backlog k d, []))"

definition lse_proc_dsq_urgency :: "bool \<Rightarrow> dsq \<Rightarrow> int \<times> u32" where
  "lse_proc_dsq_urgency write d = (if write then (- EPERM, 0) else (0, lse_dsq_urgency_signal d))"

text \<open>What the kernel's function leaves in the handler's variable for the entry.\<close>

definition ctl_io :: "proc_helpers \<Rightarrow> ctl_table \<Rightarrow> string \<Rightarrow> int + int" where
  "ctl_io h tb buf =
     (case ctl_handler tb of
        Proc_Dobool \<Rightarrow> hp_dobool h buf
      | Proc_Shadow_Tick_Update \<Rightarrow> hp_dobool h buf
      | Proc_Dointvec_Minmax \<Rightarrow>
          (case ctl_range tb of None \<Rightarrow> hp_dointvec h buf | Some r \<Rightarrow> hp_minmax h r buf)
      | _ \<Rightarrow> hp_dointvec h buf)"

definition sysctl_store :: "ctl_table \<Rightarrow> int + int \<Rightarrow> lse \<Rightarrow> int \<times> lse" where
  "sysctl_store tb io s =
     (case io of Inl ret \<Rightarrow> (ret, s)
      | Inr v \<Rightarrow> (0, case ctl_var tb of None \<Rightarrow> s | Some d \<Rightarrow> ctl_set d v s))"

text \<open>A write to an entry: \<open>table->proc_handler(table, 1, buf, ...)\<close>.\<close>

definition sysctl_write ::
  "kernel \<Rightarrow> ctl_env \<Rightarrow> proc_helpers \<Rightarrow> ctl_table \<Rightarrow> string \<Rightarrow> lse \<Rightarrow> fault + (int \<times> lse)" where
  "sysctl_write k ce h tb buf s =
     (let io = ctl_io h tb buf in
      case ctl_handler tb of
        Proc_Dobool \<Rightarrow> Inr (sysctl_store tb io s)
      | Proc_Dointvec \<Rightarrow> Inr (sysctl_store tb io s)
      | Proc_Dointvec_Minmax \<Rightarrow> Inr (sysctl_store tb io s)
      | Proc_Shadow_Tick_Update \<Rightarrow>
          (let (ret, sh) = lse_proc_shadow_tick_update k (ce_cpu_rq ce) (ce_here ce) True
                 (map_sum id word_of_int io) (sys_shadow s)
           in Inr (ret, s\<lparr>sys_shadow := sh\<rparr>))
      | Proc_Sched_Ravg_Window_Update \<Rightarrow> lse_proc_sched_ravg_window_update True io s
      | Proc_Monitor_Toggle_Update \<Rightarrow>
          (let t = (if ctl_var tb = Some Ctl_heartbeat_enable then Toggle_Heartbeat_Enable else Toggle_Watchdog_Enable);
               (ret, m) = lse_proc_monitor_toggle_update k (ce_jiffies ce) t True io (sys_mon s)
           in Inr (ret, s\<lparr>sys_mon := m\<rparr>))
      | Proc_Dsq_Toggle_Update \<Rightarrow>
          (let t = (if ctl_var tb = Some Ctl_dsq_enable then Toggle_Dsq_Enable else Toggle_Dsq_Rescue);
               (ret, L, d) = lse_proc_dsq_toggle_update k t True io (sys_lts s, sys_dsq s)
           in Inr (ret, s\<lparr>sys_lts := L, sys_dsq := d\<rparr>))
      | Proc_Dsq_Dump \<Rightarrow> Inr (fst (lse_proc_dsq_dump k (ce_here ce) True io (sys_dsq s)), s)
      | Proc_Dsq_Urgency \<Rightarrow> Inr (fst (lse_proc_dsq_urgency True (sys_dsq s)), s))"

text \<open>A read of an entry: the value shown.\<close>

definition sysctl_read :: "kernel \<Rightarrow> ctl_env \<Rightarrow> ctl_table \<Rightarrow> lse \<Rightarrow> int" where
  "sysctl_read k ce tb s =
     (case ctl_handler tb of
        Proc_Dsq_Dump \<Rightarrow> fst (snd (lse_proc_dsq_dump k (ce_here ce) False (Inr 0) (sys_dsq s)))
      | Proc_Dsq_Urgency \<Rightarrow> uint (snd (lse_proc_dsq_urgency False (sys_dsq s)))
      | _ \<Rightarrow> (case ctl_var tb of None \<Rightarrow> 0 | Some d \<Rightarrow> ctl_get d s))"

section \<open>What a write changes\<close>

text \<open>The values a variable can hold: an \<open>unsigned\<close> one is set from a Boolean or a signed integer.\<close>

definition ctl_fits :: "ctl_data \<Rightarrow> int \<Rightarrow> bool" where
  "ctl_fits d v \<longleftrightarrow> (if d = Ctl_highres_tick_ctrl then 0 \<le> v \<and> v < 2 ^ 32 else - (2 ^ 31) \<le> v \<and> v < 2 ^ 31)"

lemma ctl_get_set:
  assumes "ctl_fits a v" shows "ctl_get b (ctl_set a v s) = (if b = a then v else ctl_get b s)"
proof -
  have "a = Ctl_highres_tick_ctrl \<Longrightarrow> uint (word_of_int v :: u32) = v"
    using assms by (simp add: ctl_fits_def uint_word_of_int)
  moreover have "a = Ctl_highres_tick_ctrl_dbg \<Longrightarrow> sint (word_of_int v :: u32) = v"
  proof -
    assume "a = Ctl_highres_tick_ctrl_dbg"
    then have "signed_take_bit 31 v = v" using assms by (intro signed_take_bit_int_eq_self) (simp_all add: ctl_fits_def)
    moreover have "sint (word_of_int v :: u32) = signed_take_bit 31 v" by transfer simp
    ultimately show ?thesis by simp
  qed
  ultimately show ?thesis by (cases a; cases b; simp add: upd_ctl_def)
qed

lemma monitor_sync_ctl [simp]:
  "heartbeat_enable (lse_monitor_sync k j m) = heartbeat_enable m"
  "watchdog_enable (lse_monitor_sync k j m) = watchdog_enable m"
  "slim_stats (lse_monitor_sync k j m) = slim_stats m" "heartbeat (lse_monitor_sync k j m) = heartbeat m"
  by (simp_all add: lse_monitor_sync_def mod_heartbeat_timer_def queue_watchdog_work_def Let_def)

lemma shadow_cpu_ctl:
  "highres_tick_ctrl (lse_shadow_tick_update_cpu here rq s) = highres_tick_ctrl s"
  "highres_tick_ctrl_dbg (lse_shadow_tick_update_cpu here rq s) = highres_tick_ctrl_dbg s"
  by (simp_all add: lse_shadow_tick_update_cpu_def lse_shadow_tick_start_cpu_def lse_shadow_tick_stop_cpu_def
      set_shadow_def Let_def)

lemma shadow_sync_ctl [simp]:
  "highres_tick_ctrl (lse_shadow_tick_sync_all k cpu_rq here s) = highres_tick_ctrl s"
  "highres_tick_ctrl_dbg (lse_shadow_tick_sync_all k cpu_rq here s) = highres_tick_ctrl_dbg s"
proof -
  have "highres_tick_ctrl (fold (\<lambda>cpu. lse_shadow_tick_update_cpu here (cpu_rq cpu)) cpus s) = highres_tick_ctrl s \<and>
    highres_tick_ctrl_dbg (fold (\<lambda>cpu. lse_shadow_tick_update_cpu here (cpu_rq cpu)) cpus s) = highres_tick_ctrl_dbg s" for cpus
    by (induction cpus arbitrary: s) (simp_all add: shadow_cpu_ctl)
  then show "highres_tick_ctrl (lse_shadow_tick_sync_all k cpu_rq here s) = highres_tick_ctrl s"
    "highres_tick_ctrl_dbg (lse_shadow_tick_sync_all k cpu_rq here s) = highres_tick_ctrl_dbg s"
    by (simp_all add: lse_shadow_tick_sync_all_def)
qed

definition dsq_tunables :: "dsq \<Rightarrow> int \<times> int \<times> int" where
  "dsq_tunables d = (lse_dsq_enable d, lse_dsq_rescue_enable d, lse_dsq_max_depth d)"

lemma drain_tunables: "dsq_tunables (snd (drain_dsq i s)) = dsq_tunables (snd s)"
  by (simp add: drain_dsq_def dsq_tunables_def dsq_upd_def split: prod.split)

lemma drain_fold_tunables: "dsq_tunables (snd (fold drain_dsq is s)) = dsq_tunables (snd s)"
  by (induction "is" arbitrary: s) (simp_all add: drain_tunables)


lemma dsq_sync_tunables: "dsq_tunables (snd (lse_dsq_sync k s)) = dsq_tunables (snd s)"
proof -
  have pcp: "dsq_tunables (snd (fold (\<lambda>cpu. drain_dsq (LSE_DSQ_PCP_BASE + cpu)) cpus s)) = dsq_tunables (snd s)" for cpus s
    by (induction cpus arbitrary: s) (simp_all add: drain_tunables)
  have "dsq_tunables (reset_pcp_info cpus d) = dsq_tunables d" for cpus d
    unfolding reset_pcp_info_def by (induction cpus arbitrary: d) (simp_all add: dsq_tunables_def)
  moreover have "dsq_tunables (d\<lparr>lse_dsq_sinfo := i\<rparr>) = dsq_tunables d" for d i by (simp add: dsq_tunables_def)
  ultimately show ?thesis
    by (simp add: lse_dsq_sync_def Let_def reset_rounds_def pcp drain_fold_tunables)
qed

lemma dsq_sync_ctl [simp]:
  "lse_dsq_enable (snd (lse_dsq_sync k s)) = lse_dsq_enable (snd s)"
  "lse_dsq_rescue_enable (snd (lse_dsq_sync k s)) = lse_dsq_rescue_enable (snd s)"
  "lse_dsq_max_depth (snd (lse_dsq_sync k s)) = lse_dsq_max_depth (snd s)"
  using dsq_sync_tunables [of k s] by (simp_all add: dsq_tunables_def)

text \<open>Which variable an entry of the table has, by its handler.\<close>

definition entry_ok :: "ctl_table \<Rightarrow> bool" where
  "entry_ok tb \<longleftrightarrow>
     (case ctl_handler tb of
        Proc_Dobool \<Rightarrow> ctl_var tb = Some Ctl_slim_walt_ctrl
      | Proc_Dointvec \<Rightarrow> ctl_var tb \<noteq> None \<and> ctl_var tb \<noteq> Some Ctl_highres_tick_ctrl
      | Proc_Dointvec_Minmax \<Rightarrow> ctl_var tb \<noteq> None \<and> ctl_var tb \<noteq> Some Ctl_highres_tick_ctrl \<and>
          (case ctl_range tb of None \<Rightarrow> False | Some r \<Rightarrow> 0 \<le> fst r \<and> snd r < 2 ^ 31)
      | Proc_Shadow_Tick_Update \<Rightarrow> ctl_var tb = Some Ctl_highres_tick_ctrl
      | Proc_Sched_Ravg_Window_Update \<Rightarrow> ctl_var tb = Some Ctl_frame_per_sec
      | Proc_Monitor_Toggle_Update \<Rightarrow> ctl_var tb = Some Ctl_heartbeat_enable \<or> ctl_var tb = Some Ctl_watchdog_enable
      | Proc_Dsq_Toggle_Update \<Rightarrow> ctl_var tb = Some Ctl_dsq_enable \<or> ctl_var tb = Some Ctl_dsq_rescue_enable
      | Proc_Dsq_Dump \<Rightarrow> ctl_var tb = None
      | Proc_Dsq_Urgency \<Rightarrow> ctl_var tb = None)"

lemma table_entry_ok: "tb \<in> set lse_table \<Longrightarrow> entry_ok tb"
proof -
  have "list_all entry_ok lse_table"
    by (simp add: lse_table_defs ctl_entry_def entry_ok_def WINDOW_STATS_RECENT_def WINDOW_STATS_INVALID_POLICY_def)
  then show "tb \<in> set lse_table \<Longrightarrow> entry_ok tb" by (simp add: list_all_iff)
qed

lemma helpers_values:
  assumes "helpers_ok h"
  shows "hp_dobool h b = Inr v \<Longrightarrow> v = 0 \<or> v = 1" "hp_dointvec h b = Inr v \<Longrightarrow> - (2 ^ 31) \<le> v \<and> v < 2 ^ 31"
    "hp_minmax h r b = Inr v \<Longrightarrow> fst r \<le> v \<and> v \<le> snd r"
  using assms unfolding helpers_ok_def by blast+

lemma ctl_io_fits:
  assumes tb: "entry_ok tb" and h: "helpers_ok h" and io: "ctl_io h tb buf = Inr v" and d: "ctl_var tb = Some d"
  shows "ctl_fits d v"
  using tb io d helpers_values(1,2) [OF h, of buf v] helpers_values(3) [where r = "the (ctl_range tb)" and b = buf and v = v, OF h]
  by (cases "ctl_handler tb") (auto simp: entry_ok_def ctl_io_def ctl_fits_def split: option.splits)

lemmas sysctl_handlers = sysctl_write_def sysctl_store_def lse_proc_shadow_tick_update_def Let_def
  lse_proc_sched_ravg_window_update_def lse_proc_monitor_toggle_update_def lse_proc_dsq_toggle_update_def
  lse_proc_dsq_dump_def lse_proc_dsq_urgency_def

text \<open>What each entry's write does, in one statement: on an error nothing; otherwise the entry's variable,
  and no other, has the value.\<close>

lemma sysctl_write_error:
  assumes "sysctl_write k ce h tb buf s = Inr (r, s')" "ctl_io h tb buf = Inl e"
  shows "s' = s \<and> (r = e \<or> r = - EPERM)"
  using assms by (cases "ctl_handler tb") (auto simp: sysctl_handlers)

lemma sysctl_write_value:
  assumes tb: "entry_ok tb" and h: "helpers_ok h" and run: "sysctl_write k ce h tb buf s = Inr (r, s')"
    and io: "ctl_io h tb buf = Inr v"
  shows "ctl_get d s' = (if ctl_var tb = Some d then v else ctl_get d s)"
proof -
  have fits: "ctl_var tb = Some a \<Longrightarrow> ctl_fits a v" for a by (rule ctl_io_fits [OF tb h io])
  show ?thesis
  proof (cases "ctl_handler tb")
    case Proc_Dobool
    then show ?thesis using run io tb fits by (auto simp: sysctl_handlers entry_ok_def ctl_get_set simp del: ctl_set.simps ctl_get.simps)
  next
    case Proc_Dointvec
    then show ?thesis using run io tb fits by (auto simp: sysctl_handlers entry_ok_def ctl_get_set split: option.splits simp del: ctl_set.simps ctl_get.simps)
  next
    case Proc_Dointvec_Minmax
    then show ?thesis using run io tb fits by (auto simp: sysctl_handlers entry_ok_def ctl_get_set split: option.splits simp del: ctl_set.simps ctl_get.simps)
  next
    case Proc_Shadow_Tick_Update
    have "highres_tick_ctrl (sys_shadow s') = word_of_int v"
      using Proc_Shadow_Tick_Update run io by (auto simp: sysctl_handlers split: if_splits)
    moreover have "uint (word_of_int v :: u32) = v"
      using fits [of Ctl_highres_tick_ctrl] tb Proc_Shadow_Tick_Update
      by (simp add: entry_ok_def ctl_fits_def uint_word_of_int)
    ultimately have "d = Ctl_highres_tick_ctrl \<Longrightarrow> ctl_get d s' = v" by simp
    moreover have "d \<noteq> Ctl_highres_tick_ctrl \<Longrightarrow> ctl_get d s' = ctl_get d s"
      using Proc_Shadow_Tick_Update run io by (cases d) (auto simp: sysctl_handlers split: if_splits)
    ultimately show ?thesis using tb Proc_Shadow_Tick_Update by (auto simp: entry_ok_def)
  next
    case Proc_Sched_Ravg_Window_Update
    then show ?thesis using run io tb
      by (cases d) (auto simp: sysctl_handlers entry_ok_def ebind_eq_Inr sched_ravg_window_change_def split: if_splits)
  next
    case Proc_Monitor_Toggle_Update
    then show ?thesis using run io tb
      by (cases d) (auto simp: sysctl_handlers entry_ok_def split: if_splits)
  next
    case Proc_Dsq_Toggle_Update
    then show ?thesis using run io tb
      by (cases d) (auto simp: sysctl_handlers entry_ok_def case_prod_unfold split: if_splits)
  next
    case Proc_Dsq_Dump
    then show ?thesis using run io tb by (auto simp: sysctl_handlers entry_ok_def)
  next
    case Proc_Dsq_Urgency
    then show ?thesis using run io tb by (auto simp: sysctl_handlers entry_ok_def)
  qed
qed


section \<open>Ranges\<close>

definition ranged_vars :: "(ctl_data \<times> int \<times> int) list" where
  "ranged_vars =
     [(Ctl_slim_walt_ctrl, 0, 1), (Ctl_highres_tick_ctrl, 0, 1), (Ctl_fg_prio_threshold, 0, 139),
      (Ctl_boost_bg_pct, 1, 4096), (Ctl_boost_fg_pct, 1, 4096), (Ctl_boost_rt_pct, 1, 4096),
      (Ctl_window_stats_policy, 0, 4), (Ctl_dsq_max_depth, 1, 4096), (Ctl_util_norm_enable, 0, 1),
      (Ctl_cluster_window_enable, 0, 1), (Ctl_cluster_tl_dyn_enable, 0, 1), (Ctl_cluster_freq_cap_enable, 0, 1),
      (Ctl_cluster_agg_mode, 0, 1), (Ctl_gov_legacy_formula_enable, 0, 1)]"

definition sysctl_ranges :: "lse \<Rightarrow> bool" where
  "sysctl_ranges s \<longleftrightarrow> (\<forall>(d, lo, hi) \<in> set ranged_vars. lo \<le> ctl_get d s \<and> ctl_get d s \<le> hi)"

definition ranged_entry :: "ctl_table \<Rightarrow> bool" where
  "ranged_entry tb \<longleftrightarrow> list_all (\<lambda>(d, lo, hi). ctl_var tb \<noteq> Some d \<or>
     (ctl_handler tb = Proc_Dobool \<or> ctl_handler tb = Proc_Shadow_Tick_Update) \<and> lo = 0 \<and> hi = 1 \<or>
     ctl_handler tb = Proc_Dointvec_Minmax \<and> ctl_range tb = Some (lo, hi)) ranged_vars"

lemma table_ranged: "tb \<in> set lse_table \<Longrightarrow> ranged_entry tb"
proof -
  have "list_all ranged_entry lse_table"
    by (simp add: lse_table_defs ctl_entry_def ranged_entry_def ranged_vars_def WINDOW_STATS_RECENT_def
        WINDOW_STATS_INVALID_POLICY_def)
  then show "tb \<in> set lse_table \<Longrightarrow> ranged_entry tb" by (simp add: list_all_iff)
qed

lemma ctl_io_range:
  assumes "tb \<in> set lse_table" "helpers_ok h" "ctl_io h tb buf = Inr v" "ctl_var tb = Some d" "(d, lo, hi) \<in> set ranged_vars"
  shows "lo \<le> v \<and> v \<le> hi"
proof -
  have "(ctl_handler tb = Proc_Dobool \<or> ctl_handler tb = Proc_Shadow_Tick_Update) \<and> lo = 0 \<and> hi = 1 \<or>
     ctl_handler tb = Proc_Dointvec_Minmax \<and> ctl_range tb = Some (lo, hi)"
    using table_ranged [OF assms(1)] assms(4,5) unfolding ranged_entry_def list_all_iff by fastforce
  then show ?thesis
    using assms(3) helpers_values(1) [OF assms(2), of buf v]
      helpers_values(3) [where r = "(lo, hi)" and b = buf and v = v, OF assms(2)]
    by (auto simp: ctl_io_def)
qed

lemma sysctl_write_ranges:
  assumes "tb \<in> set lse_table" "helpers_ok h" "sysctl_write k ce h tb buf s = Inr (r, s')" "sysctl_ranges s"
  shows "sysctl_ranges s'"
proof (cases "ctl_io h tb buf")
  case (Inl e)
  then show ?thesis using sysctl_write_error [OF assms(3)] assms(4) by simp
next
  case (Inr v)
  have "lo \<le> ctl_get d s' \<and> ctl_get d s' \<le> hi" if d: "(d, lo, hi) \<in> set ranged_vars" for d lo hi
  proof (cases "ctl_var tb = Some d")
    case True
    then show ?thesis
      using sysctl_write_value [OF table_entry_ok [OF assms(1)] assms(2,3) Inr, of d]
        ctl_io_range [OF assms(1,2) Inr _ d] by simp
  next
    case False
    then show ?thesis
      using sysctl_write_value [OF table_entry_ok [OF assms(1)] assms(2,3) Inr, of d] assms(4) d
      by (auto simp: sysctl_ranges_def)
  qed
  then show ?thesis by (auto simp: sysctl_ranges_def)
qed

text \<open>A history of writes, each with the kernel's answers of its moment.\<close>

definition sysctl_writes ::
  "kernel \<Rightarrow> proc_helpers \<Rightarrow> (ctl_env \<times> ctl_table \<times> string) list \<Rightarrow> lse \<Rightarrow> fault + lse" where
  "sysctl_writes k h ws s =
     efold (\<lambda>(ce, tb, buf) s. ebind (sysctl_write k ce h tb buf s) (\<lambda>(r, s). Inr s)) ws s"

lemma sysctl_writes_ranges:
  assumes "helpers_ok h" "sysctl_ranges s" "\<forall>(ce, tb, buf) \<in> set ws. tb \<in> set lse_table"
    "sysctl_writes k h ws s = Inr s'"
  shows "sysctl_ranges s'"
  using assms(2-4) unfolding sysctl_writes_def
proof (induction ws arbitrary: s)
  case (Cons w ws)
  obtain ce tb buf where w: "w = (ce, tb, buf)" by (cases w)
  obtain r s1 where s1: "sysctl_write k ce h tb buf s = Inr (r, s1)"
    "efold (\<lambda>(ce, tb, buf) s. ebind (sysctl_write k ce h tb buf s) (\<lambda>(r, s). Inr s)) ws s1 = Inr s'"
    using Cons.prems(3) by (auto simp: w ebind_eq_Inr)
  have tb: "tb \<in> set lse_table" and ws: "\<forall>(ce, tb, buf) \<in> set ws. tb \<in> set lse_table"
    using Cons.prems(2) by (auto simp: w)
  show ?case by (rule Cons.IH [OF sysctl_write_ranges [OF tb assms(1) s1(1) Cons.prems(1)] ws s1(2)])
qed simp

lemma table_vars_distinct:
  assumes "tb \<in> set lse_table" "tb' \<in> set lse_table" "ctl_var tb = ctl_var tb'" "ctl_var tb \<noteq> None"
  shows "tb = tb'"
proof -
  have "distinct (map ctl_var (filter (\<lambda>tb. ctl_var tb \<noteq> None) lse_table))"
    by (simp add: lse_table_defs ctl_entry_def)
  then have "inj_on ctl_var (set (filter (\<lambda>tb. ctl_var tb \<noteq> None) lse_table))" by (simp add: distinct_map)
  then show ?thesis by (rule inj_onD) (use assms in auto)
qed

lemma sysctl_write_ret:
  assumes "entry_ok tb" "ctl_var tb \<noteq> None" "sysctl_write k ce h tb buf s = Inr (r, s')" "ctl_io h tb buf = Inr v"
  shows "r = 0"
  using assms by (cases "ctl_handler tb") (auto simp: sysctl_handlers entry_ok_def case_prod_unfold ebind_eq_Inr split: if_splits)

lemma sysctl_read_var:
  assumes "entry_ok tb" "ctl_var tb = Some d" shows "sysctl_read k ce tb s = ctl_get d s"
  using assms by (cases "ctl_handler tb") (auto simp: sysctl_read_def entry_ok_def)

lemma sysctl_write_fault:
  "sysctl_write k ce h tb buf s = Inl f \<longleftrightarrow>
     f = Div_By_Zero \<and> ctl_handler tb = Proc_Sched_Ravg_Window_Update \<and> hp_dointvec h buf = Inr 0 \<and> frame_per_sec s \<noteq> 0"
proof (cases "ctl_handler tb")
  case Proc_Sched_Ravg_Window_Update
  then show ?thesis
    by (cases "hp_dointvec h buf") (auto simp: sysctl_handlers ctl_io_def sched_ravg_window_change_def)
qed (auto simp: sysctl_handlers case_prod_unfold)

section \<open>Properties\<close>

text \<open>C20: The value a write stores is what the next read of the entry shows, and no other variable of the
  table changes: whatever the handler does besides (starting timers, emptying queues), the sysctls
  are independent.\<close>

theorem sysctl_write_read:
  assumes "tb \<in> set lse_table" "helpers_ok h" "ctl_var tb \<noteq> None"
    and "sysctl_write k ce h tb buf s = Inr (r, s')" "ctl_io h tb buf = Inr v"
    and "tb' \<in> set lse_table" "ctl_var tb' \<noteq> None"
  shows "r = 0 \<and> sysctl_read k ce' tb' s' = (if tb' = tb then v else sysctl_read k ce' tb' s)"
proof -
  obtain d where d: "ctl_var tb' = Some d" using assms(7) by blast
  have "ctl_get d s' = (if ctl_var tb = Some d then v else ctl_get d s)"
    by (rule sysctl_write_value [OF table_entry_ok [OF assms(1)] assms(2,4,5)])
  moreover have "ctl_var tb = Some d \<longleftrightarrow> tb' = tb"
    using table_vars_distinct [OF assms(1,6)] d by auto
  ultimately show ?thesis
    using sysctl_read_var [OF table_entry_ok [OF assms(6)] d]
      sysctl_write_ret [OF table_entry_ok [OF assms(1)] assms(3-5)] by simp
qed

definition demo_helpers :: proc_helpers where
  "demo_helpers =
     \<lparr>hp_dobool = (\<lambda>b. if b = ''0'' then Inr 0 else if b = ''1'' then Inr 1 else Inl (- 22)),
      hp_dointvec = (\<lambda>b. case read_int b of None \<Rightarrow> Inl (- 22)
         | Some v \<Rightarrow> if - (2 ^ 31) \<le> v \<and> v < 2 ^ 31 then Inr v else Inl (- 22)),
      hp_minmax = (\<lambda>r b. case read_int b of None \<Rightarrow> Inl (- 22)
         | Some v \<Rightarrow> if fst r \<le> v \<and> v \<le> snd r then Inr v else Inl (- 22))\<rparr>"

lemma demo_helpers_ok: "helpers_ok demo_helpers"
  by (auto simp: helpers_ok_def demo_helpers_def split: option.splits if_splits)

definition demo_env_ctl :: ctl_env where
  "demo_env_ctl = \<lparr>ce_jiffies = 1000, ce_here = 0, ce_cpu_rq = (\<lambda>cpu. demo_rq cpu 0)\<rparr>"

lemma demo_dointvec: "- (2 ^ 31) \<le> v \<Longrightarrow> v < 2 ^ 31 \<Longrightarrow> hp_dointvec demo_helpers (dec_int v) = Inr v"
  by (simp add: demo_helpers_def read_dec_int)

definition demo_heartbeat :: ctl_table where
  "demo_heartbeat = ctl_entry ''heartbeat_enable'' (Some Ctl_heartbeat_enable) 438 Proc_Monitor_Toggle_Update None"

lemma demo_heartbeat_entry: "demo_heartbeat \<in> set lse_table" "ctl_var demo_heartbeat \<noteq> None"
  by (simp_all add: demo_heartbeat_def lse_table_defs) (simp add: ctl_entry_def)

lemma demo_heartbeat_write:
  "ctl_io demo_helpers demo_heartbeat (dec_int 1) = Inr 1"
  "\<exists>r s'. sysctl_write demo_kernel demo_env_ctl demo_helpers demo_heartbeat (dec_int 1) demo_module = Inr (r, s')"
  using demo_dointvec [of 1]
  by (simp_all add: ctl_io_def sysctl_write_def demo_heartbeat_def ctl_entry_def case_prod_unfold Let_def)

theorem sysctl_write_read_witness:
  "\<exists>r s'. sysctl_write demo_kernel demo_env_ctl demo_helpers demo_heartbeat (dec_int 1) demo_module = Inr (r, s') \<and>
     sysctl_read demo_kernel demo_env_ctl demo_heartbeat s' = 1"
proof -
  obtain r s' where run: "sysctl_write demo_kernel demo_env_ctl demo_helpers demo_heartbeat (dec_int 1) demo_module = Inr (r, s')"
    using demo_heartbeat_write(2) by blast
  then show ?thesis
    using sysctl_write_read [OF demo_heartbeat_entry(1) demo_helpers_ok demo_heartbeat_entry(2) run
        demo_heartbeat_write(1) demo_heartbeat_entry] by auto
qed

lemma declared_ranged:
  "tb \<in> set lse_table \<Longrightarrow> ctl_range tb = Some (lo, hi) \<Longrightarrow> ctl_var tb = Some d \<Longrightarrow> d \<noteq> Ctl_frame_per_sec \<Longrightarrow>
   (d, lo, hi) \<in> set ranged_vars"
proof -
  have "list_all (\<lambda>tb. \<forall>lo hi d. ctl_range tb = Some (lo, hi) \<longrightarrow> ctl_var tb = Some d \<longrightarrow> d \<noteq> Ctl_frame_per_sec \<longrightarrow>
      (d, lo, hi) \<in> set ranged_vars) lse_table"
    by (simp add: lse_table_defs ctl_entry_def ranged_vars_def WINDOW_STATS_RECENT_def WINDOW_STATS_INVALID_POLICY_def)
  then show "tb \<in> set lse_table \<Longrightarrow> ctl_range tb = Some (lo, hi) \<Longrightarrow> ctl_var tb = Some d \<Longrightarrow> d \<noteq> Ctl_frame_per_sec \<Longrightarrow>
      (d, lo, hi) \<in> set ranged_vars" by (simp add: list_all_iff)
qed

text \<open>C30: From values in their ranges no sequence of writes takes a variable out of the range that its
  entry declares, when the kernel's helpers check as documented, with one exception: \<open>sched_ravg_window_frame_per_sec\<close>, whose handler ignores the declared range (the next
  property).  So the boosts stay within 1 and 4096, the foreground threshold is a priority, and the
  switches of the governor are 0 or 1; so do \<open>slim_walt_ctrl\<close> and the switch of the shadow tick, which
  declare no range but are read as Booleans.\<close>

theorem sysctl_ranges_kept:
  assumes "helpers_ok h" "sysctl_ranges s" "\<forall>(ce, tb, buf) \<in> set ws. tb \<in> set lse_table"
    and "sysctl_writes k h ws s = Inr s'"
  shows "(\<forall>tb \<in> set lse_table. \<forall>lo hi d. ctl_range tb = Some (lo, hi) \<and> ctl_var tb = Some d \<and> d \<noteq> Ctl_frame_per_sec \<longrightarrow>
      lo \<le> ctl_get d s' \<and> ctl_get d s' \<le> hi) \<and>
    (\<forall>(d, lo, hi) \<in> set ranged_vars. lo \<le> ctl_get d s' \<and> ctl_get d s' \<le> hi)"
proof -
  have "sysctl_ranges s'" using sysctl_writes_ranges [OF assms] .
  then have "\<forall>(d, lo, hi) \<in> set ranged_vars. lo \<le> ctl_get d s' \<and> ctl_get d s' \<le> hi" by (simp add: sysctl_ranges_def)
  then show ?thesis using declared_ranged by fast
qed

lemma demo_module_ranges: "sysctl_ranges demo_module"
  by (simp add: sysctl_ranges_def ranged_vars_def demo_module_def boot_lse_def boot_dsq_def boot_shadow_def
      init_walt_def DEFAULT_PRIO_def demo_gov_def demo_ctl_def)

theorem sysctl_ranges_kept_witness:
  "\<exists>s'. sysctl_writes demo_kernel demo_helpers [(demo_env_ctl, demo_heartbeat, dec_int 1)] demo_module = Inr s' \<and>
     1 \<le> ctl_get Ctl_boost_rt_pct s' \<and> ctl_get Ctl_boost_rt_pct s' \<le> 4096"
proof -
  let ?ws = "[(demo_env_ctl, demo_heartbeat, dec_int 1)]"
  have ws: "\<forall>(ce, tb, buf) \<in> set ?ws. tb \<in> set lse_table" using demo_heartbeat_entry by simp
  have var: "(Ctl_boost_rt_pct, 1, 4096) \<in> set ranged_vars" by (simp add: ranged_vars_def)
  obtain s' where run: "sysctl_writes demo_kernel demo_helpers ?ws demo_module = Inr s'"
    using demo_heartbeat_write(2) by (auto simp: sysctl_writes_def)
  from sysctl_ranges_kept [OF demo_helpers_ok demo_module_ranges ws run] var run show ?thesis by fast
qed

text \<open>C31: The only write that can crash the kernel is a 0 to \<open>sched_ravg_window_frame_per_sec\<close>: the entry
  declares the range 0 to \<open>INT_MAX\<close>, but its handler does not look at it and divides by what was
  written.  A negative number is stored, and leaves a window size that is the bits of a negative
  quotient.\<close>

theorem frame_per_sec_unchecked:
  assumes "tb \<in> set lse_table"
  shows "(sysctl_write k ce h tb buf s = Inl f \<longleftrightarrow>
      f = Div_By_Zero \<and> ctl_var tb = Some Ctl_frame_per_sec \<and> hp_dointvec h buf = Inr 0 \<and> frame_per_sec s \<noteq> 0) \<and>
    (ctl_var tb = Some Ctl_frame_per_sec \<longrightarrow> hp_dointvec h buf = Inr v \<longrightarrow> v < 0 \<longrightarrow> v \<noteq> frame_per_sec s \<longrightarrow>
      sysctl_write k ce h tb buf s = Inr (0, s\<lparr>frame_per_sec := v, sys_walt := (sys_walt s)
        \<lparr>new_lse_sched_ravg_window := word_of_int (cdiv NSEC_PER_SEC v)\<rparr>\<rparr>))"
proof -
  have h: "ctl_handler tb = Proc_Sched_Ravg_Window_Update \<longleftrightarrow> ctl_var tb = Some Ctl_frame_per_sec"
  proof -
    have "list_all (\<lambda>tb. ctl_handler tb = Proc_Sched_Ravg_Window_Update \<longleftrightarrow> ctl_var tb = Some Ctl_frame_per_sec) lse_table"
      by (simp add: lse_table_defs ctl_entry_def)
    then show ?thesis using assms by (simp add: list_all_iff)
  qed
  show ?thesis
    unfolding sysctl_write_fault h [symmetric]
    by (auto simp: sysctl_handlers ctl_io_def sched_ravg_window_change_def)
qed

definition demo_frame :: ctl_table where
  "demo_frame = ctl_entry ''sched_ravg_window_frame_per_sec'' (Some Ctl_frame_per_sec) 420
     Proc_Sched_Ravg_Window_Update (Some (0, 2147483647))"

theorem frame_per_sec_unchecked_witness:
  "sysctl_write demo_kernel demo_env_ctl demo_helpers demo_frame (dec_int 0) demo_module = Inl Div_By_Zero"
proof -
  have "demo_frame \<in> set lse_table" by (simp add: demo_frame_def lse_table_defs)
  moreover have "ctl_var demo_frame = Some Ctl_frame_per_sec" "frame_per_sec demo_module = 120"
    by (simp_all add: demo_frame_def ctl_entry_def demo_module_def boot_lse_def)
  ultimately show ?thesis using demo_dointvec [of 0] by (simp add: frame_per_sec_unchecked)
qed

end
