(* ===== verification/Lse_Module.thy ===== *)
theory Lse_Module
  imports Lse_Sysctl
begin

text \<open>
  The module as it runs: from the state that loading it leaves, the scheduler hooks, the works and
  timers, the sysctls, the governor's life cycle and the tasks that come and go act on the state of
  \<open>Lse_Hooks\<close> in any order.  \<open>sys_step\<close> is one such action; the invariant \<open>sys_ok\<close> holds in every
  state that is reached, so no hook crashes and the accounting stays within its bounds.
\<close>

section \<open>Steps\<close>

text \<open>
  The hooks run on a consistent run queue with a clock that does not go back (\<open>hook_at\<close>,
  \<open>reading_ok\<close>); a task that is picked runs on no other CPU.  A sysctl may ask for a longer window, up
  to \<open>B\<close>, and the roll-over work adopts it.  Left out are the switch \<open>slim_walt_ctrl\<close>, which stops the
  accounting, a window that shrinks, which breaks its bounds (\<open>window_shrink_overload\<close>), and a write
  that starts the shadow tick of another CPU (\<open>shadow_remote_start_dies\<close>).
\<close>

inductive sys_step ::
  "kernel \<Rightarrow> u32 \<Rightarrow> bool \<Rightarrow> (nat \<Rightarrow> nat) \<times> lse \<Rightarrow> (nat \<Rightarrow> nat) \<times> lse \<Rightarrow> bool" for k B b where
  schedule: "hook_at k (lse_sched_ravg_window (sys_walt s)) he cur rq s \<Longrightarrow> ts_id prev = cur (rq_cpu rq) \<Longrightarrow>
    ts_id n \<notin> cur ` (set (cpu_possible k) - {rq_cpu rq}) \<Longrightarrow> lse_schedule k he prev n rq s = Inr s' \<Longrightarrow>
    sys_step k B b (cur, s) (cur(rq_cpu rq := ts_id n), s')"
| tick_entry: "hook_at k (lse_sched_ravg_window (sys_walt s)) he cur rq s \<Longrightarrow> ts_id p = cur (rq_cpu rq) \<Longrightarrow>
    lse_tick_entry k he p rq s = Inr s' \<Longrightarrow> sys_step k B b (cur, s) (cur, s')"
| scheduler_tick: "rq_clock (he_cpu_rq he (he_here he)) \<noteq> 20000 \<Longrightarrow>
    sys_step k B b (cur, s) (cur, lse_scheduler_tick k he old s)"
| irq_work: "rq_cpu rq \<in> set (cpu_possible k) \<Longrightarrow> ts_id p = cur (rq_cpu rq) \<Longrightarrow>
    reading_ok (lse_sched_ravg_window (sys_walt s)) wc (sys_lrq s (rq_cpu rq)) \<Longrightarrow>
    \<forall>l. sys_lts s (cur (rq_cpu rq)) = Some l \<longrightarrow> mark_start l \<le> wc \<Longrightarrow>
    lse_irq_work k (rq_cpu rq) wc p rq s = Inr s' \<Longrightarrow> sys_step k B b (cur, s) (cur, s')"
| shadow_expire: "rq_cpu rq \<in> set (cpu_possible k) \<Longrightarrow> ts_id p = cur (rq_cpu rq) \<Longrightarrow>
    reading_ok (lse_sched_ravg_window (sys_walt s)) wc (sys_lrq s (rq_cpu rq)) \<Longrightarrow>
    \<forall>l. sys_lts s (cur (rq_cpu rq)) = Some l \<longrightarrow> mark_start l \<le> wc \<Longrightarrow>
    rq_curr (he_cpu_rq he (rq_cpu rq)) = ts_id p \<Longrightarrow>
    lse_shadow_tick_expire k he wc (rq_cpu rq) p rq s = Inr s' \<Longrightarrow> sys_step k B b (cur, s) (cur, s')"
| monitor: "monitor_step k (sys_mon s) m \<Longrightarrow> sys_step k B b (cur, s) (cur, s\<lparr>sys_mon := m\<rparr>)"
| governor: "gov_step k b (sys_gov s) g \<Longrightarrow>
    \<forall>cpu. policy_ok (map_option (policy_obj g) (policy_of_cpu g cpu)) \<Longrightarrow>
    sys_step k B b (cur, s) (cur, s\<lparr>sys_gov := g\<rparr>)"
| sysctl: "tb \<in> set lse_table \<Longrightarrow> ctl_var tb \<noteq> Some Ctl_slim_walt_ctrl \<Longrightarrow>
    \<forall>cpu. rq_cpu (ce_cpu_rq ce cpu) = cpu \<Longrightarrow>
    hp_dobool h buf = Inr 0 \<or> remote_quiet (ce_cpu_rq ce) (ce_here ce) (sys_shadow s) \<Longrightarrow>
    sysctl_write k ce h tb buf s = Inr (r, s') \<Longrightarrow>
    lse_sched_ravg_window (sys_walt s) \<le> new_lse_sched_ravg_window (sys_walt s') \<Longrightarrow>
    new_lse_sched_ravg_window (sys_walt s') \<le> B \<Longrightarrow> sys_step k B b (cur, s) (cur, s')"
| task_new: "sys_step k B b (cur, s) (cur, s\<lparr>sys_lts := alloc_lse_task_struct ok tsk (sys_lts s)\<rparr>)"
| task_gone: "\<forall>p. tsk = Some p \<longrightarrow> \<not> on_dsq_flag (sys_lts s) (ts_id p) \<Longrightarrow>
    sys_step k B b (cur, s) (cur, s\<lparr>sys_lts := free_lse_task_struct tsk (sys_lts s)\<rparr>)"
| sleep: "sys_step k B b (cur, s) (cur, s\<lparr>sys_clock := lse_resume (lse_suspend (sys_clock s) t)\<rparr>)"

inductive_cases sys_stepE: "sys_step k B b x y"

section \<open>Each step keeps the invariant\<close>

lemma sys_gov_ok:
  assumes "sys_ok k W B S b cur s" "attached b g" "\<forall>cpu. policy_ok (map_option (policy_obj g) (policy_of_cpu g cpu))"
  shows "sys_ok k W B S b cur (s\<lparr>sys_gov := g\<rparr>)"
proof -
  have "sys_lrq (s\<lparr>sys_gov := g\<rparr>) = sys_lrq s" by (simp add: sys_lrq_def)
  then show ?thesis using assms
    by (simp add: sys_ok_def core_ok_def current_ok_def windows_ok_def sys_started_def cpu_policy_def)
qed

lemma sys_walt_ok:
  assumes "sys_ok k W B S b cur s"
    and "lse_sched_ravg_window w = lse_sched_ravg_window (sys_walt s)"
      "lse_sched_ravg_window (sys_walt s) \<le> new_lse_sched_ravg_window w" "new_lse_sched_ravg_window w \<le> B"
      "lse_scale_demand_divisor w = lse_scale_demand_divisor (sys_walt s)"
      "tick_sched_clock w = tick_sched_clock (sys_walt s)"
  shows "sys_ok k W B S b cur (s\<lparr>sys_walt := w\<rparr>)"
proof -
  have "sys_lrq (s\<lparr>sys_walt := w\<rparr>) = sys_lrq s" "cpu_policy (s\<lparr>sys_walt := w\<rparr>) = cpu_policy s"
    by (auto simp: sys_lrq_def cpu_policy_def)
  moreover have "walt_ok B S w"
  proof -
    have "walt_ok B S (sys_walt s)" using assms(1) by (simp add: sys_ok_def core_ok_def)
    then show ?thesis using assms(2-5) by (simp add: walt_ok_def)
  qed
  ultimately show ?thesis using assms
    by (simp add: sys_ok_def core_ok_def current_ok_def windows_ok_def sys_started_def)
qed

lemma sys_clock_ok:
  assumes "sys_ok k W B S b cur s" "\<not> lse_clock_suspended c"
  shows "sys_ok k W B S b cur (s\<lparr>sys_clock := c\<rparr>)"
proof -
  have "sys_lrq (s\<lparr>sys_clock := c\<rparr>) = sys_lrq s" "cpu_policy (s\<lparr>sys_clock := c\<rparr>) = cpu_policy s"
    by (auto simp: sys_lrq_def cpu_policy_def)
  then show ?thesis using assms
    by (simp add: sys_ok_def core_ok_def current_ok_def windows_ok_def sys_started_def)
qed

lemma sys_plain_ok:
  assumes "sys_ok k W B S b cur s"
  shows "sys_ok k W B S b cur (s\<lparr>sysctl_lse_gov_debug := v\<rparr>)"
proof -
  have "sys_lrq (s\<lparr>sysctl_lse_gov_debug := v\<rparr>) = sys_lrq s" "cpu_policy (s\<lparr>sysctl_lse_gov_debug := v\<rparr>) = cpu_policy s"
    by (auto simp: sys_lrq_def cpu_policy_def)
  then show ?thesis using assms
    by (simp add: sys_ok_def core_ok_def current_ok_def windows_ok_def sys_started_def)
qed

lemma sys_frame_ok:
  assumes "sys_ok k W B S b cur s"
  shows "sys_ok k W B S b cur (s\<lparr>frame_per_sec := v\<rparr>)"
proof -
  have "sys_lrq (s\<lparr>frame_per_sec := v\<rparr>) = sys_lrq s" "cpu_policy (s\<lparr>frame_per_sec := v\<rparr>) = cpu_policy s"
    by (auto simp: sys_lrq_def cpu_policy_def)
  then show ?thesis using assms
    by (simp add: sys_ok_def core_ok_def current_ok_def windows_ok_def sys_started_def)
qed

text \<open>The queues may set and clear the marks of tasks, and a task may come or go.\<close>

lemma sys_dsq_ok:
  assumes "sys_ok k W B S b cur s" "same_class (sys_lts s) L" "dsq_wf (L, d)"
  shows "sys_ok k W B S b cur (s\<lparr>sys_lts := L, sys_dsq := d\<rparr>)"
proof -
  let ?s = "s\<lparr>sys_lts := L, sys_dsq := d\<rparr>"
  have "sys_lrq ?s = sys_lrq s" "cpu_policy ?s = cpu_policy s" by (auto simp: sys_lrq_def cpu_policy_def)
  then have "core_ok k W B S ?s" "current_ok k cur ?s"
    using assms(1,2) quiet_ok [of k W B S s ?s] by (simp_all add: sys_ok_def)
  then show ?thesis using assms by (simp add: sys_ok_def)
qed

lemma sys_lts_ok:
  assumes ok: "sys_ok k W B S b cur s" and wf: "dsq_wf (L, sys_dsq s)"
    and old: "\<forall>t l. L t = Some l \<longrightarrow> sys_lts s t = Some l \<or>
      mark_start l = 0 \<and> lts_window_start l = 0 \<and> lts_bounded B S l"
  shows "sys_ok k W B S b cur (s\<lparr>sys_lts := L\<rparr>)"
proof -
  let ?s = "s\<lparr>sys_lts := L\<rparr>"
  have lrq: "sys_lrq ?s = sys_lrq s" "cpu_policy ?s = cpu_policy s" by (auto simp: sys_lrq_def cpu_policy_def)
  have core: "core_ok k W B S s" and cur: "current_ok k cur s" using ok by (simp_all add: sys_ok_def)
  have "table_ok B S L" using core old unfolding core_ok_def table_ok_def by metis
  moreover have "windows_ok k ?s"
    using core old unfolding core_ok_def windows_ok_def sys_started_def lrq by (simp split: if_splits) metis
  ultimately have "core_ok k W B S ?s" using core by (simp add: core_ok_def lrq)
  moreover have "current_ok k cur ?s" using cur old unfolding current_ok_def lrq by simp metis
  ultimately show ?thesis using ok wf by (simp add: sys_ok_def)
qed

lemma task_new_ok:
  assumes ok: "sys_ok k W B S b cur s"
  shows "sys_ok k W B S b cur (s\<lparr>sys_lts := alloc_lse_task_struct a tsk (sys_lts s)\<rparr>)"
proof (rule sys_lts_ok [OF ok])
  have "alloc_lse_task_struct a tsk (sys_lts s) = sys_lts s \<or>
      (\<exists>p. sys_lts s (ts_id p) = None \<and>
        alloc_lse_task_struct a tsk (sys_lts s) = (sys_lts s)(ts_id p \<mapsto> init_lse_task_struct p))"
    by (auto simp: alloc_lse_task_struct_def split: option.split)
  moreover have "dsq_wf (sys_lts s, sys_dsq s)" using ok by (simp add: sys_ok_def)
  ultimately show "dsq_wf (alloc_lse_task_struct a tsk (sys_lts s), sys_dsq s)"
    using dsq_step_wf [OF dsq_step.lts_alloc] by auto
qed (auto simp: alloc_lse_task_struct_def init_lts_bounded split: option.splits if_splits)

lemma task_gone_ok:
  assumes ok: "sys_ok k W B S b cur s" and free: "\<forall>p. tsk = Some p \<longrightarrow> \<not> on_dsq_flag (sys_lts s) (ts_id p)"
  shows "sys_ok k W B S b cur (s\<lparr>sys_lts := free_lse_task_struct tsk (sys_lts s)\<rparr>)"
proof (rule sys_lts_ok [OF ok])
  have wf: "dsq_wf (sys_lts s, sys_dsq s)" using ok by (simp add: sys_ok_def)
  show "dsq_wf (free_lse_task_struct tsk (sys_lts s), sys_dsq s)"
  proof (rule wf_flags [OF wf])
    show "on_dsq_flag (free_lse_task_struct tsk (sys_lts s)) t = on_dsq_flag (sys_lts s) t" for t
      using free by (auto simp: free_lse_task_struct_def on_dsq_flag_def split: option.splits)
  qed
qed (auto simp: free_lse_task_struct_def split: option.splits if_splits)

lemma sync_class: "same_class M (fst s) \<Longrightarrow> same_class M (fst (lse_dsq_sync k s))"
proof -
  have "same_class M L \<Longrightarrow> same_class M (fold (\<lambda>t L. set_on_dsq t False L) ts L)" for ts L
    by (induction ts arbitrary: L) (simp_all add: same_class_set)
  then have drain: "same_class M (fst x) \<Longrightarrow> same_class M (fst (drain_dsq i x))" for i x
    by (cases x) (simp add: drain_dsq_def)
  have "same_class M (fst x) \<Longrightarrow> same_class M (fst (fold drain_dsq is x))" for "is" x
    by (induction "is" arbitrary: x) (simp_all add: drain)
  moreover have "same_class M (fst x) \<Longrightarrow> same_class M (fst (fold (\<lambda>c. drain_dsq (LSE_DSQ_PCP_BASE + c)) cs x))" for cs x
    by (induction cs arbitrary: x) (simp_all add: drain)
  ultimately show "same_class M (fst s) \<Longrightarrow> same_class M (fst (lse_dsq_sync k s))"
    by (simp add: lse_dsq_sync_def Let_def)
qed

lemma ctl_set_ok:
  assumes ok: "sys_ok k W B S b cur s"
    and d: "d \<notin> {Ctl_slim_walt_ctrl, Ctl_frame_per_sec, Ctl_highres_tick_ctrl, Ctl_dsq_enable, Ctl_dsq_rescue_enable}"
  shows "sys_ok k W B S b cur (ctl_set d v s)"
proof -
  have att: "attached b (sys_gov s)" and pol: "\<forall>cpu. policy_ok (cpu_policy s cpu)"
    and sh: "shadow_consistent (sys_shadow s)" and wf: "dsq_wf (sys_lts s, sys_dsq s)"
    using ok by (simp_all add: sys_ok_def core_ok_def)
  have gov: "sys_ok k W B S b cur (upd_ctl f s)" for f
    unfolding upd_ctl_def
  proof (rule sys_gov_ok [OF ok])
    show "attached b (sys_gov s\<lparr>ctl := f (ctl (sys_gov s))\<rparr>)"
      by (rule gov_sys.inv_step [OF att]) (rule gov_step.ctl)
  qed (use pol in \<open>simp add: cpu_policy_def\<close>)
  have win: "lse_sched_ravg_window (sys_walt s) \<le> new_lse_sched_ravg_window (sys_walt s)"
    "new_lse_sched_ravg_window (sys_walt s) \<le> B" using ok by (simp_all add: sys_ok_def core_ok_def)
  have depth: "sys_ok k W B S b cur (s\<lparr>sys_lts := sys_lts s, sys_dsq := (sys_dsq s)\<lparr>lse_dsq_max_depth := v\<rparr>\<rparr>)"
    by (rule sys_dsq_ok [OF ok same_class_refl]) (rule dsq_step_wf [OF dsq_step.set_depth wf])
  have dbg: "shadow_consistent ((sys_shadow s)\<lparr>highres_tick_ctrl_dbg := word_of_int v\<rparr>)"
    using sh by (simp add: shadow_consistent_def)
  show ?thesis
    using d depth win by (cases d) (simp_all add: touch_ok [OF ok] sys_walt_ok [OF ok] sys_plain_ok [OF ok] gov shadow_ok [OF ok dbg])
qed

lemma sysctl_step_ok:
  assumes ok: "sys_ok k W B S b cur s" and possible: "distinct (cpu_possible k)"
    and tb: "tb \<in> set lse_table" and d: "ctl_var tb \<noteq> Some Ctl_slim_walt_ctrl"
    and rqs: "\<forall>cpu. rq_cpu (ce_cpu_rq ce cpu) = cpu"
    and quiet: "hp_dobool h buf = Inr 0 \<or> remote_quiet (ce_cpu_rq ce) (ce_here ce) (sys_shadow s)"
    and run: "sysctl_write k ce h tb buf s = Inr (r, s')"
    and win: "lse_sched_ravg_window (sys_walt s) \<le> new_lse_sched_ravg_window (sys_walt s')"
      "new_lse_sched_ravg_window (sys_walt s') \<le> B"
  shows "sys_ok k W B S b cur s'"
proof -
  note e = table_entry_ok [OF tb]
  have sh: "shadow_consistent (sys_shadow s)" and wf: "dsq_wf (sys_lts s, sys_dsq s)" using ok by (simp_all add: sys_ok_def)
  have plain: "sys_ok k W B S b cur s'"
    if dir: "ctl_handler tb \<in> {Proc_Dointvec, Proc_Dointvec_Minmax}"
  proof -
    obtain a where a: "ctl_var tb = Some a" "a \<noteq> Ctl_highres_tick_ctrl" using e dir
      by (cases "ctl_handler tb") (auto simp: entry_ok_def)
    have "(r, s') = sysctl_store tb (ctl_io h tb buf) s" using dir run by (auto simp: sysctl_write_def Let_def)
    moreover have "a \<notin> {Ctl_dsq_enable, Ctl_dsq_rescue_enable, Ctl_frame_per_sec}"
    proof -
      have "list_all (\<lambda>tb. ctl_handler tb \<in> {Proc_Dointvec, Proc_Dointvec_Minmax} \<longrightarrow>
          ctl_var tb \<noteq> Some Ctl_dsq_enable \<and> ctl_var tb \<noteq> Some Ctl_dsq_rescue_enable \<and>
          ctl_var tb \<noteq> Some Ctl_frame_per_sec) lse_table"
        by (simp add: lse_table_defs ctl_entry_def)
      then show ?thesis using tb dir a by (auto simp: list_all_iff)
    qed
    ultimately show ?thesis using a d ok
      by (auto simp: sysctl_store_def split: sum.splits intro!: ctl_set_ok)
  qed
  show ?thesis
  proof (cases "ctl_handler tb")
    case Proc_Dobool
    then show ?thesis using e d by (simp add: entry_ok_def)
  next
    case Proc_Shadow_Tick_Update
    let ?io = "map_sum id word_of_int (hp_dobool h buf) :: int + u32"
    have "shadow_step k (sys_shadow s) (snd (lse_proc_shadow_tick_update k (ce_cpu_rq ce) (ce_here ce) True ?io (sys_shadow s)))"
      by (rule shadow_step.sysctl [OF rqs]) (use quiet in auto)
    then have "shadow_consistent (snd (lse_proc_shadow_tick_update k (ce_cpu_rq ce) (ce_here ce) True ?io (sys_shadow s)))"
      by (rule shadow_step_consistent [OF _ possible sh])
    then show ?thesis using Proc_Shadow_Tick_Update run shadow_ok [OF ok]
      by (auto simp: sysctl_write_def ctl_io_def Let_def case_prod_unfold)
  next
    case Proc_Sched_Ravg_Window_Update
    then have "lse_proc_sched_ravg_window_update True (ctl_io h tb buf) s = Inr (r, s')"
      using run by (simp add: sysctl_write_def Let_def)
    then have s': "s' = s \<or> (\<exists>v. s' = (s\<lparr>frame_per_sec := v\<rparr>)\<lparr>sys_walt := (sys_walt s)
        \<lparr>new_lse_sched_ravg_window := word_of_int (cdiv NSEC_PER_SEC v)\<rparr>\<rparr>)"
      by (cases "ctl_io h tb buf")
        (auto simp: lse_proc_sched_ravg_window_update_def sched_ravg_window_change_def Let_def split: if_splits)
    have "sys_ok k W B S b cur s'" if v: "s' = (s\<lparr>frame_per_sec := v\<rparr>)\<lparr>sys_walt := (sys_walt s)
        \<lparr>new_lse_sched_ravg_window := word_of_int (cdiv NSEC_PER_SEC v)\<rparr>\<rparr>" for v
      using win unfolding v by (intro sys_walt_ok [OF sys_frame_ok [OF ok]]) simp_all
    then show ?thesis using s' ok by auto
  next
    case Proc_Monitor_Toggle_Update
    then show ?thesis using run touch_ok [OF ok] by (auto simp: sysctl_write_def Let_def case_prod_unfold)
  next
    case Proc_Dsq_Toggle_Update
    obtain t where s': "s' = s\<lparr>sys_lts := fst (snd (lse_proc_dsq_toggle_update k t True (ctl_io h tb buf) (sys_lts s, sys_dsq s))),
        sys_dsq := snd (snd (lse_proc_dsq_toggle_update k t True (ctl_io h tb buf) (sys_lts s, sys_dsq s)))\<rparr>"
      using Proc_Dsq_Toggle_Update run by (auto simp: sysctl_write_def Let_def case_prod_unfold)
    have "same_class (sys_lts s) (fst (snd (lse_proc_dsq_toggle_update k t True (ctl_io h tb buf) (sys_lts s, sys_dsq s))))"
      by (auto simp: lse_proc_dsq_toggle_update_def same_class_refl sync_class split: sum.split)
    moreover have "dsq_wf (snd (lse_proc_dsq_toggle_update k t True (ctl_io h tb buf) (sys_lts s, sys_dsq s)))"
      by (rule toggle_wf [OF wf])
    ultimately show ?thesis unfolding s' by (intro sys_dsq_ok [OF ok]) simp_all
  next
    case Proc_Dsq_Dump
    then show ?thesis using run ok by (simp add: sysctl_write_def Let_def)
  next
    case Proc_Dsq_Urgency
    then show ?thesis using run ok by (simp add: sysctl_write_def Let_def)
  qed (use plain in simp_all)
qed

text \<open>The invariant of the module in a kernel whose capacities are scaled to 1024; 7812 is the divisor
  that \<open>lse_sched_stats_init\<close> computes for the first window, of 8 ms.\<close>

definition module_inv :: "kernel \<Rightarrow> u32 \<Rightarrow> bool \<Rightarrow> (nat \<Rightarrow> nat) \<times> lse \<Rightarrow> bool" where
  "module_inv k B b x \<longleftrightarrow> kernel_ok k \<longrightarrow> 8000000 \<le> B \<longrightarrow> distinct (cpu_possible k) \<and>
     sys_ok k (lse_sched_ravg_window (sys_walt (snd x))) B (unat B div 7812) b (fst x) (snd x)"

definition module_started :: "kernel \<Rightarrow> (nat \<Rightarrow> nat) \<times> lse \<Rightarrow> bool" where
  "module_started k x \<longleftrightarrow> (\<exists>le j g. module_loaded k le j g (fst x) (snd x))"

lemma sys_ok_window: "sys_ok k W B S b cur s \<Longrightarrow> lse_sched_ravg_window (sys_walt s) = W"
  by (simp add: sys_ok_def core_ok_def)

lemma sys_step_ok:
  assumes "sys_step k B b x y" "kernel_ok k" "distinct (cpu_possible k)"
    "sys_ok k (lse_sched_ravg_window (sys_walt (snd x))) B S b (fst x) (snd x)"
  shows "sys_ok k (lse_sched_ravg_window (sys_walt (snd y))) B S b (fst y) (snd y)"
proof -
  have step: "\<exists>W. sys_ok k W B S b (fst y) (snd y)"
    using assms
  proof (induction rule: sys_step.induct)
    case (schedule s he cur rq prev n s')
    then show ?case using lse_schedule_ok [of k _ B S b cur s he rq prev n]
      by (auto simp del: fun_upd_apply)
  next
    case (tick_entry s he cur rq p s')
    then show ?case using lse_tick_entry_ok [of k _ B S b cur s he rq p] by fastforce
  next
    case (scheduler_tick he cur s old)
    then show ?case by (intro exI) (auto intro!: lse_scheduler_tick_ok)
  next
    case (irq_work rq p cur s wc s')
    then show ?case using lse_irq_work_keeps [of k _ B S b cur s rq p wc s'] by auto
  next
    case (shadow_expire rq p cur s wc he s')
    then show ?case using lse_shadow_tick_expire_ok [of k _ B S b cur s rq p wc he] by fastforce
  next
    case (governor s g cur)
    have "attached b (sys_gov s)" using governor by (simp add: sys_ok_def)
    then have "attached b g" using governor(1) by (rule gov_sys.inv_step)
    then show ?case using governor by (intro exI) (auto intro!: sys_gov_ok)
  next
    case (sysctl tb ce h buf s r s' cur)
    then show ?case using sysctl_step_ok [of k _ B S b cur s tb ce h buf r s'] by auto
  next
    case (sleep cur s t)
    then show ?case by (intro exI) (auto simp: lse_resume_def intro!: sys_clock_ok)
  qed (auto intro: touch_ok task_new_ok task_gone_ok)
  then show ?thesis using sys_ok_window by blast
qed

interpretation module_sys: invariant_system "module_started k" "sys_step k B b" "module_inv k B b" for k B b
proof unfold_locales
  fix x y
  show "module_inv k B b x" if st: "module_started k x"
  proof -
    obtain le j g where load: "module_loaded k le j g (fst x) (snd x)" using st by (auto simp: module_started_def)
    then have "distinct (cpu_possible k)" by (simp add: module_loaded_def)
    moreover have "sys_ok k (lse_sched_ravg_window (sys_walt (snd x))) B (unat B div 7812) b (fst x) (snd x)"
      if "8000000 \<le> B"
      using module_loaded_ok [OF load that, of b] by (simp add: sys_ok_window)
    ultimately show ?thesis by (simp add: module_inv_def)
  qed
  show "module_inv k B b x \<Longrightarrow> sys_step k B b x y \<Longrightarrow> module_inv k B b y"
    using sys_step_ok by (auto simp: module_inv_def)
qed

lemma module_ok:
  assumes "module_started k x" "(sys_step k B b)\<^sup>*\<^sup>* x (cur, s)" "kernel_ok k" "8000000 \<le> B"
  shows "sys_ok k (lse_sched_ravg_window (sys_walt s)) B (unat B div 7812) b cur s"
  using module_sys.inv_reachable [OF assms(1,2)] assms(3,4) by (simp add: module_inv_def)

section \<open>Properties\<close>

text \<open>C1: From the moment the module is loaded, in every state that a sequence of steps reaches, each of
  which returned - hooks, works, timers, sysctl writes, governor calls, tasks that come and go,
  suspends - the schedule hook and the tick hook return: no \<open>BUG_ON\<close>, no division by zero, no NULL
  pointer, whatever task is picked.  Left out are the write to \<open>slim_walt_ctrl\<close>, a frame rate that asks
  for a window shorter than the present one or longer than the bound \<open>B\<close>, and the write to the shadow
  switch that starts the tick of another CPU.  Assumed are a clock that does not go back, fewer than
  \<open>2 ^ 31\<close> windows (their number is an \<open>int\<close>) and \<open>2 ^ 54\<close> ns between two events of a CPU, a task on one
  CPU at a time and off the queues when it is freed, no frequency above its policy's highest and no
  capacity above 1024.\<close>

theorem module_hooks_return:
  assumes "module_started k x" "kernel_ok k" "8000000 \<le> B" "(sys_step k B b)\<^sup>*\<^sup>* x (cur, s)"
    and "hook_at k (lse_sched_ravg_window (sys_walt s)) he cur rq s" "ts_id prev = cur (rq_cpu rq)"
    and "ts_id n \<notin> cur ` (set (cpu_possible k) - {rq_cpu rq})"
  shows "(\<exists>s'. lse_schedule k he prev n rq s = Inr s') \<and> (\<exists>s'. lse_tick_entry k he prev rq s = Inr s')"
proof -
  note ok = module_ok [OF assms(1,4,2,3)]
  show ?thesis
    using lse_schedule_ok [OF ok assms(2,5-7)] lse_tick_entry_ok [OF ok assms(2,5,6)] by blast
qed

definition demo_load :: load_env where
  "demo_load =
     \<lparr>le_cache_ok = True, le_alloc_ok = (\<lambda>_. True), le_threads = map demo_task [0..<8],
      le_idle = (\<lambda>cpu. demo_task (100 + cpu)), le_kzalloc_ok = (\<lambda>_. True), le_mkdir_ok = True,
      le_jiffies = 1000, le_here = 0, le_cpu_rq = (\<lambda>cpu. demo_rq cpu cpu)\<rparr>"

lemma demo_kernel_ok: "kernel_ok demo_kernel"
  by (simp add: kernel_ok_def demo_kernel_def)

lemma demo_loaded: "\<exists>s. module_loaded demo_kernel demo_load 0 demo_boot_gov id s"
proof -
  obtain cs where "lse_sched_cluster_init demo_kernel (\<lambda>_. True) (boot_clusters (\<lambda>_. boot_lrq)) = Inr cs"
    using cluster_init_spec [OF demo_topology(2), of "\<lambda>_. True" "\<lambda>_. boot_lrq"] by (auto simp: demo_topology(1))
  then have "\<exists>s. lunar_sched_ext_init demo_kernel demo_load (boot_lse 0 demo_boot_gov) = Inr s"
    by (simp add: lunar_sched_ext_init_def demo_load_def boot_lse_def Let_def case_prod_unfold)
  moreover have "policy_ok (cpu_policy (boot_lse 0 demo_boot_gov) cpu)" for cpu
    by (simp add: cpu_policy_def boot_lse_def demo_boot_gov_def demo_gov_def demo_gov_policy_def policy_ok_def
        get_max_freq_def cpu_cur_freq_def)
  moreover have "rq_cpu (le_cpu_rq demo_load cpu) = cpu" for cpu by (simp add: demo_load_def demo_rq_def)
  moreover have "distinct (cpu_possible demo_kernel)" by (simp add: demo_kernel_def)
  ultimately show ?thesis unfolding module_loaded_def using demo_boot by auto
qed

lemma module_loaded_fresh:
  assumes "module_loaded k le j g cur s"
  shows "window_start (sys_lrq s cpu) = 0" "latest_clock (sys_lrq s cpu) = 0" "sys_lts s t = Some l \<Longrightarrow> mark_start l = 0"
    "lse_clock_suspended (sys_clock s) = False" "lse_sched_ravg_window (sys_walt s) = 8000000"
proof -
  have "tick_sched_clock (sys_walt s) = 0"
    by (rule module_loaded_state [OF assms], drule loaded_walt(4), drule arg_cong [where f = sys_walt])
      (simp add: set_sys_lrq_def)
  moreover have "core_ok k 8000000 8000000 1024 s"
    using module_loaded_ok [OF assms, of 8000000] by (simp add: sys_ok_def)
  ultimately show "window_start (sys_lrq s cpu) = 0" "latest_clock (sys_lrq s cpu) = 0"
    "sys_lts s t = Some l \<Longrightarrow> mark_start l = 0" "lse_clock_suspended (sys_clock s) = False"
    "lse_sched_ravg_window (sys_walt s) = 8000000"
    unfolding core_ok_def windows_ok_def sys_started_def by auto
qed

definition demo_he :: hook_env where
  "demo_he = \<lparr>he_jiffies = 1001, he_here = 3, he_cpu_rq = (\<lambda>cpu. demo_rq cpu cpu), he_rq_clock = 5000000,
     he_local_clock1 = 5000000, he_local_clock2 = 5000100\<rparr>"

definition demo_locked :: rq where
  "demo_locked = (demo_rq 3 3)\<lparr>rq_locked := True, rq_clock := 5000000, rq_clock_updated := True\<rparr>"

lemma demo_hook:
  assumes "module_loaded demo_kernel demo_load 0 demo_boot_gov id s"
  shows "hook_at demo_kernel (lse_sched_ravg_window (sys_walt s)) demo_he id demo_locked s"
proof -
  have "hook_clock demo_he demo_locked s = 5000000"
    using module_loaded_fresh [OF assms] by (simp add: hook_clock_def rq_time_def demo_locked_def)
  then show ?thesis
    using module_loaded_fresh [OF assms]
    by (auto simp: hook_at_def reading_ok_def demo_he_def demo_locked_def demo_rq_def demo_kernel_def)
qed

theorem module_hooks_return_witness:
  "\<exists>s s'. module_loaded demo_kernel demo_load 0 demo_boot_gov id s \<and>
     lse_schedule demo_kernel demo_he (demo_task 3) (demo_task 100) demo_locked s = Inr s'"
proof -
  obtain s where s: "module_loaded demo_kernel demo_load 0 demo_boot_gov id s" using demo_loaded by blast
  then have "module_started demo_kernel (id, s)" by (auto simp: module_started_def)
  moreover have "ts_id (demo_task 3) = id (rq_cpu demo_locked)"
    "ts_id (demo_task 100) \<notin> id ` (set (cpu_possible demo_kernel) - {rq_cpu demo_locked})"
    by (simp_all add: demo_task_def demo_locked_def demo_rq_def demo_kernel_def)
  ultimately show ?thesis
    using module_hooks_return [OF _ demo_kernel_ok order_refl rtranclp.rtrancl_refl demo_hook [OF s]] s by blast
qed

text \<open>C15: In every state that the steps of \<open>sys_step\<close> reach - the windows may grow, up to \<open>B\<close>, but not
  shrink, the accounting stays on and the clock moves as for the hooks' return - the accounting is
  within its bounds: the busy time of a CPU's last window is at most that window, and its utilisation
  at most 1024 when that window had at least \<open>2 ^ 20\<close> ns; no sample of a task's history, no demand and
  no sum exceeds \<open>B\<close>, and the scaled demand is at most \<open>B\<close> by the divisor of the first window, which is
  1024 for \<open>B\<close> of 8 ms.  (That a shrinking window does break the bound is \<open>window_shrink_overload\<close>.)\<close>

theorem module_accounting_bounds:
  assumes "module_started k x" "kernel_ok k" "8000000 \<le> B" "(sys_step k B b)\<^sup>*\<^sup>* x (cur, s)"
  shows "unat (prev_runnable_sum (sys_lrq s cpu)) \<le> unat (prev_window_size (sys_lrq s cpu)) \<and>
    (2 ^ 20 \<le> unat (prev_window_size (sys_lrq s cpu)) \<longrightarrow> unat (lse_cpu_util (sys_lrq s cpu)) \<le> 1024) \<and>
    (sys_lts s t = Some l \<longrightarrow> demand l \<le> B \<and> unat (demand_scaled l) \<le> unat B div 7812 \<and> lts_sum l \<le> B \<and>
       (\<forall>h \<in> set (sum_history l). h \<le> B))"
proof -
  let ?W = "lse_sched_ravg_window (sys_walt s)"
  have "core_ok k ?W B (unat B div 7812) s" using module_ok [OF assms(1,4,2,3)] by (simp add: sys_ok_def)
  then have "cpu_ok ?W (sys_lrq s cpu)" "table_ok B (unat B div 7812) (sys_lts s)" by (simp_all add: core_ok_def)
  then show ?thesis
    using lse_cpu_util_bound [of "sys_lrq s cpu"] table_okD(1) [of B "unat B div 7812" "sys_lts s" t l]
    by (auto simp: cpu_ok_def lts_bounded_def)
qed

theorem module_accounting_bounds_witness:
  "\<exists>s. module_loaded demo_kernel demo_load 0 demo_boot_gov id s \<and>
     unat (prev_runnable_sum (sys_lrq s 3)) \<le> unat (prev_window_size (sys_lrq s 3))"
proof -
  obtain s where s: "module_loaded demo_kernel demo_load 0 demo_boot_gov id s" using demo_loaded by blast
  then have "module_started demo_kernel (id, s)" by (auto simp: module_started_def)
  from module_accounting_bounds [OF this demo_kernel_ok order_refl rtranclp.rtrancl_refl] s show ?thesis by blast
qed

end
