(* ===== verification/Lse_Dsq_Spec.thy ===== *)
theory Lse_Dsq_Spec
  imports Lse_Dsq
begin

text \<open>
  What the dispatch queues of \<open>lse_dsq.c\<close> are meant to be: one list of the waiting tasks in the order of
  their arrival, each with the queue it belongs to.  The theory shows that the intrusive lists, the
  \<open>on_dsq\<close> flags and the schedule handler implement it, over every sequence of schedule events.
\<close>

section \<open>The specification\<close>

type_synonym arrivals = "(nat \<times> nat) list"

definition aq_queue :: "arrivals \<Rightarrow> nat \<Rightarrow> nat list" where
  "aq_queue aq i = map fst (filter (\<lambda>x. snd x = i) aq)"

definition aq_add :: "nat \<Rightarrow> nat option \<Rightarrow> arrivals \<Rightarrow> arrivals" where
  "aq_add t place aq =
     (case place of None \<Rightarrow> aq | Some i \<Rightarrow> if t \<in> fst ` set aq then aq else aq @ [(t, i)])"

definition aq_drop :: "nat \<Rightarrow> arrivals \<Rightarrow> arrivals" where
  "aq_drop t aq = filter (\<lambda>x. fst x \<noteq> t) aq"

text \<open>The queue a task belongs to, if it has one: its data decide, not the state of the queues.\<close>

definition dsq_place :: "kernel \<Rightarrow> lts_table \<Rightarrow> task_struct \<Rightarrow> nat option" where
  "dsq_place k L p =
     (case L (ts_id p) of None \<Rightarrow> None
      | Some l \<Rightarrow> let i = lse_dsq_classify_lts k (Some l) p in if dsq_idx_valid k i then Some i else None)"

text \<open>A task waits when its CPU switches away from it while it is runnable there and not the current
  task any more; it stops waiting when it is picked.\<close>

definition aq_leaves :: "schedule_event \<Rightarrow> task_struct \<Rightarrow> bool" where
  "aq_leaves ev p = (case ev of (_, cpu_rq, _, rq, _, _) \<Rightarrow> (case rq of None \<Rightarrow> False | Some r \<Rightarrow>
     \<not> is_idle_task p \<and> task_on_rq_queued p \<and> task_cpu p = rq_cpu r \<and> ts_id p \<noteq> rq_curr (cpu_rq (rq_cpu r))))"

definition aq_schedule :: "(task_struct \<Rightarrow> nat option) \<Rightarrow> schedule_event \<Rightarrow> arrivals \<Rightarrow> arrivals" where
  "aq_schedule place ev aq =
     (case ev of (_, _, stats, rq, prev, next_task) \<Rightarrow>
        if rq = None \<or> stats = 0 \<or> map_option ts_id prev = map_option ts_id next_task then aq
        else
          let aq = (case prev of None \<Rightarrow> aq
                    | Some p \<Rightarrow> if aq_leaves ev p then aq_add (ts_id p) (place p) aq else aq)
          in case next_task of None \<Rightarrow> aq
             | Some n \<Rightarrow> if \<not> is_idle_task n \<and> place n \<noteq> None then aq_drop (ts_id n) aq else aq)"

section \<open>The simulation\<close>

definition dsq_rel :: "kernel \<Rightarrow> lts_table \<Rightarrow> lts_table \<times> dsq \<Rightarrow> arrivals \<Rightarrow> bool" where
  "dsq_rel k L0 s aq \<longleftrightarrow> dsq_wf s \<and> lse_dsq_enable (snd s) \<noteq> 0 \<and> same_class L0 (fst s) \<and>
     (\<forall>i. dsq_fifo (snd s) i = aq_queue aq i)"

lemma set_aq_queue: "t \<in> set (aq_queue aq i) \<longleftrightarrow> (t, i) \<in> set aq"
  by (force simp: aq_queue_def)

lemma rel_waits: "dsq_rel k L0 (L, d) aq \<Longrightarrow> on_dsq_flag L t \<longleftrightarrow> t \<in> fst ` set aq"
  using dsq_wfD(4) [of L d t] by (force simp: dsq_rel_def set_aq_queue)

lemma place_same:
  assumes "same_class L0 L" shows "dsq_place k L p = dsq_place k L0 p"
proof (cases "L (ts_id p)")
  case None
  have "map_option (\<lambda>l. l\<lparr>on_dsq := False\<rparr>) (L (ts_id p)) = map_option (\<lambda>l. l\<lparr>on_dsq := False\<rparr>) (L0 (ts_id p))"
    using assms by (simp add: same_class_def)
  with None show ?thesis by (simp add: dsq_place_def)
next
  case (Some l)
  with same_class_classify [OF assms Some] show ?thesis
    by (auto simp: dsq_place_def lse_dsq_classify_task_def split: option.split)
qed

lemma aq_queue_add: "aq_queue (aq @ [(t, i)]) j = (if j = i then aq_queue aq j @ [t] else aq_queue aq j)"
  by (simp add: aq_queue_def)

lemma aq_queue_drop: "aq_queue (aq_drop t aq) i = removeAll t (aq_queue aq i)"
  unfolding aq_queue_def aq_drop_def by (induction aq) auto

lemma aq_drop_absent: "t \<notin> fst ` set aq \<Longrightarrow> aq_drop t aq = aq"
  unfolding aq_drop_def by (rule filter_True) force

lemma enqueue_task_rel:
  assumes rel: "dsq_rel k L0 s aq" and run: "task_on_rq_queued p" "ts_id p \<noteq> rq_curr (cpu_rq cpu)"
  shows "dsq_rel k L0 (lse_dsq_enqueue_task k j cpu_rq (Some p) cpu s) (aq_add (ts_id p) (dsq_place k L0 p) aq)"
proof (cases s)
  case (Pair L d)
  have wf: "dsq_wf (L, d)" and en: "lse_dsq_enable d \<noteq> 0" and same: "same_class L0 L"
    and fifo: "dsq_fifo d i = aq_queue aq i" for i
    using rel by (simp_all add: Pair dsq_rel_def)
  note flag = rel_waits [OF rel [unfolded Pair], of "ts_id p"] and pl = place_same [OF same, of k p]
  show ?thesis
  proof (cases "dsq_place k L0 p = None \<or> ts_id p \<in> fst ` set aq")
    case True
    then have "lse_dsq_enqueue_task k j cpu_rq (Some p) cpu (L, d) = (L, d)"
      using flag pl by (auto simp: lse_dsq_enqueue_task_def dsq_place_def on_dsq_flag_def Let_def split: option.splits if_splits)
    moreover have "aq_add (ts_id p) (dsq_place k L0 p) aq = aq" using True by (auto simp: aq_add_def split: option.split)
    ultimately show ?thesis using rel by (simp add: Pair)
  next
    case False
    then obtain l i where l: "L (ts_id p) = Some l" "\<not> on_dsq l" "dsq_place k L0 p = Some i"
      "lse_dsq_classify_lts k (Some l) p = i" "dsq_idx_valid k i"
      using flag pl by (auto simp: dsq_place_def on_dsq_flag_def Let_def split: option.splits if_splits)
    have "lse_dsq_enqueue_task k j cpu_rq (Some p) cpu (L, d) = dsq_enqueue j i (ts_id p) (L, d)"
      using en run l by (simp add: lse_dsq_enqueue_task_def Let_def)
    moreover have "aq_add (ts_id p) (dsq_place k L0 p) aq = aq @ [(ts_id p, i)]" using False l(3) by (simp add: aq_add_def)
    moreover have "dsq_rel k L0 (dsq_enqueue j i (ts_id p) (L, d)) (aq @ [(ts_id p, i)])"
      using enqueue_wf [OF wf l(1,2), of j i] enqueue_fifo [OF dsq_wfD(1) [OF wf], of j i "ts_id p" L] en
        same_class_set [OF same] fifo
      by (simp add: dsq_rel_def aq_queue_add) (simp add: dsq_enqueue_def)
    ultimately show ?thesis by (simp add: Pair)
  qed
qed

lemma dequeue_task_rel:
  assumes rel: "dsq_rel k L0 s aq"
  shows "dsq_rel k L0 (lse_dsq_dequeue_task k j (Some n) s)
    (if dsq_place k L0 n \<noteq> None then aq_drop (ts_id n) aq else aq)"
proof (cases s)
  case (Pair L d)
  have wf: "dsq_wf (L, d)" and en: "lse_dsq_enable d \<noteq> 0" and same: "same_class L0 L"
    and fifo: "dsq_fifo d i = aq_queue aq i" for i
    using rel by (simp_all add: Pair dsq_rel_def)
  note flag = rel_waits [OF rel [unfolded Pair], of "ts_id n"] and pl = place_same [OF same, of k n]
  show ?thesis
  proof (cases "dsq_place k L0 n \<noteq> None \<and> ts_id n \<in> fst ` set aq")
    case False
    then have "lse_dsq_dequeue_task k j (Some n) (L, d) = (L, d)"
      using flag pl by (auto simp: lse_dsq_dequeue_task_def dsq_place_def dsq_idx_valid_def dsq_consts on_dsq_flag_def Let_def
          split: option.splits if_splits)
    then show ?thesis using rel False by (auto simp: Pair aq_drop_absent)
  next
    case True
    then obtain l i where l: "L (ts_id n) = Some l" "on_dsq l" "lse_dsq_classify_lts k (Some l) n = i" "dsq_idx_valid k i"
      using flag pl by (auto simp: dsq_place_def on_dsq_flag_def Let_def split: option.splits if_splits)
    have deq: "lse_dsq_dequeue_task k j (Some n) (L, d) = dsq_dequeue j i (ts_id n) (L, d)"
      using en l by (auto simp: lse_dsq_dequeue_task_def Let_def dsq_idx_valid_def dsq_consts)
    have "dsq_fifo (snd (dsq_dequeue j i (ts_id n) (L, d))) m = aq_queue (aq_drop (ts_id n) aq) m" for m
      using dequeue_fifo [OF dsq_wfD(1) [OF wf], of L "ts_id n" j i m] dsq_wfD(2) [OF wf, of m] l(1,2)
      by (simp add: on_dsq_flag_def fifo aq_queue_drop distinct_remove1_removeAll)
    moreover have "fst (dsq_dequeue j i (ts_id n) (L, d)) = set_on_dsq (ts_id n) False L"
      "lse_dsq_enable (snd (dsq_dequeue j i (ts_id n) (L, d))) = lse_dsq_enable d"
      using l(1,2) by (simp_all add: dsq_dequeue_def)
    ultimately show ?thesis
      using True deq dequeue_wf [OF wf] en same_class_set [OF same] by (simp add: Pair dsq_rel_def)
  qed
qed

lemma scan_rel: "dsq_rel k L0 s aq \<Longrightarrow> dsq_rel k L0 (dsq_throttled_scan k j cpu s) aq"
  using throttled_scan_wf [of s k j cpu]
  by (cases s) (auto simp: dsq_rel_def dsq_throttled_scan_def dsq_wf_def)

lemma schedule_rel:
  assumes rel: "dsq_rel k L0 s aq"
  shows "dsq_rel k L0 (lse_dsq_on_schedule k j cpu_rq stats rq p n s)
    (aq_schedule (dsq_place k L0) (j, cpu_rq, stats, rq, p, n) aq)"
proof (cases "rq = None \<or> stats = 0 \<or> map_option ts_id p = map_option ts_id n")
  case True
  then show ?thesis using rel scan_rel [OF rel]
    by (auto simp: lse_dsq_on_schedule_def aq_schedule_def Let_def split: option.split)
next
  case False
  then obtain r where r: "rq = Some r" by (cases rq) auto
  define aq1 where "aq1 = (case p of None \<Rightarrow> aq
    | Some q \<Rightarrow> if aq_leaves (j, cpu_rq, stats, rq, p, n) q then aq_add (ts_id q) (dsq_place k L0 q) aq else aq)"
  define s1 where "s1 = (case p of None \<Rightarrow> s | Some q \<Rightarrow>
    if \<not> is_idle_task q \<and> task_on_rq_queued q \<and> task_cpu q = rq_cpu r
    then lse_dsq_enqueue_task k j cpu_rq p (rq_cpu r) s else s)"
  have skip: "lse_dsq_enqueue_task k j cpu_rq (Some q) cpu s = s" if "rq_curr (cpu_rq cpu) = ts_id q" for q cpu
    using that by (rule enqueue_curr)
  have rel1: "dsq_rel k L0 s1 aq1"
    using rel enqueue_task_rel [OF rel, where cpu = "rq_cpu r" and j = j and cpu_rq = cpu_rq] skip
    by (auto simp: s1_def aq1_def aq_leaves_def r split: option.split)
  have "lse_dsq_on_schedule k j cpu_rq stats rq p n s = dsq_throttled_scan k j (rq_cpu r)
      (case n of None \<Rightarrow> s1 | Some m \<Rightarrow> if \<not> is_idle_task m then lse_dsq_dequeue_task k j n s1 else s1)"
    using False r rel unfolding s1_def by (simp add: lse_dsq_on_schedule_def dsq_switch_def dsq_rel_def Let_def)
  moreover have "aq_schedule (dsq_place k L0) (j, cpu_rq, stats, rq, p, n) aq =
      (case n of None \<Rightarrow> aq1 | Some m \<Rightarrow> if \<not> is_idle_task m \<and> dsq_place k L0 m \<noteq> None then aq_drop (ts_id m) aq1 else aq1)"
    using False unfolding aq_schedule_def aq1_def by (simp only: prod.case if_False Let_def)
  moreover have "dsq_rel k L0
      (case n of None \<Rightarrow> s1 | Some m \<Rightarrow> if \<not> is_idle_task m then lse_dsq_dequeue_task k j n s1 else s1)
      (case n of None \<Rightarrow> aq1 | Some m \<Rightarrow> if \<not> is_idle_task m \<and> dsq_place k L0 m \<noteq> None then aq_drop (ts_id m) aq1 else aq1)"
  proof (cases n)
    case (Some m)
    show ?thesis using rel1 dequeue_task_rel [OF rel1, of j m] by (cases "dsq_place k L0 m") (simp_all add: Some)
  qed (use rel1 in simp)
  ultimately show ?thesis using scan_rel by simp
qed

interpretation arrivals: refinement_map
  "\<lambda>(j, cpu_rq, stats, rq, p, n). lse_dsq_on_schedule k j cpu_rq stats rq p n" "aq_schedule (dsq_place k L0)" "dsq_rel k L0" for k L0
  by unfold_locales (auto intro: schedule_rel)

text \<open>C3: The dispatch queues refine the list of arrivals: from the module's initial state, after any
  sequence of schedule events, every queue holds, in order, exactly the tasks that the specification
  has waiting for it; no event lets one task overtake another of its queue.\<close>

theorem dsq_refines_arrivals:
  assumes "\<forall>t. \<not> on_dsq_flag L t"
  shows "dsq_fifo (snd (run_schedule k evs (L, lse_dsq_init k j boot_dsq))) i =
    aq_queue (fold (aq_schedule (dsq_place k L)) evs []) i"
proof -
  have st: "dsq_started k (L, lse_dsq_init k j boot_dsq)" using assms by (auto simp: dsq_started_def)
  have "dsq_fifo (lse_dsq_init k j boot_dsq) m = []" for m
    using dsq_wfD(4) [OF started_wf [OF st]] assms by (metis ex_in_conv set_empty)
  then have "dsq_rel k L (L, lse_dsq_init k j boot_dsq) []"
    using started_wf [OF st] by (simp add: dsq_rel_def dsq_init_tunables aq_queue_def same_class_def)
  from arrivals.rel_fold [OF this, of evs] show ?thesis by (simp add: dsq_rel_def run_schedule_def)
qed

theorem dsq_refines_arrivals_witness:
  "dsq_fifo (snd (run_schedule demo_kernel [demo_event] (demo_table, lse_dsq_init demo_kernel 7 boot_dsq))) 8 = [1]"
proof -
  have "dsq_fifo (snd (run_schedule demo_kernel [demo_event] (demo_table, lse_dsq_init demo_kernel 7 boot_dsq))) 8 =
      aq_queue (fold (aq_schedule (dsq_place demo_kernel demo_table)) [demo_event] []) 8"
    by (rule dsq_refines_arrivals) (simp add: on_dsq_flag_def demo_table_def demo_lts_def)
  also have "\<dots> = [1]"
    by (simp add: aq_schedule_def demo_event_def aq_leaves_def demo_rq_def demo_task_def dsq_place_def demo_table_def
        demo_lts_def lse_dsq_classify_lts_def dsq_idx_valid_def dsq_consts dsq_prios demo_kernel_def aq_add_def aq_drop_def
        aq_queue_def)
  finally show ?thesis .
qed

end
