(* ===== verification/Lse_Walt_Spec.thy ===== *)
theory Lse_Walt_Spec
  imports Lse_Window
begin

text \<open>
  What the history of a task in \<open>lse_util_track.c\<close> stands for: the list of its last
  \<open>RAVG_HIST_SIZE\<close> samples, the latest first.  The ring of \<open>sum_history\<close> and \<open>cidx\<close> implements it:
  writing a sample is adding it at the front and dropping the last, and the demand does not depend on
  where the ring starts.
\<close>

section \<open>The ring as a list\<close>

definition samples :: "lse_task_struct \<Rightarrow> u32 list" where
  "samples t = rev (rotate (cidx t) (sum_history t))"

lemma length_samples [simp]: "length (samples t) = length (sum_history t)"
  by (simp add: samples_def)

lemma set_samples [simp]: "set (samples t) = set (sum_history t)"
  by (simp add: samples_def)

lemma samples_push:
  assumes "history_ok t" shows "samples (push_sample r t) = take RAVG_HIST_SIZE (r # samples t)"
proof -
  obtain a b c d e where h: "sum_history t = [a, b, c, d, e]"
    using assms by (auto simp: history_ok_def RAVG_HIST_SIZE_def length_Suc_conv numeral_eq_Suc)
  have "cidx t \<in> {0, 1, 2, 3, 4}" using assms by (auto simp: history_ok_def RAVG_HIST_SIZE_def)
  then show ?thesis
    by (auto simp: samples_def h RAVG_HIST_SIZE_def rotate_drop_take)
qed

text \<open>So the ring refines the list sample by sample, and any number of windows follows.\<close>

definition add_latest :: "u32 \<Rightarrow> u32 list \<Rightarrow> u32 list" where
  "add_latest r hs = take RAVG_HIST_SIZE (r # hs)"

interpretation ring: refinement_map push_sample add_latest "\<lambda>t hs. history_ok t \<and> samples t = hs"
  by unfold_locales (auto simp: add_latest_def samples_push push_sample_ok)

lemma push_samples_fold: "push_samples n r t = fold push_sample (replicate n r) t"
  by (induction n arbitrary: t) simp_all

lemma add_latest_fold:
  "length hs \<le> RAVG_HIST_SIZE \<Longrightarrow> fold add_latest rs hs = take RAVG_HIST_SIZE (rev rs @ hs)"
  by (induction rs arbitrary: hs) (simp_all add: add_latest_def min_def)

lemma samples_pushes:
  assumes "history_ok t"
  shows "samples (push_samples n r t) = take RAVG_HIST_SIZE (replicate n r @ samples t)"
proof -
  have "samples (push_samples n r t) = fold add_latest (replicate n r) (samples t)"
    using ring.rel_fold [of t "samples t" "replicate n r"] assms by (simp add: push_samples_fold)
  also have "\<dots> = take RAVG_HIST_SIZE (rev (replicate n r) @ samples t)"
    using assms by (intro add_latest_fold) (simp add: history_ok_def)
  finally show ?thesis by (simp only: rev_replicate)
qed

section \<open>The demand depends on the list only\<close>

lemma hist_max_mem: "hist_max m hs \<in> insert m (set hs)"
proof (induction hs arbitrary: m)
  case (Cons h hs)
  from Cons [of "max m h"] show ?case by (auto simp: max_def split: if_splits)
qed simp

lemma hist_max_set:
  assumes "set hs = set hs'" shows "hist_max m hs = hist_max m hs'"
  using hist_max_mem [of m hs] hist_max_mem [of m hs'] hist_max_upper [of m hs] hist_max_upper [of m hs'] assms
  by (intro antisym) auto

lemma history_demand_samples: "history_demand pol (samples t) r = history_demand pol (sum_history t) r"
proof -
  have "hist_avg (samples t) = hist_avg (sum_history t)"
  proof -
    have "(\<Sum>h\<leftarrow>rotate n hs. ucast h :: u64) = (\<Sum>h\<leftarrow>hs. ucast h)" for n and hs :: "u32 list"
    proof -
      have "(\<Sum>h\<leftarrow>drop m hs @ take m hs. ucast h :: u64) = (\<Sum>h\<leftarrow>take m hs @ drop m hs. ucast h)" for m
        by (simp only: map_append sum_list_append add.commute)
      then show ?thesis by (simp only: rotate_drop_take append_take_drop_id)
    qed
    then show ?thesis by (simp add: hist_avg_def samples_def rev_map [symmetric] sum_list_rev)
  qed
  moreover have "hist_max 0 (samples t) = hist_max 0 (sum_history t)" by (rule hist_max_set) simp
  ultimately show ?thesis by (simp add: history_demand_eq)
qed

section \<open>What an update of the demand leaves in the task\<close>

text \<open>A sample of 0 is not recorded.\<close>

definition recorded :: "u32 list \<Rightarrow> u32 list" where
  "recorded hs = filter (\<lambda>h. h \<noteq> 0) hs"

lemma recorded_append [simp]: "recorded (xs @ ys) = recorded xs @ recorded ys"
  by (simp add: recorded_def)

lemma recorded_replicate: "recorded (replicate n r) = (if r = 0 then [] else replicate n r)"
  by (auto simp: recorded_def filter_empty_conv filter_id_conv)

lemma update_history_samples:
  assumes "history_ok t" "\<not> is_idle_task p" "n \<noteq> 0" "lse_scale_demand_divisor w \<noteq> 0"
  shows "\<exists>t'. update_history w p r n t = Inr t' \<and> history_ok t' \<and> lts_sum t' = (if r = 0 then lts_sum t else 0) \<and>
    samples t' = take RAVG_HIST_SIZE (recorded (replicate (nat n) r) @ samples t) \<and>
    (r \<noteq> 0 \<longrightarrow> demand t' = history_demand (sched_window_stats_policy w) (samples t') r \<and>
      demand_scaled t' = ucast (ucast (demand t') div ucast (lse_scale_demand_divisor w) :: u64))"
proof (cases "r = 0")
  case True
  have "samples t = take RAVG_HIST_SIZE (samples t)" using assms(1) by (simp add: history_ok_def)
  then show ?thesis using True assms(1) by (auto simp: update_history_def recorded_def)
next
  case False
  let ?t = "(push_samples (nat n) r t)\<lparr>lts_sum := 0\<rparr>"
  define d where "d = history_demand (sched_window_stats_policy w) (sum_history ?t) r"
  define t' where "t' = ?t\<lparr>demand := d, demand_scaled := ucast (ucast d div ucast (lse_scale_demand_divisor w) :: u64)\<rparr>"
  have "update_history w p r n t = Inr t'"
    using False assms(2-4) by (simp add: update_history_def t'_def d_def lse_scale_time_to_util_def div64_u64_Inr Let_def)
  moreover have s: "samples t' = samples (push_samples (nat n) r t)" by (simp add: samples_def t'_def)
  moreover have "history_demand (sched_window_stats_policy w) (samples t') r = d"
    unfolding s history_demand_samples by (simp add: d_def)
  moreover have "history_ok t'" using push_samples_ok [OF assms(1)] by (simp add: t'_def history_ok_def)
  ultimately show ?thesis using samples_pushes [OF assms(1)] False by (simp add: t'_def recorded_def)
qed

lemma unat_inverse: "word_of_nat (unat (x :: u32)) = x"
  by simp

lemma add_to_task_demand_samples:
  assumes "add_to_task_demand w l t delta = (d, t')"
  shows "samples t' = samples t" "history_ok t' = history_ok t"
  using add_to_task_demand_frame [OF assms] by (simp_all add: samples_def history_ok_def)

lemma take_take_append: "take n (xs @ take n ys) = take n (xs @ ys)"
  by (simp add: min_def)

text \<open>A busy stretch that crosses a window boundary closes the running window and \<open>n\<close> full ones, and
  leaves in the sum what belongs to the current window.\<close>

lemma update_task_demand_closes:
  fixes w :: walt and l :: lse_rq and t :: lse_task_struct and wallclock :: u64
  defines "W \<equiv> lse_sched_ravg_window w" and "sc \<equiv> \<lambda>x. x * unat (task_exec_scale l) div 1024"
    and "n \<equiv> unat (window_start l - mark_start t) div unat (lse_sched_ravg_window w)"
    and "first \<equiv> unat (window_start l - mark_start t) mod unat (lse_sched_ravg_window w)"
  assumes busy: "account_busy_for_task_demand rq p event" and new: "mark_start t < window_start l"
    and W: "W \<noteq> 0" "unat W < 2 ^ 31" and d: "lse_scale_demand_divisor w \<noteq> 0"
    and scale: "unat (task_exec_scale l) \<le> 1024" and n: "n < 2 ^ 31"
    and room: "window_start l \<le> wallclock" "unat (wallclock - window_start l) < unat W"
    and t: "history_ok t" "lts_sum t \<le> W"
  shows "\<exists>r t'. update_task_demand w l rq p event wallclock t = Inr (r, t') \<and> history_ok t' \<and>
    unat (lts_sum t') = sc (unat (wallclock - window_start l)) \<and>
    samples t' = take RAVG_HIST_SIZE (recorded (replicate n (word_of_nat (sc (unat W))) @
      [word_of_nat (min (unat W) (unat (lts_sum t) + sc first))]) @ samples t)"
proof -
  let ?q = "to_int ((window_start l - mark_start t) div ucast W)"
  let ?first = "window_start l - word_of_int ?q * ucast W - mark_start t"
  let ?last = "wallclock - window_start l"
  note cut = window_cut [OF new room(1) W(1) n [unfolded n_def, folded W_def], folded W_def, folded n_def [folded W_def] first_def [folded W_def]]
  have idle: "\<not> is_idle_task p" using busy by (auto simp: account_busy_for_task_demand_def)
  have sc_le: "sc x \<le> x" for x
  proof -
    have "sc x \<le> x * 1024 div 1024" unfolding sc_def using scale by (intro div_le_mono mult_le_mono2)
    then show ?thesis by simp
  qed
  have sc: "unat (scale_exec_time x l) = sc (unat x)" if "unat x \<le> unat W" for x
    unfolding sc_def by (rule unat_scale_exec_time [OF scale_no_overflow [OF _ scale]]) (use that W(2) in simp)
  have first: "unat ?first = first" and first_lt: "first < unat W"
    using cut(2) W(1) by (simp_all add: n_def first_def W_def unat_gt_0)
  obtain r1 t1 where a1: "add_to_task_demand w l t ?first = (r1, t1)" by force
  have s1: "unat (lts_sum t1) = min (unat W) (unat (lts_sum t) + sc first)"
    using add_to_task_demand_exact [OF a1] sc [of ?first] sc_le [of first] first first_lt t(2) W(2)
    by (simp add: W_def u32_le_iff)
  have "history_ok t1" using add_to_task_demand_samples(2) [OF a1] t(1) by simp
  from update_history_samples [OF this idle, of 1 w "lts_sum t1"] obtain t2
    where h1: "update_history w p (lts_sum t1) 1 t1 = Inr t2" "history_ok t2" "lts_sum t2 = 0"
      "samples t2 = take RAVG_HIST_SIZE (recorded [lts_sum t1] @ samples t)"
    using d add_to_task_demand_samples(1) [OF a1] by (auto split: if_splits)
  let ?full = "ucast (scale_exec_time (ucast W) l) :: u32"
  have full: "?full = word_of_nat (sc (unat W))"
  proof -
    have le: "unat (scale_exec_time (ucast W) l) \<le> unat W" using sc [of "ucast W"] sc_le [of "unat W"] by simp
    then have "unat ?full = sc (unat W)" using sc [of "ucast W"] u32_bound [of W] by (simp add: unat_u32_of_u64)
    moreover have "?full = word_of_nat (unat ?full)" by simp
    ultimately show ?thesis by simp
  qed
  obtain t3 where h2: "?q \<noteq> 0 \<Longrightarrow> update_history w p ?full ?q t2 = Inr t3" "?q = 0 \<Longrightarrow> t3 = t2"
      "history_ok t3" "lts_sum t3 = 0" "samples t3 = take RAVG_HIST_SIZE (recorded (replicate n ?full) @ samples t2)"
  proof (cases "n = 0")
    case True
    have "?q = 0" unfolding cut(1) by (simp add: True)
    moreover have "samples t2 = take RAVG_HIST_SIZE (recorded (replicate n ?full) @ samples t2)"
      using True h1(2) by (simp add: recorded_def history_ok_def)
    ultimately show ?thesis using that [of t2] h1(2,3) by blast
  next
    case False
    then have "?q \<noteq> 0" using cut(1) by simp
    from update_history_samples [OF h1(2) idle this d, of ?full] show ?thesis
      using that h1(3) cut(1) False by (auto split: if_splits)
  qed
  obtain r2 t4 where a2: "add_to_task_demand w l t3 ?last = (r2, t4)" by force
  have "unat (lts_sum t4) = sc (unat ?last)"
    using add_to_task_demand_exact [OF a2] sc [of ?last] sc_le [of "unat ?last"] room(2) h2(4) W(2)
    by (simp add: W_def min_absorb2)
  moreover have "samples t4 = take RAVG_HIST_SIZE (recorded (replicate n ?full @ [lts_sum t1]) @ samples t)"
    by (simp only: add_to_task_demand_samples(1) [OF a2] h2(5) h1(4) take_take_append recorded_append append_assoc)
  moreover have "lts_sum t1 = word_of_nat (min (unat W) (unat (lts_sum t) + sc first))"
    unfolding s1 [symmetric] by simp
  moreover have "history_ok t4" using add_to_task_demand_samples(2) [OF a2] h2(3) by simp
  ultimately show ?thesis
    using update_task_demand_split [OF busy new meta_eq_to_obj_eq [OF W_def, symmetric] W(1) refl a1 h1(1) h2(1,2) a2] full by auto
qed

section \<open>Properties\<close>

text \<open>C23: For a task that is not idle and a sample that is not 0 (the function returns early otherwise)
  \<open>update_history\<close> refines the list of the last five samples: \<open>n\<close> windows with the sample \<open>r\<close> put
  \<open>r\<close> in front \<open>n\<close> times and keep five, the running sum starts again at 0, and the demand is the
  policy's value of that list, wherever the ring happens to start.\<close>

theorem walt_history_refines:
  assumes "history_ok t" "r \<noteq> 0" "\<not> is_idle_task p" "n \<noteq> 0" "lse_scale_demand_divisor w \<noteq> 0"
  shows "\<exists>t'. update_history w p r n t = Inr t' \<and> history_ok t' \<and> lts_sum t' = 0 \<and>
    samples t' = take RAVG_HIST_SIZE (replicate (nat n) r @ samples t) \<and>
    demand t' = history_demand (sched_window_stats_policy w) (samples t') r \<and>
    demand_scaled t' = ucast (ucast (demand t') div ucast (lse_scale_demand_divisor w) :: u64)"
  using update_history_samples [OF assms(1,3-5), of r] assms(2) by (auto simp: recorded_replicate)

theorem walt_history_refines_witness:
  "\<exists>t'. update_history (init_walt\<lparr>lse_scale_demand_divisor := 7812\<rparr>) (demo_task 1) 300 2 (demo_lts 1) = Inr t' \<and>
     samples t' = [300, 300, 0, 0, 0]"
proof -
  have ok: "history_ok (demo_lts 1)" by (simp add: history_ok_def demo_lts_def RAVG_HIST_SIZE_def)
  have s: "take RAVG_HIST_SIZE (replicate (nat 2) 300 @ samples (demo_lts 1)) = [300, 300, 0, 0, 0]"
    by (simp add: samples_def demo_lts_def RAVG_HIST_SIZE_def numeral_eq_Suc)
  have "300 \<noteq> (0 :: u32)" "\<not> is_idle_task (demo_task 1)" "(2 :: int) \<noteq> 0"
    "lse_scale_demand_divisor (init_walt\<lparr>lse_scale_demand_divisor := 7812\<rparr>) \<noteq> 0"
    by (simp_all add: demo_task_def)
  from walt_history_refines [OF ok this] show ?thesis unfolding s by blast
qed

text \<open>C19: The demand accounting neither loses nor invents execution time.  A busy task ran from its mark to
  \<open>wallclock\<close>, the CPU's window having been moved on to \<open>wallclock\<close>.  If that lies in one window, the
  whole stretch scaled to the CPU's capacity is added to the task's sum (up to the window's length)
  and nothing else changes.  If it spans \<open>n\<close> full windows, the running window is closed with the sum
  and the first part, \<open>n\<close> samples of a full scaled window follow, and the sum is the scaled last part;
  samples of 0 are not recorded.  What the function returns is the total of the parts, which is the
  whole stretch scaled at once up to at most \<open>n + 1\<close> nanoseconds of rounding.\<close>

theorem walt_demand_conserves:
  assumes "account_busy_for_task_demand rq p event"
    and "mark_start t \<le> wallclock" "window_start l \<le> wallclock"
    and "W = unat (lse_sched_ravg_window w)" "0 < W" "W < 2 ^ 31" "lse_scale_demand_divisor w \<noteq> 0"
    and "unat (wallclock - window_start l) < W" "unat (wallclock - mark_start t) < 2 ^ 54"
    and "unat (task_exec_scale l) \<le> 1024" "scaled = (\<lambda>x. x * unat (task_exec_scale l) div 1024)"
    and "history_ok t" "unat (lts_sum t) \<le> W"
    and "n = unat (window_start l - mark_start t) div W" "mark_start t < window_start l \<Longrightarrow> n < 2 ^ 31"
    and "first = unat (window_start l - mark_start t) mod W"
    and "last_part = unat (wallclock - window_start l)"
  shows "\<exists>r t'. update_task_demand w l rq p event wallclock t = Inr (r, t') \<and>
    (if mark_start t < window_start l
     then samples t' = take RAVG_HIST_SIZE (recorded (replicate n (word_of_nat (scaled W)) @
            [word_of_nat (min W (unat (lts_sum t) + scaled first))]) @ samples t) \<and>
          unat (lts_sum t') = scaled last_part \<and>
          unat r = scaled first + n * scaled W + scaled last_part \<and>
          unat r \<le> scaled (unat (wallclock - mark_start t)) \<and>
          scaled (unat (wallclock - mark_start t)) \<le> unat r + n + 1
     else t' = t\<lparr>lts_sum := word_of_nat (min W (unat (lts_sum t) + scaled (unat (wallclock - mark_start t))))\<rparr> \<and>
          unat r = scaled (unat (wallclock - mark_start t)))"
proof -
  have W: "lse_sched_ravg_window w \<noteq> 0" using assms(4,5) by auto
  obtain r t' where run: "update_task_demand w l rq p event wallclock t = Inr (r, t')"
    and r: "if mark_start t < window_start l
      then unat r = scaled first + n * scaled W + scaled last_part \<and>
        unat r \<le> scaled (unat (wallclock - mark_start t)) \<and>
        scaled (unat (wallclock - mark_start t)) \<le> unat r + n + 1
      else unat r = scaled (unat (wallclock - mark_start t))"
    using update_task_demand_conserves [OF assms(1-3) W assms(7,10,9)] assms(15)
    unfolding assms(4,11,14,16,17) by auto
  show ?thesis
  proof (cases "mark_start t < window_start l")
    case True
    then show ?thesis
      using update_task_demand_closes [OF assms(1) True W _ assms(7,10) _ assms(3) _ assms(12)] run r assms
      by (auto simp: u32_le_iff)
  next
    case False
    then have d: "unat (wallclock - mark_start t) < W"
      using assms(2,3,8) by (simp add: unat_u64_sub u64_less_iff u64_le_iff)
    obtain r2 t2 where a: "add_to_task_demand w l t (wallclock - mark_start t) = (r2, t2)" by force
    have t2: "t' = t2" "r = r2" using run False assms(1) a by (simp_all add: update_task_demand_def)
    have r2: "unat (scale_exec_time (wallclock - mark_start t) l) = scaled (unat (wallclock - mark_start t))"
      using r False add_to_task_demand_frame(7) [OF a] t2(2) by simp
    have "scaled (unat (wallclock - mark_start t)) \<le> unat (wallclock - mark_start t)"
      using scale_exec_time_le [OF assms(9,10)] r2 by simp
    then have "unat (lts_sum t2) = min W (unat (lts_sum t) + scaled (unat (wallclock - mark_start t)))"
      using add_to_task_demand_exact [OF a] r2 d assms(4,6,13) by simp
    moreover have "t2 = t\<lparr>lts_sum := lts_sum t2\<rparr>" using a by (auto simp: add_to_task_demand_def Let_def)
    ultimately have "t' = t\<lparr>lts_sum := word_of_nat (min W (unat (lts_sum t) + scaled (unat (wallclock - mark_start t))))\<rparr>"
      using t2(1) by (metis unat_inverse)
    then show ?thesis using run r False by simp
  qed
qed

text \<open>From 3 ms to 20 ms with a window of 8 ms that began at 19 ms: a sample of 8 ms for the window the
  task started in, one for the full window, and 1 ms in the sum.\<close>

theorem walt_demand_conserves_witness:
  "\<exists>r t'. update_task_demand (init_walt\<lparr>lse_scale_demand_divisor := 7812\<rparr>)
        (boot_lrq\<lparr>window_start := 19000000, task_exec_scale := 1024\<rparr>) (demo_rq 0 1) (demo_task 1)
        PUT_PREV_TASK 20000000 ((demo_lts 1)\<lparr>mark_start := 2000000\<rparr>) = Inr (r, t') \<and>
      samples t' = [8000000, 8000000, 1000000, 0, 0] \<and> lts_sum t' = 1000000"
proof -
  let ?w = "init_walt\<lparr>lse_scale_demand_divisor := 7812\<rparr>" and ?t = "(demo_lts 1)\<lparr>mark_start := 2000000\<rparr>"
  let ?l = "boot_lrq\<lparr>window_start := 19000000, task_exec_scale := 1024\<rparr>"
  have old: "samples ?t = [0, 0, 0, 0, 0]" by (simp add: samples_def demo_lts_def RAVG_HIST_SIZE_def numeral_eq_Suc)
  have new: "take RAVG_HIST_SIZE (recorded (replicate 2 8000000 @ [1000000]) @ samples ?t) = [8000000, 8000000, 1000000, 0, 0]"
  proof -
    have two: "replicate 2 x = [x, x]" for x :: u32 by (simp add: numeral_2_eq_2)
    have "recorded (replicate 2 8000000 @ [1000000]) = [8000000, 8000000, 1000000]"
      unfolding two by (simp add: recorded_def)
    then show ?thesis unfolding old by (simp only: RAVG_HIST_SIZE_def append.simps take_Cons_numeral) simp
  qed
  have ok: "history_ok ?t" by (simp add: history_ok_def demo_lts_def RAVG_HIST_SIZE_def)
  define sc :: "nat \<Rightarrow> nat" where "sc = (\<lambda>x. x * 1024 div 1024)"
  have sc: "sc x = x" for x by (simp add: sc_def)
  have mark: "mark_start ?t = 2000000" "window_start ?l = 19000000" "lts_sum ?t = 0" "unat (task_exec_scale ?l) = 1024"
    "lse_sched_ravg_window ?w = 8000000" "lse_scale_demand_divisor ?w = 7812"
    by (simp_all add: demo_lts_def init_walt_def DEFAULT_SCHED_RAVG_WINDOW_def)
  have "account_busy_for_task_demand (demo_rq 0 1) (demo_task 1) PUT_PREV_TASK"
    by (simp add: account_busy_for_task_demand_def demo_task_def)
  then have "\<exists>r t'. update_task_demand ?w ?l (demo_rq 0 1) (demo_task 1) PUT_PREV_TASK 20000000 ?t = Inr (r, t') \<and>
    (if mark_start ?t < window_start ?l
     then samples t' = take RAVG_HIST_SIZE (recorded (replicate 2 (word_of_nat (sc 8000000)) @
            [word_of_nat (min 8000000 (unat (lts_sum ?t) + sc 1000000))]) @ samples ?t) \<and>
          unat (lts_sum t') = sc 1000000 \<and> unat r = sc 1000000 + 2 * sc 8000000 + sc 1000000 \<and>
          unat r \<le> sc (unat (20000000 - mark_start ?t)) \<and> sc (unat (20000000 - mark_start ?t)) \<le> unat r + 2 + 1
     else t' = ?t\<lparr>lts_sum := word_of_nat (min 8000000 (unat (lts_sum ?t) + sc (unat (20000000 - mark_start ?t))))\<rparr> \<and>
          unat r = sc (unat (20000000 - mark_start ?t)))"
    by (rule walt_demand_conserves [OF _ _ _ _ _ _ _ _ _ _ _ ok]) (simp_all only: mark sc_def, simp_all)
  then obtain r t' where "update_task_demand ?w ?l (demo_rq 0 1) (demo_task 1) PUT_PREV_TASK 20000000 ?t = Inr (r, t')"
    "samples t' = take RAVG_HIST_SIZE (recorded (replicate 2 8000000 @ [1000000]) @ samples ?t)" "unat (lts_sum t') = 1000000"
    unfolding mark sc by auto
  moreover from this(3) have "lts_sum t' = 1000000" by (metis unat_inverse of_nat_numeral)
  ultimately show ?thesis unfolding new by blast
qed

end
