(* ===== verification/Lse_Trace.thy ===== *)
theory Lse_Trace
  imports Lse_Window Lse_Text
begin

text \<open>
  \<open>trace_lse.h\<close>: the two trace events, what each stores when its trace point is hit
  (\<open>TP_fast_assign\<close>), and the line it prints (\<open>TP_printk\<close>); with the places of
  \<open>lse_util_track.c\<close> that hit them.  A task's \<open>comm\<close> and \<open>pid\<close> are arguments.  The lines can be read
  back, whatever characters \<open>comm\<close> holds (\<open>trace_history_roundtrip\<close>).
\<close>

section \<open>The entries\<close>

record update_history_entry =
  te_comm :: string
  te_pid :: int
  te_runtime :: u32
  te_samples :: int
  te_event :: int
  te_demand :: u32
  te_hist :: "u32 list"
  te_task_util :: u16
  te_cpu :: nat

record run_window_rollover_entry =
  tw_old_window_start :: u64
  tw_new_window_start :: u64
  tw_cpu :: nat

text \<open>The values of \<open>enum task_event\<close>.\<close>

fun task_event_code :: "task_event \<Rightarrow> int" where
  "task_event_code PUT_PREV_TASK = 0"
| "task_event_code PICK_NEXT_TASK = 1"
| "task_event_code TASK_WAKE = 2"
| "task_event_code TASK_MIGRATE = 3"
| "task_event_code TASK_UPDATE = 4"
| "task_event_code IRQ_UPDATE = 5"

definition trace_lse_update_history ::
  "lse_task_struct \<Rightarrow> rq \<Rightarrow> string \<Rightarrow> int \<Rightarrow> u32 \<Rightarrow> int \<Rightarrow> task_event \<Rightarrow> update_history_entry" where
  "trace_lse_update_history lts rq comm pid runtime samples event =
     \<lparr>te_comm = comm, te_pid = pid, te_runtime = runtime, te_samples = samples,
      te_event = task_event_code event, te_demand = demand lts,
      te_hist = take RAVG_HIST_SIZE (sum_history lts), te_task_util = demand_scaled lts, te_cpu = rq_cpu rq\<rparr>"

definition trace_lse_run_window_rollover :: "u64 \<Rightarrow> u64 \<Rightarrow> nat \<Rightarrow> run_window_rollover_entry" where
  "trace_lse_run_window_rollover old_window_start new_window_start this_cpu =
     \<lparr>tw_old_window_start = old_window_start, tw_new_window_start = new_window_start, tw_cpu = this_cpu\<rparr>"

section \<open>Where the trace points are hit\<close>

text \<open>The label \<open>done\<close> of \<open>update_history\<close>: every call is traced, with the number of samples it was
  given.\<close>

definition update_history_traced ::
  "walt \<Rightarrow> task_struct \<Rightarrow> rq \<Rightarrow> string \<Rightarrow> int \<Rightarrow> u32 \<Rightarrow> int \<Rightarrow> task_event \<Rightarrow> lse_task_struct
    \<Rightarrow> fault + (lse_task_struct \<times> update_history_entry)" where
  "update_history_traced w p rq comm pid runtime samples event t =
     ebind (update_history w p runtime samples t) (\<lambda>t.
     Inr (t, trace_lse_update_history t rq comm pid runtime samples event))"

text \<open>\<open>lse_window_rollover_run_once\<close> traces when it has won the election.\<close>

definition run_once_trace :: "nat \<Rightarrow> u64 \<Rightarrow> lse_rq \<Rightarrow> walt \<Rightarrow> run_window_rollover_entry option" where
  "run_once_trace this_cpu old_window_start l w =
     (if old_window_start = window_start l \<or> lse_run_rollover_lastq_ws w \<noteq> old_window_start then None
      else Some (trace_lse_run_window_rollover old_window_start (window_start l) this_cpu))"

section \<open>The lines\<close>

text \<open>Numbers, each followed by the text up to the next one.\<close>

definition numbers_text :: "(int \<times> string) list \<Rightarrow> string" where
  "numbers_text xs = concat (map (\<lambda>(v, sep). dec_int v @ sep) xs)"

definition hist_args :: "update_history_entry \<Rightarrow> (int \<times> string) list" where
  "hist_args e =
     [(te_pid e, '']: runtime ''), (uint (te_runtime e), '' samples ''), (te_samples e, '' event ''),
      (te_event e, '' demand ''), (uint (te_demand e), '' (hist: ''), (uint (te_hist e ! 0), '' ''),
      (uint (te_hist e ! 1), '' ''), (uint (te_hist e ! 2), '' ''), (uint (te_hist e ! 3), '' ''),
      (uint (te_hist e ! 4), '') task_util ''), (uint (te_task_util e), '' cpu '')]"

definition print_update_history :: "update_history_entry \<Rightarrow> string" where
  "print_update_history e =
     ''comm='' @ te_comm e @ ''['' @ numbers_text (hist_args e) @ dec_int (int (te_cpu e))"

definition print_run_window_rollover :: "run_window_rollover_entry \<Rightarrow> string" where
  "print_run_window_rollover e =
     ''old_window_start='' @ numbers_text
       [(uint (tw_old_window_start e), '' new_window_start=''), (uint (tw_new_window_start e), '' cpu='')]
     @ dec_int (int (tw_cpu e))"

text \<open>The two counters for systrace, in a buffer of 256 characters.\<close>

definition window_rollover_systrace_text :: "walt \<Rightarrow> string" where
  "window_rollover_systrace_text w =
     scnprintf 256 (''C|9999|lse_window_rollover|'' @ dec_int (uint (window_count w mod 2)) @ [CHR 0x0A])"

definition cpu_util_systrace_text :: "nat \<Rightarrow> lse_rq \<Rightarrow> string" where
  "cpu_util_systrace_text cpu l =
     scnprintf 256 (''C|9999|Cpu'' @ dec_int (int cpu) @ ''_util|'' @ dec_int (uint (lse_cpu_util l)) @ [CHR 0x0A])"

section \<open>Reading a line\<close>

definition numeric :: "char \<Rightarrow> bool" where
  "numeric c \<longleftrightarrow> c = CHR ''-'' \<or> digit_value c \<noteq> None"

function ints_of :: "string \<Rightarrow> int option list" where
  "ints_of [] = []"
| "ints_of (c # cs) =
     (if numeric c then read_int (takeWhile numeric (c # cs)) # ints_of (dropWhile numeric (c # cs)) else ints_of cs)"
  by pat_completeness auto
termination
  by (relation "measure length") (auto simp: le_imp_less_Suc length_dropWhile_le)

declare ints_of.simps(2) [simp del]

text \<open>The name is everything up to the last opening bracket.\<close>

definition read_update_history :: "string \<Rightarrow> string \<times> int option list" where
  "read_update_history s =
     (let tail_rev = takeWhile (\<lambda>c. c \<noteq> CHR ''['') (rev s);
          front_rev = drop 1 (dropWhile (\<lambda>c. c \<noteq> CHR ''['') (rev s))
      in (drop 5 (rev front_rev), ints_of (rev tail_rev)))"

lemma numeric_dec: "c \<in> set (dec_int i) \<Longrightarrow> numeric c"
proof -
  have "c \<in> set (dec_nat n) \<Longrightarrow> numeric c" for n
  proof -
    assume "c \<in> set (dec_nat n)"
    then obtain d where "d < 10" "c = digit d" using dec_nat_chars by blast
    then show ?thesis by (simp add: numeric_def)
  qed
  then show "c \<in> set (dec_int i) \<Longrightarrow> ?thesis" by (auto simp: dec_int_def numeric_def split: if_splits)
qed

lemma dec_int_nonempty: "dec_int i \<noteq> []"
  by (simp add: dec_int_def)

lemma ints_of_skip: "(\<And>c. c \<in> set s \<Longrightarrow> \<not> numeric c) \<Longrightarrow> ints_of (s @ r) = ints_of r"
  by (induction s) (simp_all add: ints_of.simps)

lemma ints_of_number:
  assumes "r = [] \<or> \<not> numeric (hd r)" shows "ints_of (dec_int i @ r) = Some i # ints_of r"
proof -
  obtain c cs where c: "dec_int i = c # cs" using dec_int_nonempty by (meson neq_Nil_conv)
  have "takeWhile numeric (dec_int i @ r) = dec_int i" "dropWhile numeric (dec_int i @ r) = r"
    using numeric_dec [of _ i] assms by (cases r; simp add: takeWhile_append2 dropWhile_append2)+
  moreover have "ints_of ((c # cs) @ r) = read_int (takeWhile numeric ((c # cs) @ r)) # ints_of (dropWhile numeric ((c # cs) @ r))"
    using numeric_dec [of c i] by (simp only: c append_Cons ints_of.simps(2) list.set_intros simp_thms if_True)
  ultimately show ?thesis by (simp only: c read_dec_int [of i, unfolded c])
qed

text \<open>Separators hold no digit and no minus sign.\<close>

definition seps_ok :: "(int \<times> string) list \<Rightarrow> bool" where
  "seps_ok xs \<longleftrightarrow> (\<forall>(v, sep) \<in> set xs. sep \<noteq> [] \<and> list_all (\<lambda>c. \<not> numeric c) sep)"

lemma ints_of_numbers:
  "seps_ok xs \<Longrightarrow> ints_of (numbers_text xs @ dec_int v) = map (\<lambda>(v, sep). Some v) xs @ [Some v]"
proof (induction xs)
  case Nil
  then show ?case using ints_of_number [of "[]" v] by (simp add: numbers_text_def)
next
  case (Cons x xs)
  obtain u sep where x: "x = (u, sep)" by fastforce
  have sep: "sep \<noteq> []" "\<And>c. c \<in> set sep \<Longrightarrow> \<not> numeric c" using Cons.prems by (auto simp: seps_ok_def x list_all_iff)
  have "ints_of (dec_int u @ sep @ numbers_text xs @ dec_int v) = Some u # ints_of (sep @ numbers_text xs @ dec_int v)"
    using sep by (intro ints_of_number) (cases sep; simp)
  also have "ints_of (sep @ numbers_text xs @ dec_int v) = ints_of (numbers_text xs @ dec_int v)"
    by (rule ints_of_skip) (rule sep(2))
  finally show ?case using Cons by (simp add: numbers_text_def x seps_ok_def)
qed

lemma numbers_text_chars:
  "c \<in> set (numbers_text xs) \<Longrightarrow> numeric c \<or> (\<exists>(v, sep) \<in> set xs. c \<in> set sep)"
  using numeric_dec by (auto simp: numbers_text_def)

lemma hist_args_seps: "seps_ok (hist_args e)"
  by (simp add: seps_ok_def hist_args_def numeric_def digit_value_def)

lemma read_print_history:
  "read_update_history (print_update_history e) =
     (te_comm e, map (\<lambda>(v, sep). Some v) (hist_args e) @ [Some (int (te_cpu e))])"
proof -
  let ?tail = "numbers_text (hist_args e) @ dec_int (int (te_cpu e))"
  have br: "\<not> numeric (CHR ''['')" by (simp add: numeric_def digit_value_def)
  have "CHR ''['' \<notin> set (numbers_text (hist_args e))"
  proof
    assume "CHR ''['' \<in> set (numbers_text (hist_args e))"
    then have "\<exists>(v, sep) \<in> set (hist_args e). CHR ''['' \<in> set sep" using numbers_text_chars br by blast
    then show False by (simp add: hist_args_def)
  qed
  then have "\<And>c. c \<in> set (rev ?tail) \<Longrightarrow> c \<noteq> CHR ''[''" using numeric_dec br by auto
  moreover have "rev (print_update_history e) = rev ?tail @ CHR ''['' # rev (''comm='' @ te_comm e)"
    by (simp add: print_update_history_def)
  ultimately have "takeWhile (\<lambda>c. c \<noteq> CHR ''['') (rev (print_update_history e)) = rev ?tail"
    "dropWhile (\<lambda>c. c \<noteq> CHR ''['') (rev (print_update_history e)) = CHR ''['' # rev (''comm='' @ te_comm e)"
    by (simp_all only: takeWhile_append2 dropWhile_append2 takeWhile.simps dropWhile.simps simp_thms if_False append_Nil2)
  then show ?thesis
    by (simp only: read_update_history_def Let_def rev_rev_ident ints_of_numbers [OF hist_args_seps]) simp
qed

section \<open>Properties\<close>

lemma read_rollover_line:
  "ints_of (print_run_window_rollover e) =
     [Some (uint (tw_old_window_start e)), Some (uint (tw_new_window_start e)), Some (int (tw_cpu e))]"
proof -
  have "seps_ok [(uint (tw_old_window_start e), '' new_window_start=''), (uint (tw_new_window_start e), '' cpu='')]"
    by (simp add: seps_ok_def numeric_def digit_value_def)
  note nums = ints_of_numbers [OF this, of "int (tw_cpu e)"]
  have "ints_of (print_run_window_rollover e) = ints_of (numbers_text
      [(uint (tw_old_window_start e), '' new_window_start=''), (uint (tw_new_window_start e), '' cpu='')] @ dec_int (int (tw_cpu e)))"
    unfolding print_run_window_rollover_def by (rule ints_of_skip) (auto simp: numeric_def digit_value_def)
  then show ?thesis using nums by simp
qed

lemma update_history_shape: "update_history w p r n t = Inr t' \<Longrightarrow> history_ok t \<Longrightarrow> history_ok t'"
proof -
  have "history_ok (t'\<lparr>lts_sum := a, demand := b, demand_scaled := c\<rparr>) = history_ok t'" for t' :: lse_task_struct and a b c
    by (simp add: history_ok_def)
  moreover have "history_ok (t'\<lparr>lts_sum := a\<rparr>) = history_ok t'" for t' :: lse_task_struct and a
    by (simp add: history_ok_def)
  ultimately show "update_history w p r n t = Inr t' \<Longrightarrow> history_ok t \<Longrightarrow> ?thesis"
    using push_samples_ok [of t "nat n" r]
    by (auto simp: update_history_def Let_def ebind_eq_Inr history_ok_def split: if_splits)
qed

text \<open>C27: The line that the trace point of \<open>update_history\<close> prints can be read back, whatever the task is
  called: the name is what stands before the last opening bracket, and the numbers after it are the
  arguments of the call and, of the task as the call leaves it, the demand, the five samples of the
  history and the scaled demand.\<close>

theorem trace_history_roundtrip:
  assumes "history_ok t" "update_history_traced w p rq comm pid runtime samples event t = Inr (t', e)"
  shows "\<exists>h0 h1 h2 h3 h4. sum_history t' = [h0, h1, h2, h3, h4] \<and>
    update_history w p runtime samples t = Inr t' \<and>
    read_update_history (print_update_history e) =
      (comm, [Some pid, Some (uint runtime), Some samples, Some (task_event_code event), Some (uint (demand t')),
        Some (uint h0), Some (uint h1), Some (uint h2), Some (uint h3), Some (uint h4),
        Some (uint (demand_scaled t')), Some (int (rq_cpu rq))])"
proof -
  have e: "update_history w p runtime samples t = Inr t'" "e = trace_lse_update_history t' rq comm pid runtime samples event"
    using assms(2) by (auto simp: update_history_traced_def ebind_eq_Inr)
  have "length (sum_history t') = 5" using update_history_shape [OF e(1) assms(1)] by (simp add: history_ok_def RAVG_HIST_SIZE_def)
  then obtain h0 h1 h2 h3 h4 where h: "sum_history t' = [h0, h1, h2, h3, h4]"
    by (auto simp: numeral_eq_Suc length_Suc_conv)
  show ?thesis
    using e(1) h by (intro exI [of _ h0] exI [of _ h1] exI [of _ h2] exI [of _ h3] exI [of _ h4])
      (simp add: e(2) read_print_history hist_args_def trace_lse_update_history_def RAVG_HIST_SIZE_def)
qed

text \<open>A task with brackets and digits in its name.\<close>

theorem trace_history_roundtrip_witness:
  "\<exists>t' e. update_history_traced (init_walt\<lparr>lse_scale_demand_divisor := 7812\<rparr>) (demo_task 1) (demo_rq 2 1) ''kworker[3]: 7''
      42 0 1 TASK_UPDATE (demo_lts 1) = Inr (t', e) \<and>
    fst (read_update_history (print_update_history e)) = ''kworker[3]: 7''"
proof -
  let ?w = "init_walt\<lparr>lse_scale_demand_divisor := 7812\<rparr>"
  obtain t' e where run: "update_history_traced ?w (demo_task 1) (demo_rq 2 1) ''kworker[3]: 7'' 42 0 1 TASK_UPDATE (demo_lts 1) = Inr (t', e)"
    by (simp add: update_history_traced_def update_history_def)
  have "history_ok (demo_lts 1)" by (simp add: history_ok_def demo_lts_def RAVG_HIST_SIZE_def)
  from trace_history_roundtrip [OF this run] run show ?thesis by auto
qed

text \<open>The roll-over event is traced exactly by the CPU that wins the election, with the window it leaves
  and the one it enters, and its line can be read back.\<close>

theorem trace_rollover_once:
  "case run_once_trace c old l w of
     None \<Rightarrow> lse_window_rollover_run_once k c old l (w, m) = (w, m)
   | Some e \<Rightarrow> lse_run_rollover_lastq_ws (fst (lse_window_rollover_run_once k c old l (w, m))) = window_start l \<and>
       lse_run_rollover_lastq_ws w = old \<and>
       ints_of (print_run_window_rollover e) = [Some (uint old), Some (uint (window_start l)), Some (int c)]"
  by (auto simp: run_once_trace_def lse_window_rollover_run_once_def Let_def irq_work_queue_def
      window_rollover_systrace_c_def read_rollover_line trace_lse_run_window_rollover_def split: option.split)

end
