(* ===== verification/Lse_Rollover.thy ===== *)
theory Lse_Rollover
  imports Lse_Module
begin

text \<open>
  The election of the CPU that queues the roll-over work, over whole runs of the module.
  \<open>lse_window_rollover_run_once\<close> elects the CPU whose old window is the one last elected
  (\<open>lse_run_rollover_lastq_ws\<close>), and \<open>lse_irq_work\<close> moves the window of its own CPU only.  So after
  the first tick some CPU always stands at the last elected window, a leader, and its next roll over
  queues the work (\<open>rollover_resumes\<close>); but a CPU that is ahead of the last elected window is never
  elected again until a CPU that is not ahead rolls over (\<open>rollover_starves\<close>).
\<close>

section \<open>What one update does to the election\<close>

text \<open>\<open>a\<close> and \<open>a'\<close> are the start of a CPU's window before and after: either the election is left
  alone, or the CPU was not ahead, has moved, is the last elected now, and the work is pending.\<close>

definition rolls :: "walt \<Rightarrow> u64 \<Rightarrow> walt \<Rightarrow> u64 \<Rightarrow> bool" where
  "rolls w a w' a' \<longleftrightarrow> a \<le> a' \<and>
     (lse_run_rollover_lastq_ws w' = lse_run_rollover_lastq_ws w \<and>
        lse_slim_walt_irq_work w' = lse_slim_walt_irq_work w \<and>
        (a = lse_run_rollover_lastq_ws w \<longrightarrow> a' = a) \<or>
      a \<le> lse_run_rollover_lastq_ws w \<and> lse_run_rollover_lastq_ws w < a' \<and> lse_run_rollover_lastq_ws w' = a' \<and>
        lse_slim_walt_irq_work w' \<noteq> None)"

lemma rolls_refl: "rolls w a w a"
  by (simp add: rolls_def)

lemma rolls_trans: "rolls w a w1 b \<Longrightarrow> rolls w1 b w2 c \<Longrightarrow> rolls w a w2 c"
  by (auto simp: rolls_def)

definition election :: "walt \<Rightarrow> u64 \<times> nat option" where
  "election w = (lse_run_rollover_lastq_ws w, lse_slim_walt_irq_work w)"

lemma rolls_cong:
  assumes "rolls w a w' a'" "election v = election w" "election v' = election w'"
  shows "rolls v a v' a'"
  using assms by (simp add: rolls_def election_def)

lemma run_once_rolls:
  assumes "old \<le> window_start l"
  shows "rolls (fst wm) old (fst (lse_window_rollover_run_once k c old l wm)) (window_start l)"
  using assms
  by (cases wm) (auto simp: lse_window_rollover_run_once_def Let_def irq_work_queue_def
      window_rollover_systrace_c_def rolls_def)

lemma busy_time_election: "election (fst (update_cpu_busy_time rq p e wc t wl)) = election (fst wl)"
  by (cases wl) (simp add: update_cpu_busy_time_def Let_def cpu_util_update_systrace_c_def election_def)

lemma ravg_account_election:
  "ravg_account k pol rq p e wc r = Inr r' \<Longrightarrow> election (rv_walt r') = election (rv_walt r)"
  by (auto simp: ravg_account_def Let_def ebind_eq_Inr update_task_rq_cpu_cycles_def case_prod_unfold
      busy_time_election)

lemma ravg_done_rolls:
  assumes "ravg_done k c old wc r = Inr r'" "old \<le> window_start (rv_lrq r)"
  shows "rolls (rv_walt r) old (rv_walt r') (window_start (rv_lrq r'))"
  using assms run_once_rolls [of old "rv_lrq r" "(rv_walt r, rv_mon r)" k c]
  by (auto simp: ravg_done_def Let_def ebind_eq_Inr case_prod_unfold)

text \<open>The middle of the function, between the move of the window and the label \<open>done\<close>.\<close>

lemma ravg_split:
  assumes run: "lse_update_task_ravg k ctrl c pol rq p e wc r = Inr r'"
    and live: "ctrl \<noteq> 0" "window_start (rv_lrq r) \<noteq> 0" "mark_start (rv_lts r) \<noteq> wc"
  obtains l r2 where "update_window_start (rv_walt r) wc (rv_lrq r) = Inr (window_start (rv_lrq r), l)"
    and "election (rv_walt r2) = election (rv_walt r)" "window_start (rv_lrq r2) = window_start l"
    and "ravg_done k c (window_start (rv_lrq r)) wc r2 = Inr r'"
proof -
  let ?t = "lse_refresh_task_hint (rv_walt r) p (rv_lts r)"
  have t: "mark_start ?t = mark_start (rv_lts r)" by (simp add: lse_refresh_task_hint_def Let_def)
  obtain old l where l: "update_window_start (rv_walt r) wc (rv_lrq r) = Inr (old, l)"
    using run live t by (auto simp: lse_update_task_ravg_def Let_def ebind_eq_Inr)
  have old: "old = window_start (rv_lrq r)"
    using l by (auto simp: update_window_start_def Let_def ebind_eq_Inr case_prod_unfold split: if_splits)
  let ?t1 = "if lts_window_start ?t = 0 then ?t\<lparr>lts_window_start := window_start l\<rparr> else ?t"
  let ?r1 = "r\<lparr>rv_lts := ?t1, rv_lrq := l\<rparr>"
  show ?thesis
  proof (cases "mark_start ?t = 0")
    case True
    then have "ravg_done k c old wc ?r1 = Inr r'"
      using run live l t by (cases "lts_window_start ?t = 0") (auto simp: lse_update_task_ravg_def Let_def ebind_eq_Inr)
    then show ?thesis using that [of l ?r1] l old by simp
  next
    case False
    have "ebind (ravg_account k pol rq p e wc ?r1) (ravg_done k c old wc) = Inr r'"
      using run live l t False
      by (cases "lts_window_start ?t = 0")
        (auto simp: lse_update_task_ravg_def ravg_account_def Let_def ebind_eq_Inr case_prod_unfold)
    then obtain r2 where r2: "ravg_account k pol rq p e wc ?r1 = Inr r2" "ravg_done k c old wc r2 = Inr r'"
      by (auto simp: ebind_eq_Inr)
    have "window_start (rv_lrq r2) = window_start l" "election (rv_walt r2) = election (rv_walt r)"
      using ravg_account_keeps [OF r2(1)] ravg_account_election [OF r2(1)] by simp_all
    then show ?thesis using that [of l r2] l old r2(2) by simp
  qed
qed

lemma ravg_rolls:
  assumes run: "lse_update_task_ravg k ctrl c pol rq p e wc r = Inr r'"
    and rd: "reading_ok W wc (rv_lrq r)" "lse_sched_ravg_window (rv_walt r) = W" "W \<noteq> 0"
  shows "rolls (rv_walt r) (window_start (rv_lrq r)) (rv_walt r') (window_start (rv_lrq r'))"
proof (cases "ctrl = 0 \<or> window_start (rv_lrq r) = 0 \<or> mark_start (rv_lts r) = wc")
  case True
  then have "rv_walt r' = rv_walt r \<and> rv_lrq r' = rv_lrq r"
    using run by (auto simp: lse_update_task_ravg_def Let_def lse_refresh_task_hint_def split: if_splits)
  then show ?thesis by (simp add: rolls_refl)
next
  case False
  then obtain l r2 where l: "update_window_start (rv_walt r) wc (rv_lrq r) = Inr (window_start (rv_lrq r), l)"
    and r2: "election (rv_walt r2) = election (rv_walt r)" "window_start (rv_lrq r2) = window_start l"
      "ravg_done k c (window_start (rv_lrq r)) wc r2 = Inr r'"
    using run by (blast elim: ravg_split)
  have "window_start (rv_lrq r) \<le> window_start (rv_lrq r2)"
    using window_start_moves [OF l rd] r2(2) by simp
  from ravg_done_rolls [OF r2(3) this] show ?thesis by (rule rolls_cong) (simp_all add: r2(1))
qed

text \<open>A window that has passed is left.\<close>

lemma ravg_leaves_window:
  assumes run: "lse_update_task_ravg k ctrl c pol rq p e wc r = Inr r'"
    and rd: "reading_ok W wc (rv_lrq r)" "lse_sched_ravg_window (rv_walt r) = W" "W \<noteq> 0"
    and live: "ctrl \<noteq> 0" "window_start (rv_lrq r) \<noteq> 0" "mark_start (rv_lts r) \<noteq> wc"
    and late: "unat W \<le> unat (wc - window_start (rv_lrq r))"
  shows "window_start (rv_lrq r') \<noteq> window_start (rv_lrq r)"
proof -
  let ?l = "rv_lrq r"
  let ?n = "unat (wc - window_start ?l) div unat W"
  obtain l r2 where l: "update_window_start (rv_walt r) wc ?l = Inr (window_start ?l, l)"
    and r2: "window_start (rv_lrq r2) = window_start l" "ravg_done k c (window_start ?l) wc r2 = Inr r'"
    using run live by (blast elim: ravg_split)
  have same: "rv_lrq r' = rv_lrq r2" using r2(2) ravg_done_keeps by blast
  have W: "0 < unat W" using rd(3) by (simp add: unat_gt_0)
  then have n: "?n \<noteq> 0" using late by (simp add: div_eq_0_iff)
  have "window_start l = window_start ?l + word_of_nat ?n * ucast W"
    using update_window_start_eq [of "rv_walt r" ?l wc] rd n l by (auto simp: reading_ok_def)
  then have "unat (window_start l) = unat (window_start ?l) + ?n * unat W"
    using window_advance(1) [of "window_start ?l" wc W] rd by (simp add: reading_ok_def)
  moreover have "0 < ?n * unat W" using n W by simp
  ultimately show ?thesis using same r2(1) by auto
qed

section \<open>What one step of the module does to it\<close>

definition window_of :: "lse \<Rightarrow> nat \<Rightarrow> u64" where
  "window_of s cpu = window_start (sys_lrq s cpu)"

definition lastq :: "lse \<Rightarrow> u64" where
  "lastq s = lse_run_rollover_lastq_ws (sys_walt s)"

definition work_pending :: "lse \<Rightarrow> nat option" where
  "work_pending s = lse_slim_walt_irq_work (sys_walt s)"

definition cpu_rolls :: "nat \<Rightarrow> lse \<Rightarrow> lse \<Rightarrow> bool" where
  "cpu_rolls c s s' \<longleftrightarrow> (\<forall>cpu. cpu \<noteq> c \<longrightarrow> window_of s' cpu = window_of s cpu) \<and>
     rolls (sys_walt s) (window_of s c) (sys_walt s') (window_of s' c)"

text \<open>Everything else leaves windows and election alone.\<close>

definition windows_view :: "lse \<Rightarrow> (nat \<Rightarrow> u64) \<times> (u64 \<times> nat option) \<times> u64" where
  "windows_view s = (window_of s, election (sys_walt s), tick_sched_clock (sys_walt s))"

lemma cpu_rolls_refl: "windows_view s' = windows_view s \<Longrightarrow> cpu_rolls c s s'"
  using rolls_cong [OF rolls_refl [of "sys_walt s"]] by (simp add: windows_view_def cpu_rolls_def)

lemma cpu_rolls_trans: "cpu_rolls c s s1 \<Longrightarrow> cpu_rolls c s1 s2 \<Longrightarrow> cpu_rolls c s s2"
  by (auto simp: cpu_rolls_def intro: rolls_trans)

lemma cpu_rolls_view:
  assumes "cpu_rolls c s s'" "windows_view t = windows_view s" "windows_view t' = windows_view s'"
  shows "cpu_rolls c t t'"
  using cpu_rolls_trans [OF cpu_rolls_trans [OF cpu_rolls_refl assms(1)] cpu_rolls_refl] assms(2,3) by metis

lemma sys_update_rolls:
  assumes run: "sys_update_task_ravg k here rq p e wc lts s = Inr s'"
    and rd: "reading_ok W wc (sys_lrq s (rq_cpu rq))" "lse_sched_ravg_window (sys_walt s) = W" "W \<noteq> 0"
  shows "cpu_rolls (rq_cpu rq) s s'"
proof -
  let ?r = "\<lparr>rv_walt = sys_walt s, rv_mon = sys_mon s, rv_lts = lts, rv_lrq = sys_lrq s (rq_cpu rq)\<rparr>"
  obtain r where r: "lse_update_task_ravg k (slim_walt_ctrl s) here (cpu_policy s (rq_cpu rq)) rq p e wc ?r = Inr r"
    and s': "s' = set_sys_lrq ((sys_lrq s)(rq_cpu rq := rv_lrq r))
      (s\<lparr>sys_walt := rv_walt r, sys_mon := rv_mon r, sys_lts := (sys_lts s)(ts_id p \<mapsto> rv_lts r)\<rparr>)"
    using run by (auto simp: sys_update_task_ravg_def ebind_eq_Inr)
  have "rolls (sys_walt s) (window_of s (rq_cpu rq)) (rv_walt r) (window_start (rv_lrq r))"
    using ravg_rolls [OF r, of W] rd by (simp add: window_of_def)
  then show ?thesis by (simp add: s' cpu_rolls_def window_of_def)
qed

lemma track_task_rolls:
  assumes run: "track_task k he p e (s, rq) = Inr (s', rq')"
    and rd: "reading_ok W (hook_clock he rq s) (sys_lrq s (rq_cpu rq))"
    and core: "core_ok k W B S s" and rq: "rq_locked rq"
  shows "cpu_rolls (rq_cpu rq) s s'"
proof (cases "sys_lts s (ts_id p)")
  case None
  then have "s' = s" using run by (simp add: track_task_def)
  then show ?thesis by (simp add: cpu_rolls_refl)
next
  case (Some lts)
  have W: "lse_sched_ravg_window (sys_walt s) = W" "W \<noteq> 0" using core by (auto simp: core_ok_def walt_ok_def)
  have clock: "lse_rq_clock (sys_clock s) d (he_rq_clock he) (sys_lrq s (rq_cpu rq)) rq =
      Inr (hook_clock he rq s, rq_fresh he rq)" for d
    using lse_rq_clock_locked [of "sys_clock s" rq] core rq by (simp add: core_ok_def hook_clock_def)
  have "sys_update_task_ravg k (he_here he) (rq_fresh he rq) p e (hook_clock he rq s) lts s = Inr s'"
    using run Some by (auto simp: track_task_def clock ebind_eq_Inr)
  from sys_update_rolls [OF this] rd W show ?thesis by simp
qed

lemma lse_schedule_rolls:
  assumes ok: "sys_ok k W B S b cur s" and k: "kernel_ok k" and at: "hook_at k W he cur rq s"
    and prev: "ts_id prev = cur (rq_cpu rq)" and run: "lse_schedule k he prev n rq s = Inr s'"
  shows "cpu_rolls (rq_cpu rq) s s'" and "tick_sched_clock (sys_walt s') = tick_sched_clock (sys_walt s)"
proof -
  note at' = at [unfolded hook_at_def]
  have core: "core_ok k W B S s" and cur: "current_ok k cur s" using ok by (simp_all add: sys_ok_def)
  have rd: "reading_ok W (hook_clock he rq s) (sys_lrq s (rq_cpu rq))" using at' by blast
  obtain s2 rq2 where s2: "(if ts_id prev \<noteq> ts_id n
      then ebind (track_task k he prev PUT_PREV_TASK (s, rq)) (track_task k he n PICK_NEXT_TASK)
      else track_task k he prev TASK_UPDATE (s, rq)) = Inr (s2, rq2)"
    and s': "windows_view s' = windows_view s2"
    using run core by (auto simp: lse_schedule_def core_ok_def ebind_eq_Inr Let_def case_prod_unfold windows_view_def
        window_of_def sys_lrq_def fun_eq_iff)
  have "cpu_rolls (rq_cpu rq) s s2 \<and> tick_sched_clock (sys_walt s2) = tick_sched_clock (sys_walt s)"
  proof (cases "ts_id prev = ts_id n")
    case True
    then have run1: "track_task k he prev TASK_UPDATE (s, rq) = Inr (s2, rq2)" using s2 by simp
    then have "tracked W (hook_clock he rq s) rq prev s s2"
      using track_current_ok [OF core cur k at prev, of TASK_UPDATE] by auto
    then show ?thesis using track_task_rolls [OF run1 rd core] at'
      by (auto simp: tracked_def updated_def walt_fixed_def split: option.splits)
  next
    case False
    then obtain s1 rq1 where s1: "track_task k he prev PUT_PREV_TASK (s, rq) = Inr (s1, rq1)"
      "track_task k he n PICK_NEXT_TASK (s1, rq1) = Inr (s2, rq2)" using s2 by (auto simp: ebind_eq_Inr)
    then have t: "core_ok k W B S s1" "tracked W (hook_clock he rq s) rq prev s s1" "rq1 = rq \<or> rq1 = rq_fresh he rq"
      using track_current_ok [OF core cur k at prev, of PUT_PREV_TASK] by auto
    note clock = tracked_clock [OF t(2) rd t(3)]
    have c: "rq_cpu rq1 = rq_cpu rq" "rq_locked rq1" using t(3) at' by auto
    have rd1: "reading_ok W (hook_clock he rq1 s1) (sys_lrq s1 (rq_cpu rq1))" using clock c by simp
    have cap: "\<forall>cpu. unat (arch_scale_cpu_capacity k cpu) \<le> 1024" using k by (simp add: kernel_ok_def)
    have "tracked W (hook_clock he rq1 s1) rq1 n s1 s2"
      using track_task_ok [where p = n and e = PICK_NEXT_TASK, OF t(1) cap _ c(2) refl rd1 may_charge_pick] s1(2) at' c
      by auto
    then have "tick_sched_clock (sys_walt s2) = tick_sched_clock (sys_walt s)"
      using t(2) by (auto simp: tracked_def updated_def walt_fixed_def split: option.splits)
    moreover have "cpu_rolls (rq_cpu rq) s s1" using track_task_rolls [OF s1(1) rd core] at' by blast
    moreover have "cpu_rolls (rq_cpu rq) s1 s2" using track_task_rolls [OF s1(2) rd1 t(1) c(2)] c by simp
    ultimately show ?thesis by (blast intro: cpu_rolls_trans)
  qed
  then show "cpu_rolls (rq_cpu rq) s s'" "tick_sched_clock (sys_walt s') = tick_sched_clock (sys_walt s)"
    using s' cpu_rolls_view by (auto simp: windows_view_def)
qed

lemma lse_tick_entry_rolls:
  assumes ok: "sys_ok k W B S b cur s" and k: "kernel_ok k" and at: "hook_at k W he cur rq s"
    and p: "ts_id p = cur (rq_cpu rq)" and run: "lse_tick_entry k he p rq s = Inr s'"
  shows "cpu_rolls (rq_cpu rq) s s'" and "tick_sched_clock (sys_walt s') = tick_sched_clock (sys_walt s)"
proof -
  let ?s = "s\<lparr>sys_mon := lse_monitor_touch (he_jiffies he) (sys_mon s)\<rparr>"
  have ok1: "sys_ok k W B S b cur ?s" by (rule touch_ok [OF ok])
  then have core: "core_ok k W B S ?s" and cur: "current_ok k cur ?s" by (simp_all add: sys_ok_def)
  have at1: "hook_at k W he cur rq ?s" using at by (simp add: hook_at_def hook_clock_def sys_lrq_def)
  have v: "windows_view ?s = windows_view s" by (simp add: windows_view_def window_of_def sys_lrq_def fun_eq_iff)
  obtain s1 rq1 where s1: "track_task k he p TASK_UPDATE (?s, rq) = Inr (s1, rq1)"
    and s': "windows_view s' = windows_view s1"
    using run core by (auto simp: lse_tick_entry_def core_ok_def ebind_eq_Inr Let_def windows_view_def
        window_of_def sys_lrq_def fun_eq_iff)
  then have "tracked W (hook_clock he rq ?s) rq p ?s s1"
    using track_current_ok [OF core cur k at1 p, of TASK_UPDATE] by auto
  then have t: "tick_sched_clock (sys_walt s1) = tick_sched_clock (sys_walt s)"
    by (auto simp: tracked_def updated_def walt_fixed_def split: option.splits)
  have "cpu_rolls (rq_cpu rq) ?s s1" using track_task_rolls [OF s1 _ core] at1 by (simp add: hook_at_def)
  then show "cpu_rolls (rq_cpu rq) s s'" using v s' cpu_rolls_view by metis
  show "tick_sched_clock (sys_walt s') = tick_sched_clock (sys_walt s)" using t s' by (simp add: windows_view_def)
qed

lemma not_suspended_clock: "\<not> lse_clock_suspended c \<Longrightarrow> lse_sched_clock c t = t"
  by (simp add: lse_sched_clock_def)

definition clear_work :: "lse \<Rightarrow> lse" where
  "clear_work s = s\<lparr>sys_walt := (sys_walt s)\<lparr>lse_slim_walt_irq_work := None\<rparr>\<rparr>"

lemma opt_update_rolls:
  assumes core: "core_ok k W B S s"
    and run: "(case sys_lts s (ts_id p) of None \<Rightarrow> Inr s
      | Some lts \<Rightarrow> sys_update_task_ravg k here rq p TASK_UPDATE wc lts s) = Inr s'"
    and rd: "reading_ok W wc (sys_lrq s (rq_cpu rq))"
  shows "cpu_rolls (rq_cpu rq) s s'"
proof (cases "sys_lts s (ts_id p)")
  case None
  then show ?thesis using run by (simp add: cpu_rolls_refl)
next
  case (Some lts)
  have "lse_sched_ravg_window (sys_walt s) = W" "W \<noteq> 0" using core by (auto simp: core_ok_def walt_ok_def)
  then show ?thesis using sys_update_rolls [OF _ rd] run Some by simp
qed

lemma lse_irq_work_rolls:
  assumes ok: "sys_ok k W B S b cur s" and rd: "reading_ok W wc (sys_lrq s (rq_cpu rq))"
    and run: "lse_irq_work k (rq_cpu rq) wc p rq s = Inr s'"
  shows "cpu_rolls (rq_cpu rq) (clear_work s) s'" and "tick_sched_clock (sys_walt s') = tick_sched_clock (sys_walt s)"
proof -
  let ?s = "clear_work s" and ?rq = "rq\<lparr>rq_locked := True\<rparr>"
  have core: "core_ok k W B S s" using ok by (simp add: sys_ok_def)
  then have core1: "core_ok k W B S ?s"
  proof -
    have "sys_lrq ?s = sys_lrq s" "cpu_policy ?s = cpu_policy s" "walt_ok B S (sys_walt ?s) = walt_ok B S (sys_walt s)"
      by (auto simp: clear_work_def sys_lrq_def cpu_policy_def walt_ok_def)
    then show ?thesis using core by (simp add: core_ok_def windows_ok_def sys_started_def clear_work_def)
  qed
  have wc: "lse_sched_clock (sys_clock ?s) wc = wc"
    using core by (simp add: clear_work_def core_ok_def not_suspended_clock)
  obtain s1 g where s1: "(case sys_lts ?s (ts_id p) of None \<Rightarrow> Inr ?s
      | Some lts \<Rightarrow> sys_update_task_ravg k (rq_cpu rq) ?rq p TASK_UPDATE wc lts ?s) = Inr s1"
    and s': "s' = s1\<lparr>sys_gov := g, sys_walt := adopt_new_window wc (sys_lrq s1 (rq_cpu rq)) (sys_walt s1)\<rparr>"
    using run unfolding lse_irq_work_def clear_work_def [symmetric] Let_def wc
    by (auto simp only: ebind_eq_Inr sum.inject)
  have rd1: "reading_ok W wc (sys_lrq ?s (rq_cpu ?rq))" using rd by (simp add: clear_work_def sys_lrq_def)
  have rolls: "cpu_rolls (rq_cpu rq) ?s s1" using opt_update_rolls [OF core1 s1 rd1] by simp
  have v: "windows_view s' = windows_view s1"
    by (simp add: s' windows_view_def window_of_def sys_lrq_def fun_eq_iff adopt_new_window_def election_def)
  show "cpu_rolls (rq_cpu rq) (clear_work s) s'" by (rule cpu_rolls_view [OF rolls refl v])
  have "walt_fixed (sys_walt s1) = walt_fixed (sys_walt ?s)"
  proof (cases "sys_lts ?s (ts_id p)")
    case (Some lts)
    then show ?thesis using s1 ravg_keeps(2) by (fastforce simp: sys_update_task_ravg_def ebind_eq_Inr)
  qed (use s1 in simp)
  then show "tick_sched_clock (sys_walt s') = tick_sched_clock (sys_walt s)"
    using v by (simp add: windows_view_def walt_fixed_def clear_work_def)
qed

lemma lse_shadow_tick_expire_rolls:
  assumes ok: "sys_ok k W B S b cur s" and rd: "reading_ok W wc (sys_lrq s (rq_cpu rq))"
    and run: "lse_shadow_tick_expire k he wc owner p rq s = Inr s'"
  shows "cpu_rolls (rq_cpu rq) s s'" and "tick_sched_clock (sys_walt s') = tick_sched_clock (sys_walt s)"
proof -
  have core: "core_ok k W B S s" using ok by (simp add: sys_ok_def)
  obtain act sh where sh: "shadow_tick_expire (slim_walt_ctrl s \<noteq> 0) (sys_lts s) (he_cpu_rq he) owner (sys_shadow s) = (act, sh)"
    by fastforce
  let ?s = "s\<lparr>sys_shadow := sh\<rparr>" and ?rq = "rq\<lparr>rq_locked := True\<rparr>"
  have wc: "lse_sched_clock (sys_clock ?s) wc = wc" using core by (simp add: core_ok_def not_suspended_clock)
  have v: "windows_view ?s = windows_view s" by (simp add: windows_view_def window_of_def sys_lrq_def fun_eq_iff)
  have W: "lse_sched_ravg_window (sys_walt ?s) = W" "W \<noteq> 0" using core by (auto simp: core_ok_def walt_ok_def)
  have rd1: "reading_ok W wc (sys_lrq ?s (rq_cpu ?rq))" using rd by (simp add: sys_lrq_def)
  have "windows_view s' = windows_view s \<or>
    (\<exists>lts. sys_update_task_ravg k (he_here he) ?rq p TASK_UPDATE wc lts ?s = Inr s')"
    using run wc sh by (auto simp: lse_shadow_tick_expire_def Let_def windows_view_def window_of_def sys_lrq_def
        fun_eq_iff split: option.splits shadow_action.splits)
  then have "cpu_rolls (rq_cpu rq) s s' \<and> tick_sched_clock (sys_walt s') = tick_sched_clock (sys_walt s)"
  proof (elim disjE exE)
    assume "windows_view s' = windows_view s"
    then show ?thesis using cpu_rolls_refl by (simp add: windows_view_def)
  next
    fix lts assume u: "sys_update_task_ravg k (he_here he) ?rq p TASK_UPDATE wc lts ?s = Inr s'"
    then have "walt_fixed (sys_walt s') = walt_fixed (sys_walt s)"
      using ravg_keeps(2) by (fastforce simp: sys_update_task_ravg_def ebind_eq_Inr)
    moreover have "cpu_rolls (rq_cpu rq) ?s s'" using sys_update_rolls [OF u rd1 W] by simp
    ultimately show ?thesis using cpu_rolls_view v by (auto simp: walt_fixed_def)
  qed
  then show "cpu_rolls (rq_cpu rq) s s'" "tick_sched_clock (sys_walt s') = tick_sched_clock (sys_walt s)" by blast+
qed

lemma ctl_set_view: "windows_view (ctl_set d v s) = windows_view s"
  by (cases d) (simp_all add: windows_view_def window_of_def sys_lrq_def election_def upd_ctl_def fun_eq_iff)

lemma windows_view_simps [simp]:
  "windows_view (s\<lparr>sys_mon := m\<rparr>) = windows_view s" "windows_view (s\<lparr>sys_lts := L\<rparr>) = windows_view s"
  "windows_view (s\<lparr>sys_dsq := d\<rparr>) = windows_view s" "windows_view (s\<lparr>sys_shadow := sh\<rparr>) = windows_view s"
  "windows_view (s\<lparr>sys_gov := g\<rparr>) = windows_view s" "windows_view (s\<lparr>sys_clock := c\<rparr>) = windows_view s"
  "windows_view (s\<lparr>sys_lts := L, sys_dsq := d\<rparr>) = windows_view s"
  "windows_view (s\<lparr>frame_per_sec := v, sys_walt := (sys_walt s)\<lparr>new_lse_sched_ravg_window := n\<rparr>\<rparr>) = windows_view s"
  by (simp_all add: windows_view_def window_of_def sys_lrq_def election_def fun_eq_iff)

lemma sysctl_view: "sysctl_write k ce h tb buf s = Inr (r, s') \<Longrightarrow> windows_view s' = windows_view s"
  by (cases "ctl_handler tb"; cases "ctl_io h tb buf")
    (auto simp: sysctl_write_def sysctl_store_def ctl_set_view lse_proc_sched_ravg_window_update_def
      sched_ravg_window_change_def ebind_eq_Inr Let_def case_prod_unfold split: option.splits if_splits)

text \<open>A step once the first tick has come: at most one CPU rolls over, and the pending work may run
  before.\<close>

definition step_rolls :: "kernel \<Rightarrow> lse \<Rightarrow> lse \<Rightarrow> bool" where
  "step_rolls k s s' \<longleftrightarrow> tick_sched_clock (sys_walt s') = tick_sched_clock (sys_walt s) \<and>
     (windows_view s' = windows_view s \<or>
      (\<exists>c \<in> set (cpu_possible k). cpu_rolls c s s' \<or> cpu_rolls c (clear_work s) s'))"

lemma step_rolls_view: "windows_view s' = windows_view s \<Longrightarrow> step_rolls k s s'"
  by (simp add: step_rolls_def windows_view_def)

lemma sys_step_rolls:
  assumes "sys_step k B b x y" "kernel_ok k"
    "sys_ok k (lse_sched_ravg_window (sys_walt (snd x))) B S b (fst x) (snd x)" "sys_started (snd x)"
  shows "step_rolls k (snd x) (snd y)"
  using assms
proof (induction rule: sys_step.induct)
  case (schedule s he cur rq prev n s')
  then show ?case
    using lse_schedule_rolls [of k "lse_sched_ravg_window (sys_walt s)" B S b cur s he rq prev n s']
    by (auto simp: step_rolls_def hook_at_def)
next
  case (tick_entry s he cur rq p s')
  then show ?case
    using lse_tick_entry_rolls [of k "lse_sched_ravg_window (sys_walt s)" B S b cur s he rq p s']
    by (auto simp: step_rolls_def hook_at_def)
next
  case (scheduler_tick he cur s old)
  then have "windows_view (lse_scheduler_tick k he old s) = windows_view s"
    by (simp add: lse_scheduler_tick_def sys_started_def windows_view_def window_of_def sys_lrq_def fun_eq_iff)
  then show ?case by (simp add: step_rolls_view)
next
  case (irq_work rq p cur s wc s')
  then show ?case
    using lse_irq_work_rolls [of k "lse_sched_ravg_window (sys_walt s)" B S b cur s wc rq p s']
    by (auto simp: step_rolls_def hook_at_def)
next
  case (shadow_expire rq p cur s wc he s')
  then show ?case
    using lse_shadow_tick_expire_rolls [of k "lse_sched_ravg_window (sys_walt s)" B S b cur s wc rq he "rq_cpu rq" p s']
    by (auto simp: step_rolls_def hook_at_def)
next
  case (sysctl tb ce h buf s r s' cur)
  then show ?case using sysctl_view step_rolls_view by simp
qed (auto intro!: step_rolls_view simp: windows_view_def window_of_def sys_lrq_def fun_eq_iff)

section \<open>A leader\<close>

text \<open>From the first tick on some possible CPU stands at the window that was elected last.\<close>

definition leader :: "kernel \<Rightarrow> lse \<Rightarrow> bool" where
  "leader k s \<longleftrightarrow> (\<exists>cpu \<in> set (cpu_possible k). window_of s cpu = lastq s)"

lemma clear_work_window [simp]: "window_of (clear_work s) cpu = window_of s cpu"
  "lastq (clear_work s) = lastq s" "work_pending (clear_work s) = None"
  by (simp_all add: clear_work_def window_of_def sys_lrq_def lastq_def work_pending_def)

lemma cpu_rolls_lastq:
  "cpu_rolls c s s' \<longleftrightarrow> (\<forall>cpu. cpu \<noteq> c \<longrightarrow> window_of s' cpu = window_of s cpu) \<and> window_of s c \<le> window_of s' c \<and>
     (lastq s' = lastq s \<and> work_pending s' = work_pending s \<and> (window_of s c = lastq s \<longrightarrow> window_of s' c = window_of s c) \<or>
      window_of s c \<le> lastq s \<and> lastq s < window_of s' c \<and> lastq s' = window_of s' c \<and> work_pending s' \<noteq> None)"
  by (simp add: cpu_rolls_def rolls_def lastq_def work_pending_def)

text \<open>One step: windows only move forward, and either nobody was elected or a CPU that was not ahead.\<close>

lemma step_rolls_cases:
  assumes "step_rolls k s s'"
  shows "window_of s cpu \<le> window_of s' cpu"
    and "(lastq s' = lastq s \<and> work_pending s' \<in> {None, work_pending s} \<and>
            (window_of s cpu = lastq s \<longrightarrow> window_of s' cpu = window_of s cpu)) \<or>
         (\<exists>c \<in> set (cpu_possible k). window_of s c \<le> lastq s \<and> lastq s < lastq s' \<and> lastq s' = window_of s' c)"
proof -
  have "window_of s cpu \<le> window_of s' cpu \<and>
    ((lastq s' = lastq s \<and> work_pending s' \<in> {None, work_pending s} \<and>
        (window_of s cpu = lastq s \<longrightarrow> window_of s' cpu = window_of s cpu)) \<or>
     (\<exists>c \<in> set (cpu_possible k). window_of s c \<le> lastq s \<and> lastq s < lastq s' \<and> lastq s' = window_of s' c))"
    using assms unfolding step_rolls_def
  proof (elim conjE disjE bexE)
    assume "windows_view s' = windows_view s"
    then show ?thesis by (simp add: windows_view_def election_def lastq_def work_pending_def)
  next
    fix c assume "c \<in> set (cpu_possible k)" "cpu_rolls c s s'"
    then show ?thesis unfolding cpu_rolls_lastq by (cases "cpu = c") auto
  next
    fix c assume "c \<in> set (cpu_possible k)" "cpu_rolls c (clear_work s) s'"
    then show ?thesis unfolding cpu_rolls_lastq by (cases "cpu = c") auto
  qed
  then show "window_of s cpu \<le> window_of s' cpu"
    "(lastq s' = lastq s \<and> work_pending s' \<in> {None, work_pending s} \<and>
            (window_of s cpu = lastq s \<longrightarrow> window_of s' cpu = window_of s cpu)) \<or>
         (\<exists>c \<in> set (cpu_possible k). window_of s c \<le> lastq s \<and> lastq s < lastq s' \<and> lastq s' = window_of s' c)"
    by blast+
qed

lemma step_leader: "step_rolls k s s' \<Longrightarrow> leader k s \<Longrightarrow> leader k s'"
  using step_rolls_cases(2) unfolding leader_def by metis

lemma first_tick_leader:
  assumes "\<not> sys_started s" "sys_started (lse_scheduler_tick k he old s)" "cpu_possible k \<noteq> []"
  shows "leader k (lse_scheduler_tick k he old s)"
proof -
  let ?s = "lse_scheduler_tick k he old s"
  define t where "t = rq_clock (he_cpu_rq he (he_here he)) - 20000"
  have f: "fold (\<lambda>cpu lrq. lrq(cpu := (lrq cpu)\<lparr>window_start := t\<rparr>)) cpus lrq =
     (\<lambda>cpu. if cpu \<in> set cpus then (lrq cpu)\<lparr>window_start := t\<rparr> else lrq cpu)" for cpus lrq
    by (rule fold_window_start)
  obtain c where c: "c \<in> set (cpu_possible k)" using assms(3) by (cases "cpu_possible k") auto
  have "lastq ?s = t \<and> window_of ?s c = t"
    using assms(1,2) c unfolding lse_scheduler_tick_def Let_def t_def [symmetric] f
    by (auto simp: sys_started_def lastq_def window_of_def set_sys_lrq_def sys_lrq_def split: if_splits)
  then show ?thesis using c by (auto simp: leader_def)
qed

lemma step_starts:
  assumes "sys_step k B b x y" "kernel_ok k" "\<not> sys_started (snd x)" "sys_started (snd y)"
    "sys_ok k (lse_sched_ravg_window (sys_walt (snd x))) B S b (fst x) (snd x)" "cpu_possible k \<noteq> []"
  shows "leader k (snd y)"
  using assms
proof (induction rule: sys_step.induct)
  case (schedule s he cur rq prev n s')
  then show ?case
    using lse_schedule_rolls(2) [of k "lse_sched_ravg_window (sys_walt s)" B S b cur s he rq prev n s']
    by (simp add: sys_started_def)
next
  case (tick_entry s he cur rq p s')
  then show ?case
    using lse_tick_entry_rolls(2) [of k "lse_sched_ravg_window (sys_walt s)" B S b cur s he rq p s']
    by (simp add: sys_started_def)
next
  case (scheduler_tick he cur s old)
  then show ?case using first_tick_leader by simp
next
  case (irq_work rq p cur s wc s')
  then show ?case
    using lse_irq_work_rolls(2) [of k "lse_sched_ravg_window (sys_walt s)" B S b cur s wc rq p s']
    by (simp add: sys_started_def)
next
  case (shadow_expire rq p cur s wc he s')
  then show ?case
    using lse_shadow_tick_expire_rolls(2) [of k "lse_sched_ravg_window (sys_walt s)" B S b cur s wc rq he "rq_cpu rq" p s']
    by (simp add: sys_started_def)
next
  case (sysctl tb ce h buf s r s' cur)
  then show ?case using sysctl_view by (fastforce simp: windows_view_def sys_started_def)
qed (simp_all add: sys_started_def)

definition rollover_led :: "kernel \<Rightarrow> u32 \<Rightarrow> (nat \<Rightarrow> nat) \<times> lse \<Rightarrow> bool" where
  "rollover_led k B x \<longleftrightarrow>
     (kernel_ok k \<longrightarrow> 8000000 \<le> B \<longrightarrow> cpu_possible k \<noteq> [] \<longrightarrow> sys_started (snd x) \<longrightarrow> leader k (snd x))"

lemma module_inv_ok:
  "module_inv k B b x \<Longrightarrow> kernel_ok k \<Longrightarrow> 8000000 \<le> B \<Longrightarrow>
   sys_ok k (lse_sched_ravg_window (sys_walt (snd x))) B (unat B div 7812) b (fst x) (snd x)"
  by (simp add: module_inv_def)

lemma loaded_not_started: "module_started k x \<Longrightarrow> \<not> sys_started (snd x)"
proof -
  assume "module_started k x"
  then obtain le j g where load: "module_loaded k le j g (fst x) (snd x)" by (auto simp: module_started_def)
  have "tick_sched_clock (sys_walt (snd x)) = 0"
    by (rule module_loaded_state [OF load], drule loaded_walt(4), drule arg_cong [where f = sys_walt])
      (simp add: set_sys_lrq_def)
  then show ?thesis by (simp add: sys_started_def)
qed

interpretation rollover_sys: layered_invariant "module_started k" "sys_step k B b" "module_inv k B b" "rollover_led k B" for k B b
proof unfold_locales
  fix x y
  show "rollover_led k B x" if "module_started k x"
    using loaded_not_started [OF that] by (simp add: rollover_led_def)
  show "rollover_led k B y" if inv: "module_inv k B b x" "rollover_led k B x" and step: "sys_step k B b x y"
    unfolding rollover_led_def
  proof (intro impI)
    assume k: "kernel_ok k" "8000000 \<le> B" "cpu_possible k \<noteq> []" and y: "sys_started (snd y)"
    show "leader k (snd y)"
    proof (cases "sys_started (snd x)")
      case True
      have "step_rolls k (snd x) (snd y)"
        using sys_step_rolls [OF step k(1) module_inv_ok True] inv k by simp
      then show ?thesis using step_leader inv k True by (auto simp: rollover_led_def)
    next
      case False
      then show ?thesis using step_starts [OF step k(1) False y module_inv_ok k(3)] inv k by simp
    qed
  qed
qed

lemma steps_roll:
  assumes "(sys_step k B b)\<^sup>*\<^sup>* x y" "kernel_ok k" "8000000 \<le> B" "module_inv k B b x" "sys_started (snd x)"
    and refl: "\<And>s. P s s" and trans: "\<And>s t u. P s t \<Longrightarrow> step_rolls k t u \<Longrightarrow> P s u"
  shows "P (snd x) (snd y) \<and> module_inv k B b y \<and> sys_started (snd y)"
  using assms(1)
proof (induction rule: rtranclp_induct)
  case (step y z)
  have "step_rolls k (snd y) (snd z)"
    using sys_step_rolls [OF step(2) assms(2) module_inv_ok [OF _ assms(2,3)]] step.IH by blast
  then show ?case using step.IH trans module_sys.inv_step [OF _ step(2)] by (auto simp: step_rolls_def sys_started_def)
qed (simp add: refl assms)

definition ahead :: "lse \<Rightarrow> nat \<Rightarrow> bool" where
  "ahead s cpu \<longleftrightarrow> lastq s < window_of s cpu"

lemma run_starves:
  assumes run: "(sys_step k B b)\<^sup>*\<^sup>* x y" and inv: "kernel_ok k" "8000000 \<le> B" "module_inv k B b x" "sys_started (snd x)"
    and still: "\<forall>cpu \<in> set (cpu_possible k). ahead (snd x) cpu \<or> window_of (snd y) cpu = window_of (snd x) cpu"
  shows "lastq (snd y) = lastq (snd x) \<and> work_pending (snd y) \<in> {None, work_pending (snd x)} \<and>
    (\<forall>cpu. ahead (snd x) cpu \<longrightarrow> ahead (snd y) cpu)"
proof -
  define P where "P s t \<longleftrightarrow> (\<forall>cpu. window_of s cpu \<le> window_of t cpu) \<and>
    ((\<forall>cpu \<in> set (cpu_possible k). ahead s cpu \<or> window_of t cpu = window_of s cpu) \<longrightarrow>
      lastq t = lastq s \<and> work_pending t \<in> {None, work_pending s})" for s t
  have refl: "P s s" for s by (simp add: P_def)
  have trans: "P s u" if st: "P s t" and tu: "step_rolls k t u" for s t u
  proof -
    have mono: "window_of s cpu \<le> window_of t cpu" "window_of t cpu \<le> window_of u cpu" for cpu
      using st step_rolls_cases(1) [OF tu] by (simp_all add: P_def)
    have "lastq u = lastq s \<and> work_pending u \<in> {None, work_pending s}"
      if still: "\<forall>cpu \<in> set (cpu_possible k). ahead s cpu \<or> window_of u cpu = window_of s cpu"
    proof -
      have same: "window_of t cpu = window_of s cpu \<and> window_of u cpu = window_of t cpu"
        if "cpu \<in> set (cpu_possible k)" "\<not> ahead s cpu" for cpu
        using that still mono [of cpu] by force
      then have t: "lastq t = lastq s" "work_pending t \<in> {None, work_pending s}" using st by (auto simp: P_def)
      have "\<not> (window_of t c \<le> lastq t \<and> lastq t < lastq u \<and> lastq u = window_of u c)"
        if c: "c \<in> set (cpu_possible k)" for c
      proof (cases "ahead s c")
        case True
        then have "lastq t < window_of t c" using t(1) mono(1) [of c] unfolding ahead_def by (metis less_le_trans)
        then show ?thesis by auto
      next
        case False
        then show ?thesis using same [OF c] by auto
      qed
      then show ?thesis using step_rolls_cases(2) [OF tu, of 0] t by auto
    qed
    then show ?thesis using mono order_trans unfolding P_def by blast
  qed
  have "P (snd x) (snd y) \<and> module_inv k B b y \<and> sys_started (snd y)"
    by (rule steps_roll [where P = P, OF run inv refl]) (rule trans)
  then have "lastq (snd y) = lastq (snd x)" "work_pending (snd y) \<in> {None, work_pending (snd x)}"
    "\<forall>cpu. window_of (snd x) cpu \<le> window_of (snd y) cpu" using still by (simp_all add: P_def)
  then show ?thesis by (auto simp: ahead_def intro: less_le_trans)
qed

lemma run_leader:
  assumes run: "(sys_step k B b)\<^sup>*\<^sup>* x y" and inv: "kernel_ok k" "8000000 \<le> B" "module_inv k B b x" "sys_started (snd x)"
    and lead: "window_of (snd x) cpu = lastq (snd x)" and moved: "window_of (snd y) cpu \<noteq> window_of (snd x) cpu"
  shows "lastq (snd x) < lastq (snd y)"
proof -
  define P where "P s t \<longleftrightarrow> lastq s \<le> lastq t \<and>
    (lastq t = lastq s \<longrightarrow> window_of s cpu = lastq s \<longrightarrow> window_of t cpu = window_of s cpu)" for s t
  have refl: "P s s" for s by (simp add: P_def)
  have trans: "P s u" if "P s t" "step_rolls k t u" for s t u
    using that(1) step_rolls_cases(2) [OF that(2), of cpu] by (fastforce simp: P_def)
  have "P (snd x) (snd y) \<and> module_inv k B b y \<and> sys_started (snd y)"
    by (rule steps_roll [where P = P, OF run inv refl]) (rule trans)
  then show ?thesis using lead moved by (auto simp: P_def)
qed

text \<open>One tick, exactly.\<close>

lemma ravg_done_lastq:
  assumes "ravg_done k c old wc r = Inr r'"
  shows "lse_run_rollover_lastq_ws (rv_walt r') =
    (if lse_run_rollover_lastq_ws (rv_walt r) = old then window_start (rv_lrq r) else lse_run_rollover_lastq_ws (rv_walt r))"
  using assms by (auto simp: ravg_done_def Let_def ebind_eq_Inr lse_window_rollover_run_once_def irq_work_queue_def
      window_rollover_systrace_c_def split: if_splits)

lemma leader_tick:
  assumes ok: "sys_ok k W B S b cur s" and k: "kernel_ok k" and at: "hook_at k W he cur rq s"
    and p: "ts_id p = cur (rq_cpu rq)" and st: "sys_started s"
    and l: "sys_lts s (cur (rq_cpu rq)) = Some l" "mark_start l \<noteq> hook_clock he rq s"
  defines "n \<equiv> unat (hook_clock he rq s - window_of s (rq_cpu rq)) div unat W"
  shows "\<exists>s'. lse_tick_entry k he p rq s = Inr s' \<and> sys_ok k W B S b cur s' \<and> cpu_rolls (rq_cpu rq) s s' \<and>
    sys_started s' \<and> lastq s' = (if lastq s = window_of s (rq_cpu rq) then window_of s' (rq_cpu rq) else lastq s) \<and>
    window_of s' (rq_cpu rq) = window_of s (rq_cpu rq) + word_of_nat n * ucast W \<and>
    (\<forall>cpu. cpu \<noteq> rq_cpu rq \<longrightarrow> sys_lrq s' cpu = sys_lrq s cpu) \<and>
    latest_clock (sys_lrq s' (rq_cpu rq)) \<le> hook_clock he rq s \<and>
    (\<exists>l'. sys_lts s' (cur (rq_cpu rq)) = Some l' \<and> mark_start l' = hook_clock he rq s) \<and>
    (\<forall>t. t \<noteq> cur (rq_cpu rq) \<longrightarrow> sys_lts s' t = sys_lts s t)"
proof -
  let ?c = "rq_cpu rq" and ?wc = "hook_clock he rq s"
  let ?s = "s\<lparr>sys_mon := lse_monitor_touch (he_jiffies he) (sys_mon s)\<rparr>"
  obtain s' where s': "lse_tick_entry k he p rq s = Inr s'" "sys_ok k W B S b cur s'"
    using lse_tick_entry_ok [OF ok k at p] by blast
  note rolls = lse_tick_entry_rolls [OF ok k at p s'(1)]
  have ok1: "sys_ok k W B S b cur ?s" by (rule touch_ok [OF ok])
  then have core: "core_ok k W B S ?s" and cur: "current_ok k cur ?s" by (simp_all add: sys_ok_def)
  have W: "lse_sched_ravg_window (sys_walt s) = W" "W \<noteq> 0" using core by (auto simp: core_ok_def walt_ok_def)
  have at1: "hook_at k W he cur rq ?s" using at by (simp add: hook_at_def hook_clock_def sys_lrq_def)
  have hc: "hook_clock he rq ?s = ?wc" by (simp add: hook_clock_def sys_lrq_def)
  have rd: "reading_ok W ?wc (sys_lrq s ?c)" and c: "?c \<in> set (cpu_possible k)" "rq_locked rq"
    using at by (simp_all add: hook_at_def)
  have sel: "sys_lrq ?s = sys_lrq s" by (simp add: sys_lrq_def)
  obtain s1 rq1 where s1: "track_task k he p TASK_UPDATE (?s, rq) = Inr (s1, rq1)"
    "tracked W ?wc rq p ?s s1"
    using track_current_ok [OF core cur k at1 p, of TASK_UPDATE] hc by auto
  have same: "sys_lrq s' = sys_lrq s1" "sys_lts s' = sys_lts s1"
    using s'(1) s1(1) core by (auto simp: lse_tick_entry_def core_ok_def ebind_eq_Inr Let_def sys_lrq_def)
  have clock: "lse_rq_clock (sys_clock s) d (he_rq_clock he) (sys_lrq s ?c) rq = Inr (?wc, rq_fresh he rq)" for d
    using lse_rq_clock_locked [of "sys_clock s" rq] core c(2) by (simp add: core_ok_def hook_clock_def)
  let ?r = "\<lparr>rv_walt = sys_walt ?s, rv_mon = sys_mon ?s, rv_lts = l, rv_lrq = sys_lrq ?s ?c\<rparr>"
  obtain r where r: "lse_update_task_ravg k (slim_walt_ctrl ?s) (he_here he) (cpu_policy ?s ?c) (rq_fresh he rq) p
      TASK_UPDATE ?wc ?r = Inr r" "sys_lrq s1 ?c = rv_lrq r" "sys_walt s1 = rv_walt r"
  proof -
    have "sys_update_task_ravg k (he_here he) (rq_fresh he rq) p TASK_UPDATE ?wc l ?s = Inr s1"
      using s1(1) l(1) p by (auto simp: track_task_def clock sel ebind_eq_Inr)
    then show ?thesis using that by (auto simp: sys_update_task_ravg_def ebind_eq_Inr)
  qed
  have live: "slim_walt_ctrl ?s \<noteq> 0" "window_start (rv_lrq ?r) \<noteq> 0" "mark_start (rv_lts ?r) \<noteq> ?wc"
    using core st c l(2) by (simp_all add: core_ok_def windows_ok_def sys_started_def sel)
  obtain l1 r2 where walt: "election (rv_walt r2) = election (rv_walt ?r)" and l1: "update_window_start (rv_walt ?r) ?wc (rv_lrq ?r) = Inr (window_start (rv_lrq ?r), l1)"
    "window_start (rv_lrq r2) = window_start l1" "ravg_done k (he_here he) (window_start (rv_lrq ?r)) ?wc r2 = Inr r"
    using r(1) live by (blast elim: ravg_split)
  have "window_start (rv_lrq r) = window_start l1" using ravg_done_keeps [OF l1(3)] l1(2) by simp
  also have "\<dots> = window_of s ?c + word_of_nat n * ucast W"
    using update_window_start_eq [of "sys_walt s" "sys_lrq s ?c" ?wc] l1(1) rd W
    by (auto simp: reading_ok_def window_of_def n_def sel)
  finally have win: "window_of s' ?c = window_of s ?c + word_of_nat n * ucast W"
    by (simp add: window_of_def same r(2))
  have "window_start (rv_lrq r2) = window_of s' ?c"
    using ravg_done_keeps [OF l1(3)] by (simp add: window_of_def same r(2))
  then have "lse_run_rollover_lastq_ws (sys_walt s1) =
      (if lastq s = window_of s ?c then window_of s' ?c else lastq s)"
    using ravg_done_lastq [OF l1(3)] walt by (simp add: r(3) election_def lastq_def window_of_def sel)
  moreover have "sys_walt s' = sys_walt s1"
    using s'(1) s1(1) core by (auto simp: lse_tick_entry_def core_ok_def ebind_eq_Inr Let_def)
  ultimately have elected: "lastq s' = (if lastq s = window_of s ?c then window_of s' ?c else lastq s)"
    by (simp add: lastq_def)
  have "\<exists>l'. sys_lts s1 (cur ?c) = Some l' \<and> mark_start l' = ?wc"
    using s1(2) l(1) p st by (auto simp: tracked_def updated_def sys_started_def)
  moreover have "\<forall>t. t \<noteq> cur ?c \<longrightarrow> sys_lts s1 t = sys_lts s t"
    using tracked_frame(5) [OF s1(2)] p by simp
  moreover have "\<forall>cpu. cpu \<noteq> ?c \<longrightarrow> sys_lrq s1 cpu = sys_lrq s cpu"
    using tracked_frame(6) [OF s1(2)] by (simp add: sel)
  moreover have "latest_clock (sys_lrq s1 ?c) \<le> ?wc"
    using s1(2) l(1) p by (auto simp: tracked_def updated_def reading_ok_def)
  ultimately show ?thesis
    using s' rolls win elected st by (intro exI [of _ s']) (simp add: same sys_started_def)
qed

section \<open>A run on the demonstration machine\<close>

definition demo_hook_env :: "nat \<Rightarrow> u64 \<Rightarrow> hook_env" where
  "demo_hook_env c t = demo_he\<lparr>he_here := c, he_cpu_rq := (\<lambda>cpu. (demo_rq cpu cpu)\<lparr>rq_clock := t\<rparr>)\<rparr>"

definition demo_locked_rq :: "nat \<Rightarrow> u64 \<Rightarrow> rq" where
  "demo_locked_rq c t = (demo_rq c c)\<lparr>rq_locked := True, rq_clock := t, rq_clock_updated := True\<rparr>"

abbreviation demo_sys_ok :: "lse \<Rightarrow> bool" where
  "demo_sys_ok \<equiv> sys_ok demo_kernel 8000000 8000000 1024 False id"

abbreviation demo_step :: "lse \<Rightarrow> lse \<Rightarrow> bool" where
  "demo_step s s' \<equiv> sys_step demo_kernel 8000000 False (id, s) (id, s')"

lemma demo_tick:
  assumes ok: "demo_sys_ok s" "sys_started s" and c: "c \<in> set (cpu_possible demo_kernel)"
    and l: "sys_lts s c = Some l" "mark_start l < t"
    and before: "window_of s c \<le> t" "latest_clock (sys_lrq s c) \<le> t" "unat t < 2 ^ 40"
  shows "\<exists>s'. demo_step s s' \<and> demo_sys_ok s' \<and> sys_started s' \<and>
    lastq s' = (if lastq s = window_of s c then window_of s' c else lastq s) \<and>
    window_of s' c = window_of s c + word_of_nat (unat (t - window_of s c) div 8000000) * 8000000 \<and>
    (\<forall>cpu. cpu \<noteq> c \<longrightarrow> sys_lrq s' cpu = sys_lrq s cpu) \<and> latest_clock (sys_lrq s' c) \<le> t \<and>
    (\<exists>l'. sys_lts s' c = Some l' \<and> mark_start l' = t) \<and> (\<forall>i. i \<noteq> c \<longrightarrow> sys_lts s' i = sys_lts s i)"
proof -
  let ?he = "demo_hook_env c t" and ?rq = "demo_locked_rq c t" and ?p = "demo_task c"
  have rq: "rq_cpu ?rq = c" "ts_id ?p = id c" by (simp_all add: demo_locked_rq_def demo_rq_def demo_task_def)
  have hc: "hook_clock ?he ?rq s = t"
    using before(2) by (simp add: hook_clock_def rq_time_def demo_locked_rq_def demo_rq_def max_def)
  have diff: "unat (t - window_of s c) \<le> unat t" using before(1) by (simp add: unat_u64_sub)
  have W: "lse_sched_ravg_window (sys_walt s) = 8000000" using ok(1) by (rule sys_ok_window)
  have "unat (t - window_of s c) div 8000000 < 2 ^ 31"
    using diff before(3) by (simp add: div_less_iff_less_mult)
  then have rd: "reading_ok 8000000 t (sys_lrq s c)"
    using diff before by (simp add: reading_ok_def window_of_def)
  have at: "hook_at demo_kernel 8000000 ?he id ?rq s"
    using c rq hc rd l by (auto simp: hook_at_def demo_locked_rq_def demo_hook_env_def less_imp_le)
  have l': "sys_lts s (id (rq_cpu ?rq)) = Some l" "mark_start l \<noteq> hook_clock ?he ?rq s" using l hc rq(1) by auto
  from leader_tick [OF ok(1) demo_kernel_ok at _ ok(2) l'] rq obtain s' where
    s': "lse_tick_entry demo_kernel ?he ?p ?rq s = Inr s'" "demo_sys_ok s'" "sys_started s'"
    "lastq s' = (if lastq s = window_of s c then window_of s' c else lastq s)"
    and win: "window_of s' c = window_of s c + word_of_nat (unat (t - window_of s c) div unat (8000000 :: u32)) * ucast (8000000 :: u32)"
    and rest: "\<forall>cpu. cpu \<noteq> c \<longrightarrow> sys_lrq s' cpu = sys_lrq s cpu" "latest_clock (sys_lrq s' c) \<le> t"
      "\<exists>l'. sys_lts s' c = Some l' \<and> mark_start l' = t" "\<forall>i. i \<noteq> c \<longrightarrow> sys_lts s' i = sys_lts s i"
    unfolding hc rq(1) id_apply by blast
  have "demo_step s s'"
    by (rule sys_step.tick_entry [OF _ _ s'(1)]) (simp_all add: W at rq)
  then show ?thesis using s' rest win by (intro exI [of _ s']) simp
qed

lemma demo_started_run:
  "\<exists>x s. module_started demo_kernel x \<and> (sys_step demo_kernel 8000000 False)\<^sup>*\<^sup>* x (id, s) \<and> demo_sys_ok s \<and>
     sys_started s \<and> lastq s = 1000000 \<and> (\<forall>cpu \<in> set (cpu_possible demo_kernel). window_of s cpu = 1000000) \<and>
     (\<forall>cpu. latest_clock (sys_lrq s cpu) = 0) \<and>
     (\<forall>i \<in> {0, 3}. \<exists>l. sys_lts s i = Some l \<and> mark_start l = 0)"
proof -
  obtain s0 where s0: "module_loaded demo_kernel demo_load 0 demo_boot_gov id s0" using demo_loaded by blast
  then have start: "module_started demo_kernel (id, s0)" by (auto simp: module_started_def)
  let ?new = "\<lambda>i s. s\<lparr>sys_lts := alloc_lse_task_struct True (Some (demo_task i)) (sys_lts s)\<rparr>"
  let ?he = "demo_hook_env 0 1020000"
  define s1 where "s1 = ?new 0 s0"
  define s2 where "s2 = ?new 3 s1"
  define s3 where "s3 = lse_scheduler_tick demo_kernel ?he 0 s2"
  have steps: "demo_step s0 s1" "demo_step s1 s2" "demo_step s2 s3"
    unfolding s1_def s2_def s3_def
    by (rule sys_step.task_new, rule sys_step.task_new, rule sys_step.scheduler_tick)
      (simp add: demo_hook_env_def)
  then have run: "(sys_step demo_kernel 8000000 False)\<^sup>*\<^sup>* (id, s0) (id, s3)" by auto
  note fresh = module_loaded_fresh [OF s0]
  have "sys_ok demo_kernel 8000000 8000000 1024 False id s0"
    using module_loaded_ok [OF s0, of 8000000 False] by simp
  then have ok2: "demo_sys_ok s2" unfolding s1_def s2_def by (intro task_new_ok)
  then have ok: "demo_sys_ok s3" unfolding s3_def by (rule lse_scheduler_tick_ok) (simp add: demo_hook_env_def)
  have lts2: "\<exists>l. sys_lts s2 i = Some l \<and> mark_start l = 0" if "i \<in> {0, 3}" for i
    using that fresh(3) by (auto simp: s2_def s1_def alloc_lse_task_struct_def demo_task_def init_lse_task_struct_def
        split: option.split)
  have view2: "sys_walt s2 = sys_walt s0" "sys_clusters s2 = sys_clusters s0" "slim_walt_ctrl s2 = slim_walt_ctrl s0"
    by (simp_all add: s2_def s1_def)
  have un: "tick_sched_clock (sys_walt s2) = 0" "slim_walt_ctrl s2 \<noteq> 0"
    using loaded_not_started [OF start] ok2 view2 by (simp_all add: sys_started_def sys_ok_def core_ok_def)
  have clk: "rq_clock (he_cpu_rq ?he (he_here ?he)) - 20000 = 1000000" by (simp add: demo_hook_env_def)
  have f: "fold (\<lambda>cpu lrq. lrq(cpu := (lrq cpu)\<lparr>window_start := 1000000\<rparr>)) (cpu_possible demo_kernel) (sys_lrq s2) =
     (\<lambda>cpu. if cpu \<in> set (cpu_possible demo_kernel) then (sys_lrq s2 cpu)\<lparr>window_start := 1000000\<rparr> else sys_lrq s2 cpu)"
    by (rule fold_window_start)
  have s3: "s3 = (set_sys_lrq (\<lambda>cpu. if cpu \<in> set (cpu_possible demo_kernel) then (sys_lrq s2 cpu)\<lparr>window_start := 1000000\<rparr>
         else sys_lrq s2 cpu) s2)\<lparr>sys_walt := (sys_walt s2)\<lparr>tick_sched_clock := 1000000, lse_run_rollover_lastq_ws := 1000000\<rparr>,
         sys_mon := lse_monitor_touch (he_jiffies ?he) (sys_mon s2)\<rparr>"
    unfolding s3_def lse_scheduler_tick_def Let_def clk f using un by (simp add: set_sys_lrq_def)
  have "latest_clock (sys_lrq s2 cpu) = 0" for cpu using fresh(2) [of cpu] view2 by (simp add: sys_lrq_def)
  then have "sys_started s3 \<and> lastq s3 = 1000000 \<and> (\<forall>cpu \<in> set (cpu_possible demo_kernel). window_of s3 cpu = 1000000) \<and>
     (\<forall>cpu. latest_clock (sys_lrq s3 cpu) = 0) \<and> sys_lts s3 = sys_lts s2"
    by (simp add: s3 sys_started_def lastq_def window_of_def set_sys_lrq_def sys_lrq_def)
  then show ?thesis using start run ok lts2 by (intro exI [of _ "(id, s0)"] exI [of _ s3]) auto
qed

section \<open>Properties\<close>

text \<open>C5: The roll over never gets stuck for good: in every state that the steps of \<open>sys_step\<close> reach after
  the first tick there is a CPU whose next tick after the end of its window, with a current task that
  has a structure, queues the roll-over work, and over every run from there a new window has been
  elected as soon as that CPU's window has moved.\<close>

theorem rollover_resumes:
  assumes "module_started k x" "kernel_ok k" "8000000 \<le> B" "(sys_step k B b)\<^sup>*\<^sup>* x (cur, s)"
    and "cpu_possible k \<noteq> []" "sys_started s"
  shows "\<exists>cpu \<in> set (cpu_possible k).
    (\<forall>he rq p l. rq_cpu rq = cpu \<and> ts_id p = cur cpu \<and> sys_lts s (cur cpu) = Some l \<and>
        hook_at k (lse_sched_ravg_window (sys_walt s)) he cur rq s \<and> mark_start l \<noteq> hook_clock he rq s \<and>
        unat (lse_sched_ravg_window (sys_walt s)) \<le> unat (hook_clock he rq s - window_of s cpu) \<longrightarrow>
        (\<exists>s'. lse_tick_entry k he p rq s = Inr s' \<and> work_pending s' \<noteq> None)) \<and>
    (\<forall>cur' s'. (sys_step k B b)\<^sup>*\<^sup>* (cur, s) (cur', s') \<longrightarrow> window_of s' cpu \<noteq> window_of s cpu \<longrightarrow> lastq s < lastq s')"
proof -
  let ?W = "lse_sched_ravg_window (sys_walt s)"
  have ok: "sys_ok k ?W B (unat B div 7812) b cur s" using module_ok [OF assms(1,4,2,3)] .
  have mod: "module_inv k B b (cur, s)" and led: "rollover_led k B (cur, s)"
    using rollover_sys.both.inv_reachable [OF assms(1,4)] by simp_all
  obtain cpu where cpu: "cpu \<in> set (cpu_possible k)" "window_of s cpu = lastq s"
    using led assms(2,3,5,6) by (auto simp: rollover_led_def leader_def)
  have W: "?W \<noteq> 0" using ok by (auto simp: sys_ok_def core_ok_def walt_ok_def)
  have "\<exists>s'. lse_tick_entry k he p rq s = Inr s' \<and> work_pending s' \<noteq> None"
    if rq: "rq_cpu rq = cpu" "ts_id p = cur cpu" "sys_lts s (cur cpu) = Some l" "hook_at k ?W he cur rq s"
      "mark_start l \<noteq> hook_clock he rq s" and late: "unat ?W \<le> unat (hook_clock he rq s - window_of s cpu)" for he rq p l
  proof -
    let ?wc = "hook_clock he rq s"
    let ?n = "unat (?wc - window_of s cpu) div unat ?W"
    obtain s' where s': "lse_tick_entry k he p rq s = Inr s'" "cpu_rolls cpu s s'"
      "window_of s' cpu = window_of s cpu + word_of_nat ?n * ucast ?W"
      using leader_tick [OF ok assms(2) rq(4) _ assms(6)] rq by blast
    have rd: "reading_ok ?W ?wc (sys_lrq s cpu)" using rq(1,4) by (simp add: hook_at_def)
    then have adv: "unat (window_of s' cpu) = unat (window_of s cpu) + ?n * unat ?W"
      using window_advance(1) [of "window_of s cpu" ?wc ?W] W s'(3) by (simp add: reading_ok_def window_of_def)
    have "0 < unat ?W" using W by (simp add: unat_gt_0)
    then have "0 < ?n * unat ?W" using late by (simp add: div_greater_zero_iff)
    then have "window_of s' cpu \<noteq> window_of s cpu" using adv by auto
    then show ?thesis using s'(1,2) cpu(2) unfolding cpu_rolls_lastq by blast
  qed
  moreover have "lastq s < lastq s'"
    if "(sys_step k B b)\<^sup>*\<^sup>* (cur, s) (cur', s')" "window_of s' cpu \<noteq> window_of s cpu" for cur' s'
    using run_leader [OF that(1) assms(2,3) mod] assms(6) cpu(2) that(2) by simp
  ultimately show ?thesis using cpu(1) by blast
qed

theorem rollover_resumes_witness:
  "\<exists>x s. module_started demo_kernel x \<and> (sys_step demo_kernel 8000000 False)\<^sup>*\<^sup>* x (id, s) \<and> sys_started s \<and>
    (\<exists>cpu \<in> set (cpu_possible demo_kernel). \<forall>cur' s'.
       (sys_step demo_kernel 8000000 False)\<^sup>*\<^sup>* (id, s) (cur', s') \<longrightarrow> window_of s' cpu \<noteq> window_of s cpu \<longrightarrow>
       lastq s < lastq s')"
proof -
  obtain x s where x: "module_started demo_kernel x" "(sys_step demo_kernel 8000000 False)\<^sup>*\<^sup>* x (id, s)" "sys_started s"
    using demo_started_run by blast
  have "cpu_possible demo_kernel \<noteq> []" by (simp add: demo_kernel_def)
  from rollover_resumes [OF x(1) demo_kernel_ok order_refl x(2) this x(3)] x show ?thesis by blast
qed

text \<open>C10: But it can starve: over a run in which every CPU whose window is not ahead of the last elected one
  keeps its window, no roll over is elected and no work is queued, however often the CPUs that are
  ahead roll over, and they stay ahead.\<close>

theorem rollover_starves:
  assumes "module_started k x" "kernel_ok k" "8000000 \<le> B" "(sys_step k B b)\<^sup>*\<^sup>* x (cur, s)" "sys_started s"
    and "(sys_step k B b)\<^sup>*\<^sup>* (cur, s) (cur', s')"
    and "\<forall>cpu \<in> set (cpu_possible k). ahead s cpu \<or> window_of s' cpu = window_of s cpu"
  shows "lastq s' = lastq s \<and> work_pending s' \<in> {None, work_pending s} \<and> (\<forall>cpu. ahead s cpu \<longrightarrow> ahead s' cpu)"
  using run_starves [OF assms(6,2,3)] module_sys.inv_reachable [OF assms(1,4)] assms(5,7) by simp

text \<open>How a CPU gets ahead, on the demonstration machine: CPU 0 ticks at 9 ms and is elected; CPU 3, idle until then, ticks at
  25 ms and is ahead; its next roll over, two windows later, is not elected.\<close>

theorem rollover_starves_witness:
  "\<exists>x s s'. module_started demo_kernel x \<and> (sys_step demo_kernel 8000000 False)\<^sup>*\<^sup>* x (id, s) \<and> demo_step s s' \<and>
    window_of s 3 = 25000000 \<and> window_of s' 3 = 41000000 \<and> lastq s = 9000000 \<and> lastq s' = 9000000"
proof -
  let ?run = "(sys_step demo_kernel 8000000 False)\<^sup>*\<^sup>*"
  have cpus: "(0::nat) \<in> set (cpu_possible demo_kernel)" "(3::nat) \<in> set (cpu_possible demo_kernel)"
    by (simp_all add: demo_kernel_def)
  obtain x s0 where x: "module_started demo_kernel x" "?run x (id, s0)" "demo_sys_ok s0" "sys_started s0" "lastq s0 = 1000000"
    "\<forall>cpu \<in> set (cpu_possible demo_kernel). window_of s0 cpu = 1000000" "\<forall>cpu. latest_clock (sys_lrq s0 cpu) = 0"
    and lts: "\<forall>i \<in> {0, 3}. \<exists>l. sys_lts s0 i = Some l \<and> mark_start l = 0"
    using demo_started_run by blast
  obtain l0 l3 where l: "sys_lts s0 0 = Some l0" "mark_start l0 < 9000000" "sys_lts s0 3 = Some l3" "mark_start l3 < 25000000"
    using lts by auto
  have w0: "window_of s0 0 = 1000000" "window_of s0 3 = 1000000" using x(6) cpus by blast+
  have "window_of s0 0 \<le> 9000000" "latest_clock (sys_lrq s0 0) \<le> 9000000" "unat (9000000 :: u64) < 2 ^ 40"
    using w0 x(7) by simp_all
  from demo_tick [OF x(3,4) cpus(1) l(1,2) this] obtain s1 where
    s1: "demo_step s0 s1" "demo_sys_ok s1" "sys_started s1" "lastq s1 = (if lastq s0 = window_of s0 0 then window_of s1 0 else lastq s0)"
    "window_of s1 0 = window_of s0 0 + word_of_nat (unat (9000000 - window_of s0 0) div 8000000) * 8000000"
    "\<forall>cpu. cpu \<noteq> 0 \<longrightarrow> sys_lrq s1 cpu = sys_lrq s0 cpu" "\<forall>i. i \<noteq> 0 \<longrightarrow> sys_lts s1 i = sys_lts s0 i" by blast
  have s1w: "window_of s1 0 = 9000000" using s1(5) by (simp add: w0)
  have "window_of s1 3 = 1000000" "latest_clock (sys_lrq s1 3) = 0" "sys_lts s1 3 = Some l3"
    using s1(6,7) w0 x(7) l(3) by (simp_all add: window_of_def)
  moreover have "lastq s1 = 9000000" using s1(4) s1w w0 x(5) by simp
  ultimately have w1: "lastq s1 = 9000000" "window_of s1 3 = 1000000" "latest_clock (sys_lrq s1 3) = 0"
    "sys_lts s1 3 = Some l3" by blast+
  have "window_of s1 3 \<le> 25000000" "latest_clock (sys_lrq s1 3) \<le> 25000000" "unat (25000000 :: u64) < 2 ^ 40"
    using w1 by simp_all
  from demo_tick [OF s1(2,3) cpus(2) w1(4) l(4) this] obtain s2 l where
    s2: "demo_step s1 s2" "demo_sys_ok s2" "sys_started s2" "lastq s2 = (if lastq s1 = window_of s1 3 then window_of s2 3 else lastq s1)"
    "window_of s2 3 = window_of s1 3 + word_of_nat (unat (25000000 - window_of s1 3) div 8000000) * 8000000"
    "sys_lts s2 3 = Some l" "mark_start l = 25000000" "latest_clock (sys_lrq s2 3) \<le> 25000000" by blast
  have s2w: "window_of s2 3 = 25000000" using s2(5) by (simp add: w1)
  have w2: "lastq s2 = 9000000" using s2(4) w1 by simp
  have "mark_start l < 41000000" "window_of s2 3 \<le> 41000000" "latest_clock (sys_lrq s2 3) \<le> 41000000"
    "unat (41000000 :: u64) < 2 ^ 40"
    using s2(7) s2w order_trans [OF s2(8), of 41000000] by simp_all
  from demo_tick [OF s2(2,3) cpus(2) s2(6) this] obtain s3 where
    s3: "demo_step s2 s3" "window_of s3 3 = window_of s2 3 + word_of_nat (unat (41000000 - window_of s2 3) div 8000000) * 8000000"
      "\<forall>cpu. cpu \<noteq> 3 \<longrightarrow> sys_lrq s3 cpu = sys_lrq s2 cpu" by blast
  have s3w: "window_of s3 3 = 41000000" using s3(2) by (simp add: s2w)
  have run23: "?run (id, s2) (id, s3)" using s3(1) by blast
  have run: "?run x (id, s2)" using x(2) s1(1) s2(1) by (meson rtranclp.rtrancl_into_rtrancl)
  have "lastq s3 = lastq s2 \<and> work_pending s3 \<in> {None, work_pending s2} \<and> (\<forall>cpu. ahead s2 cpu \<longrightarrow> ahead s3 cpu)"
  proof (rule rollover_starves [OF x(1) demo_kernel_ok order_refl run s2(3) run23])
    show "\<forall>cpu \<in> set (cpu_possible demo_kernel). ahead s2 cpu \<or> window_of s3 cpu = window_of s2 cpu"
    proof
      fix cpu show "ahead s2 cpu \<or> window_of s3 cpu = window_of s2 cpu"
        using s3(3) s2w w2 by (cases "cpu = 3") (simp_all add: ahead_def window_of_def)
    qed
  qed
  then have "lastq s3 = 9000000" using w2 by simp
  then show ?thesis using x(1) run s3(1) s3w s2w w2 by blast
qed

end
