(* ===== verification/Lse_List.thy ===== *)
theory Lse_List
  imports Lse_Cluster
begin

text \<open>
  The list of clusters as the code keeps it: a circular doubly linked list through the \<open>list_head\<close> of
  each cluster and a head (\<open>src/lse_sched_cluster.c\<close>, \<open>src/lse_main.h\<close>).  \<open>Lse_Cluster\<close> uses a HOL list
  in its place; here the pointer operations written in the repository - the loops
  \<open>for_each_lse_cluster\<close>, the search of \<open>insert_cluster\<close> and \<open>move_list\<close>, which publishes a new list -
  are modelled on a store of pointers and shown to implement the operations on lists.  The loops
  run with fuel; the lemmas show that the length of the list is enough.
\<close>

section \<open>Pointers\<close>

record links =
  nxt :: "nat \<Rightarrow> nat"
  prv :: "nat \<Rightarrow> nat"

text \<open>From \<open>a\<close> over \<open>xs\<close> to \<open>b\<close>, in both directions; a list is a chain from its head to its head.\<close>

fun chain :: "links \<Rightarrow> nat \<Rightarrow> nat list \<Rightarrow> nat \<Rightarrow> bool" where
  "chain s a [] b \<longleftrightarrow> nxt s a = b \<and> prv s b = a"
| "chain s a (x # xs) b \<longleftrightarrow> nxt s a = x \<and> prv s x = a \<and> chain s x xs b"

definition ring :: "links \<Rightarrow> nat \<Rightarrow> nat list \<Rightarrow> bool" where
  "ring s h xs \<longleftrightarrow> chain s h xs h \<and> distinct (h # xs)"

lemma chain_snoc: "chain s a (xs @ [y]) b \<longleftrightarrow> chain s a xs y \<and> nxt s y = b \<and> prv s b = y"
  by (induction xs arbitrary: a) auto

lemma chain_frame:
  "(\<And>p. p \<in> set (a # xs) \<Longrightarrow> nxt s' p = nxt s p) \<Longrightarrow> (\<And>p. p \<in> set (xs @ [b]) \<Longrightarrow> prv s' p = prv s p) \<Longrightarrow>
   chain s' a xs b = chain s a xs b"
  by (induction xs arbitrary: a) auto

section \<open>The loops\<close>

text \<open>\<open>list_for_each_entry\<close> from \<open>p\<close> until the head.\<close>

fun for_each_lse_cluster :: "nat \<Rightarrow> links \<Rightarrow> nat \<Rightarrow> nat \<Rightarrow> nat list option" where
  "for_each_lse_cluster n s h p =
     (if p = h then Some []
      else case n of 0 \<Rightarrow> None | Suc m \<Rightarrow> map_option ((#) p) (for_each_lse_cluster m s h (nxt s p)))"

fun for_each_lse_cluster_reverse :: "nat \<Rightarrow> links \<Rightarrow> nat \<Rightarrow> nat \<Rightarrow> nat list option" where
  "for_each_lse_cluster_reverse n s h p =
     (if p = h then Some []
      else case n of 0 \<Rightarrow> None | Suc m \<Rightarrow> map_option ((#) p) (for_each_lse_cluster_reverse m s h (prv s p)))"

declare for_each_lse_cluster.simps [simp del] for_each_lse_cluster_reverse.simps [simp del]

definition min_cap_cluster :: "links \<Rightarrow> nat \<Rightarrow> nat" where
  "min_cap_cluster s h = nxt s h"

definition max_cap_cluster :: "links \<Rightarrow> nat \<Rightarrow> nat" where
  "max_cap_cluster s h = prv s h"

text \<open>The search of \<open>insert_cluster\<close>: the entry behind which the new one is put.\<close>

fun insert_iter :: "nat \<Rightarrow> (nat \<Rightarrow> bool) \<Rightarrow> links \<Rightarrow> nat \<Rightarrow> nat \<Rightarrow> nat \<Rightarrow> nat option" where
  "insert_iter n smaller s h iter p =
     (if p = h then Some iter
      else case n of 0 \<Rightarrow> None | Suc m \<Rightarrow> if smaller p then Some iter else insert_iter m smaller s h p (nxt s p))"

declare insert_iter.simps [simp del]

lemma walk_chain:
  "chain s a xs h \<Longrightarrow> h \<notin> set xs \<Longrightarrow> length xs \<le> n \<Longrightarrow> for_each_lse_cluster n s h (nxt s a) = Some xs"
proof (induction xs arbitrary: a n)
  case (Cons x xs)
  then obtain m where n: "n = Suc m" by (cases n) auto
  show ?case unfolding n using Cons n by (subst for_each_lse_cluster.simps) auto
qed (simp add: for_each_lse_cluster.simps)

lemma walk_back_chain:
  "chain s h xs a \<Longrightarrow> h \<notin> set xs \<Longrightarrow> length xs \<le> n \<Longrightarrow> for_each_lse_cluster_reverse n s h (prv s a) = Some (rev xs)"
proof (induction xs arbitrary: a n rule: rev_induct)
  case (snoc x xs)
  then obtain m where n: "n = Suc m" by (cases n) auto
  show ?case unfolding n using snoc n by (subst for_each_lse_cluster_reverse.simps) (auto simp: chain_snoc)
qed (simp add: for_each_lse_cluster_reverse.simps)

lemma ring_walks:
  assumes "ring s h xs" "length xs \<le> n"
  shows "for_each_lse_cluster n s h (nxt s h) = Some xs" "for_each_lse_cluster_reverse n s h (prv s h) = Some (rev xs)"
  using assms walk_chain [of s h xs h n] walk_back_chain [of s h xs h n] by (auto simp: ring_def)

lemma ring_ends:
  assumes "ring s h xs" "xs \<noteq> []" shows "min_cap_cluster s h = hd xs" "max_cap_cluster s h = last xs"
proof -
  show "min_cap_cluster s h = hd xs" using assms by (cases xs) (simp_all add: ring_def min_cap_cluster_def)
  show "max_cap_cluster s h = last xs"
    using assms by (cases xs rule: rev_cases) (simp_all add: ring_def max_cap_cluster_def chain_snoc)
qed

text \<open>The search finds the place where \<open>insert_cluster\<close> of \<open>Lse_Cluster\<close> puts the new cluster.\<close>

lemma insert_iter_chain:
  "chain s a xs h \<Longrightarrow> h \<notin> set xs \<Longrightarrow> length xs \<le> n \<Longrightarrow>
   \<exists>ys zs. xs = ys @ zs \<and> insert_cluster k cs c xs = ys @ c # zs \<and>
     insert_iter n (\<lambda>p. cluster_capacity k cs c < cluster_capacity k cs p) s h a (nxt s a) = Some (last (a # ys))"
proof (induction xs arbitrary: a n)
  case (Cons x xs)
  then obtain m where n: "n = Suc m" by (cases n) auto
  show ?case
  proof (cases "cluster_capacity k cs c < cluster_capacity k cs x")
    case True
    have "x \<noteq> h" "nxt s a = x" using Cons.prems by auto
    then have "insert_iter n (\<lambda>p. cluster_capacity k cs c < cluster_capacity k cs p) s h a (nxt s a) = Some a"
      using True n by (subst insert_iter.simps) simp
    then show ?thesis using True by (intro exI [of _ "[]"] exI [of _ "x # xs"]) simp
  next
    case False
    obtain ys zs where "xs = ys @ zs" "insert_cluster k cs c xs = ys @ c # zs"
      "insert_iter m (\<lambda>p. cluster_capacity k cs c < cluster_capacity k cs p) s h x (nxt s x) = Some (last (x # ys))"
      using Cons.IH [of x m] Cons.prems n by auto
    then show ?thesis unfolding n using False Cons.prems
      by (intro exI [of _ "x # ys"] exI [of _ zs]) (subst insert_iter.simps, auto)
  qed
qed (simp add: insert_iter.simps)

section \<open>Publishing a list\<close>

definition move_list :: "nat \<Rightarrow> nat \<Rightarrow> bool \<Rightarrow> links \<Rightarrow> links" where
  "move_list dst src sync_rcu s =
     (let first = nxt s src; last = prv s src;
          s = (if sync_rcu then s\<lparr>nxt := (nxt s)(src := src), prv := (prv s)(src := src)\<rparr> else s);
          s = s\<lparr>prv := (prv s)(first := dst)\<rparr>;
          s = s\<lparr>prv := (prv s)(dst := last)\<rparr>;
          s = s\<lparr>nxt := (nxt s)(last := dst)\<rparr>
      in s\<lparr>nxt := (nxt s)(dst := first)\<rparr>)"

lemma move_list_ring:
  assumes src: "ring s src xs" and ne: "xs \<noteq> []" and dst: "dst \<notin> set (src # xs)"
  shows "ring (move_list dst src sync s) dst xs"
    "sync \<Longrightarrow> ring (move_list dst src sync s) src []"
    "p \<notin> set (dst # src # xs) \<Longrightarrow> nxt (move_list dst src sync s) p = nxt s p \<and> prv (move_list dst src sync s) p = prv s p"
proof -
  let ?s = "move_list dst src sync s"
  have ends: "nxt s src = hd xs" "prv s src = last xs"
    using ring_ends [OF src ne] by (simp_all add: min_cap_cluster_def max_cap_cluster_def)
  have d: "distinct (src # xs)" using src by (simp add: ring_def)
  have hl: "hd xs \<in> set xs" "last xs \<in> set xs" using ne by simp_all
  then have neq: "hd xs \<noteq> src" "last xs \<noteq> src" "hd xs \<noteq> dst" "last xs \<noteq> dst" "src \<noteq> dst" using d dst by auto
  have n: "nxt ?s p = (if p = dst then hd xs else if p = last xs then dst else if sync \<and> p = src then src else nxt s p)"
    and p: "prv ?s p = (if p = dst then last xs else if p = hd xs then dst else if sync \<and> p = src then src else prv s p)" for p
    using neq by (auto simp: move_list_def Let_def ends)
  show "p \<notin> set (dst # src # xs) \<Longrightarrow> nxt ?s p = nxt s p \<and> prv ?s p = prv s p" using hl by (auto simp: n p)
  show "sync \<Longrightarrow> ring ?s src []" using neq n [of src] p [of src] by (simp add: ring_def)
  have "chain ?s dst xs dst"
  proof (cases "tl xs = []")
    case True
    then obtain x where "xs = [x]" using ne by (cases xs) auto
    then show ?thesis using dst by (simp add: n p)
  next
    case False
    then obtain x zs y where xs: "xs = x # zs @ [y]" using ne by (metis list.exhaust_sel rev_exhaust)
    have "chain s x zs y" using src by (simp add: ring_def xs chain_snoc)
    moreover have "chain ?s x zs y = chain s x zs y"
      using d dst by (intro chain_frame) (auto simp: n p xs)
    ultimately show ?thesis using dst d by (simp add: xs chain_snoc n p)
  qed
  then show "ring ?s dst xs" using d dst by (simp add: ring_def)
qed

text \<open>Moving an empty list would leave the old head as an entry of the new list.\<close>

lemma move_list_empty:
  assumes "ring s src []" "dst \<noteq> src"
  shows "for_each_lse_cluster 1 (move_list dst src False s) dst (nxt (move_list dst src False s) dst) = Some [src]"
  using assms by (simp add: ring_def move_list_def Let_def for_each_lse_cluster.simps)

section \<open>Property\<close>

text \<open>C13: With a complete topology of one to four clusters, and when every allocation succeeds, the
  construction ends by moving the list it has built on its stack behind \<open>lse_cluster_head\<close>.
  From then on the loop \<open>for_each_lse_cluster\<close> visits exactly the clusters of the table, in its order,
  and ends within four turns; the reverse loop visits them backwards, and \<open>min_cap_cluster\<close> and
  \<open>max_cap_cluster\<close> are the first and the last.  (An empty list would be moved wrongly, but a kernel
  has a CPU and so the table a cluster.)\<close>

theorem cluster_list_published:
  fixes head new_head
  assumes "\<forall>i \<in> set (cpu_possible k). topology_cluster_id k i \<noteq> - 1" "card (topology_ids k) \<le> 4"
    and "\<forall>n. kzalloc_ok n" "cpu_possible k \<noteq> []"
    and "lse_sched_cluster_init k kzalloc_ok (boot_clusters lrq) = Inr s"
    and "ring l new_head (lse_cluster_head s)" "head \<notin> set (new_head # lse_cluster_head s)"
  defines "l' \<equiv> move_list head new_head False l"
  shows "for_each_lse_cluster 4 l' head (nxt l' head) = Some (lse_cluster_head s) \<and>
    for_each_lse_cluster_reverse 4 l' head (prv l' head) = Some (rev (lse_cluster_head s)) \<and>
    min_cap_cluster l' head = hd (lse_cluster_head s) \<and> max_cap_cluster l' head = last (lse_cluster_head s)"
proof -
  have len: "length (lse_cluster_head s) = card (topology_ids k)"
    using cluster_init_spec [OF assms(1-3), of lrq] assms(5) by auto
  have "topology_ids k \<noteq> {}" "finite (topology_ids k)" using assms(4) by (auto simp: topology_ids_def)
  then have ne: "lse_cluster_head s \<noteq> []" using len by auto
  have ring: "ring l' head (lse_cluster_head s)"
    unfolding l'_def by (rule move_list_ring(1) [OF assms(6) ne assms(7)])
  show ?thesis using ring_walks [OF ring, of 4] ring_ends [OF ring ne] len assms(2) by simp
qed

text \<open>The pointers of a list, for the example.\<close>

definition link :: "nat \<Rightarrow> nat \<Rightarrow> links \<Rightarrow> links" where
  "link p q s = s\<lparr>nxt := (nxt s)(p := q), prv := (prv s)(q := p)\<rparr>"

fun build :: "nat \<Rightarrow> nat list \<Rightarrow> nat \<Rightarrow> links \<Rightarrow> links" where
  "build a [] b s = link a b s"
| "build a (x # xs) b s = link a x (build x xs b s)"

lemma build_frame:
  "p \<notin> set (a # xs) \<Longrightarrow> nxt (build a xs b s) p = nxt s p" "q \<notin> set (xs @ [b]) \<Longrightarrow> prv (build a xs b s) q = prv s q"
  by (induction xs arbitrary: a) (auto simp: link_def)

lemma chain_build: "distinct (a # xs) \<Longrightarrow> distinct (xs @ [b]) \<Longrightarrow> chain (build a xs b s) a xs b"
proof (induction xs arbitrary: a)
  case (Cons x xs)
  have "chain (build a (x # xs) b s) x xs b = chain (build x xs b s) x xs b"
    using Cons.prems by (intro chain_frame) (auto simp: link_def)
  then show ?case using Cons by (simp add: link_def)
qed (simp add: link_def)

lemma ring_build: "distinct (h # xs) \<Longrightarrow> ring (build h xs h s) h xs"
  using chain_build [of h xs h s] by (simp add: ring_def)

theorem cluster_list_published_witness:
  "\<exists>s l h. lse_sched_cluster_init demo_kernel (\<lambda>_. True) (boot_clusters (\<lambda>_. demo_lrq)) = Inr s \<and>
     for_each_lse_cluster 4 l h (nxt l h) = Some (lse_cluster_head s) \<and> length (lse_cluster_head s) = 3"
proof -
  obtain s where s: "lse_sched_cluster_init demo_kernel (\<lambda>_. True) (boot_clusters (\<lambda>_. demo_lrq)) = Inr s"
    "length (lse_cluster_head s) = 3" "distinct (lse_cluster_head s)"
    using cluster_init_spec [OF demo_topology(2), of "\<lambda>_. True" "\<lambda>_. demo_lrq"] by (auto simp: demo_topology(1))
  obtain new where new: "new \<notin> set (lse_cluster_head s)" using ex_new_if_finite [OF infinite_UNIV_nat] by blast
  obtain h where h: "h \<notin> set (new # lse_cluster_head s)" using ex_new_if_finite [OF infinite_UNIV_nat] by blast
  let ?l = "build new (lse_cluster_head s) new \<lparr>nxt = id, prv = id\<rparr>"
  have "ring ?l new (lse_cluster_head s)" using new s(3) by (intro ring_build) simp
  moreover have "card (topology_ids demo_kernel) \<le> 4" "cpu_possible demo_kernel \<noteq> []"
    by (simp_all add: demo_topology(1)) (simp add: demo_kernel_def)
  ultimately show ?thesis
    using cluster_list_published [OF demo_topology(2) _ _ _ s(1) _ h, of ?l] s by (metis (no_types, lifting))
qed

end
