(* ===== verification/Lse_Topology.thy ===== *)
theory Lse_Topology
  imports Lse_Cluster
begin

text \<open>
  The cluster table over its whole life: how many turns the construction takes and when it crashes,
  and that from then on, through any number of cpufreq notifications, every possible CPU points to
  a live cluster that contains it, so that the notifiers never follow a dangling or NULL pointer.
\<close>

section \<open>The turns of the construction\<close>

definition mapped_cpus :: "kernel \<Rightarrow> nat list \<Rightarrow> nat list" where
  "mapped_cpus k cpus = takeWhile (\<lambda>i. topology_cluster_id k i \<noteq> - 1) cpus"

text \<open>The clusters that the loop of \<open>update_cluster_topology\<close> meets before a CPU without one.\<close>

definition turns :: "kernel \<Rightarrow> nat list \<Rightarrow> nat" where
  "turns k cpus = card (topology_cluster_id k ` set (mapped_cpus k cpus))"

lemma takeWhile_filter:
  assumes "\<And>x. x \<in> set xs \<Longrightarrow> \<not> Q x \<Longrightarrow> P x"
  shows "takeWhile P (filter Q xs) = filter Q (takeWhile P xs)"
  using assms by (induction xs) auto

lemma turns_simps [simp]:
  "turns k [] = 0" "topology_cluster_id k i = - 1 \<Longrightarrow> turns k (i # cpus) = 0"
  by (simp_all add: turns_def mapped_cpus_def)

lemma turns_next:
  assumes i: "topology_cluster_id k i \<noteq> - 1" and sub: "set (i # rest) \<subseteq> set (cpu_possible k)"
  shows "turns k (i # rest) = Suc (turns k (filter (\<lambda>c. c \<notin> set (get_possible_siblings k i)) rest))"
proof -
  let ?id = "topology_cluster_id k" and ?P = "\<lambda>i. topology_cluster_id k i \<noteq> - 1"
  have sib: "c \<in> set (get_possible_siblings k i) \<longleftrightarrow> ?id i = ?id c" if "c \<in> set rest" for c
    using i sub that by (auto simp: get_possible_siblings_def)
  have flt: "filter (\<lambda>c. c \<notin> set (get_possible_siblings k i)) rest = filter (\<lambda>c. ?id i \<noteq> ?id c) rest"
    by (rule filter_cong) (simp_all add: sib)
  have "takeWhile ?P (filter (\<lambda>c. ?id i \<noteq> ?id c) rest) = filter (\<lambda>c. ?id i \<noteq> ?id c) (takeWhile ?P rest)"
    using i by (intro takeWhile_filter) auto
  then have "?id ` set (mapped_cpus k (filter (\<lambda>c. ?id i \<noteq> ?id c) rest)) = ?id ` set (mapped_cpus k rest) - {?id i}"
    by (auto simp: mapped_cpus_def)
  moreover have "mapped_cpus k (i # rest) = i # mapped_cpus k rest" using i by (simp add: mapped_cpus_def)
  ultimately show ?thesis unfolding turns_def flt
    by (simp add: card.insert_remove)
qed

lemma cleanup_next: "cl_next (cleanup_clusters head s) = cl_next s"
  by (induction head arbitrary: s) (simp_all add: Let_def)

lemma topology_loop_turns:
  assumes "set cpus \<subseteq> set (cpu_possible k)" "lse_num_sched_clusters s = int (length head)" "length head \<le> 4"
  shows "if length head + turns k cpus \<le> 4 \<and> (\<forall>n \<in> {cl_next s..<cl_next s + turns k cpus}. kzalloc_ok n)
    then \<exists>b head' s'. topology_loop k kzalloc_ok cpus (head, s) = Inr (b, head', s') \<and>
      cl_next s' = cl_next s + turns k cpus
    else topology_loop k kzalloc_ok cpus (head, s) = Inl Kernel_Bug"
  using assms
proof (induction "length cpus" arbitrary: cpus head s rule: less_induct)
  case less
  show ?case
  proof (cases cpus)
    case Nil
    then show ?thesis using less.prems by (auto intro: exI [of _ True])
  next
    case (Cons i rest)
    let ?m = "get_possible_siblings k i"
    let ?rest = "filter (\<lambda>c. c \<notin> set ?m) rest"
    show ?thesis
    proof (cases "topology_cluster_id k i = - 1")
      case True
      then show ?thesis using less.prems by (auto simp: Cons get_possible_siblings_def cleanup_next intro: exI [of _ False])
    next
      case False
      have ne: "?m \<noteq> []" using False less.prems(1) Cons by (auto simp: get_possible_siblings_def filter_empty_conv)
      have t: "turns k cpus = Suc (turns k ?rest)" using turns_next [OF False] less.prems(1) Cons by simp
      have first: "{cl_next s..<cl_next s + Suc (turns k ?rest)} =
          insert (cl_next s) {Suc (cl_next s)..<Suc (cl_next s) + turns k ?rest}" by auto
      show ?thesis
      proof (cases "kzalloc_ok (cl_next s) \<and> length head < 4")
        case fits: False
        then have "add_cluster k kzalloc_ok ?m (head, s) = Inl Kernel_Bug"
          using less.prems(2,3) by (auto simp: add_cluster_def alloc_new_cluster_def Let_def MAX_LSE_CLUSTERS_def)
        then show ?thesis using fits less.prems(3) unfolding t first by (auto simp: Cons ne)
      next
        case fits: True
        then obtain head1 s1 where add: "add_cluster k kzalloc_ok ?m (head, s) = Inr (head1, s1)"
          "length head1 = Suc (length head)" "lse_num_sched_clusters s1 = int (length head1)" "cl_next s1 = Suc (cl_next s)"
          using less.prems(2)
          by (auto simp: add_cluster_def alloc_new_cluster_def Let_def MAX_LSE_CLUSTERS_def insert_cluster_list)
        have loop: "topology_loop k kzalloc_ok cpus (head, s) = topology_loop k kzalloc_ok ?rest (head1, s1)"
          by (simp add: Cons ne add(1))
        have "length ?rest < length cpus" using length_filter_le [of _ rest] by (simp add: Cons le_imp_less_Suc)
        moreover have "set ?rest \<subseteq> set (cpu_possible k)" using less.prems(1) Cons by auto
        ultimately have "if length head1 + turns k ?rest \<le> 4 \<and> (\<forall>n \<in> {cl_next s1..<cl_next s1 + turns k ?rest}. kzalloc_ok n)
          then \<exists>b head' s'. topology_loop k kzalloc_ok ?rest (head1, s1) = Inr (b, head', s') \<and>
            cl_next s' = cl_next s1 + turns k ?rest
          else topology_loop k kzalloc_ok ?rest (head1, s1) = Inl Kernel_Bug"
          using add(2,3) fits by (intro less.hyps) simp_all
        then show ?thesis using fits unfolding loop t first add(2,4) by (auto split: if_splits)
      qed
    qed
  qed
qed

lemma assign_ids_next: "cl_next (assign_cluster_ids k head s) = cl_next s"
  unfolding assign_cluster_ids_def by (induction head arbitrary: s) simp_all

lemma cluster_init_turns:
  defines "n k \<equiv> turns k (cpu_possible k)"
  shows "if n k \<le> 4 \<and> (\<forall>c \<in> {1..n k}. kzalloc_ok c)
    then \<exists>s. lse_sched_cluster_init k kzalloc_ok (boot_clusters lrq) = Inr s \<and> cl_next s = 1 + n k
    else lse_sched_cluster_init k kzalloc_ok (boot_clusters lrq) = Inl Kernel_Bug"
proof -
  let ?s = "init_clusters k (boot_clusters lrq)"
  have s: "lse_num_sched_clusters ?s = int (length ([] :: nat list))" "cl_next ?s = 1" "length ([] :: nat list) \<le> 4"
    by (simp_all add: init_clusters_def boot_clusters_def)
  have range: "{cl_next ?s..<cl_next ?s + turns k (cpu_possible k)} = {1..n k}" by (auto simp: s(2) n_def simp del: init_clusters_fields)
  have loop: "if n k \<le> 4 \<and> (\<forall>c \<in> {1..n k}. kzalloc_ok c)
    then \<exists>b head' s'. topology_loop k kzalloc_ok (cpu_possible k) ([], ?s) = Inr (b, head', s') \<and> cl_next s' = 1 + n k
    else topology_loop k kzalloc_ok (cpu_possible k) ([], ?s) = Inl Kernel_Bug"
    using topology_loop_turns [where kzalloc_ok = kzalloc_ok and k = k, OF order_refl s(1) s(3)]
    unfolding range by (simp only: s(2) n_def list.size add_0)
  show ?thesis
  proof (cases "n k \<le> 4 \<and> (\<forall>c \<in> {1..n k}. kzalloc_ok c)")
    case True
    then obtain b head' s' where
      "topology_loop k kzalloc_ok (cpu_possible k) ([], ?s) = Inr (b, head', s')" "cl_next s' = 1 + n k"
      using loop by (auto simp del: One_nat_def)
    then show ?thesis using True
      by (cases b) (auto simp del: One_nat_def simp: lse_sched_cluster_init_def update_cluster_topology_def Let_def assign_ids_next)
  next
    case False
    then have "topology_loop k kzalloc_ok (cpu_possible k) ([], ?s) = Inl Kernel_Bug"
      using loop by (simp only: if_False)
    then show ?thesis unfolding if_not_P [OF False]
      by (simp add: lse_sched_cluster_init_def update_cluster_topology_def)
  qed
qed

section \<open>Every CPU points to a live cluster that contains it\<close>

definition clusters_linked :: "kernel \<Rightarrow> cluster_state \<Rightarrow> bool" where
  "clusters_linked k s \<longleftrightarrow>
     (\<forall>cpu \<in> set (cpu_possible k). \<exists>c x. lrq_cluster (cl_lrq s cpu) = Some c \<and> cl_heap s c = Some x \<and> cpu \<in> set (cl_cpus x)) \<and>
     (\<exists>x. cl_heap s init_cluster_ptr = Some x \<and> cl_cpus x = cpu_possible k) \<and>
     (\<forall>c. cl_heap s c \<noteq> None \<longrightarrow> c < cl_next s)"

text \<open>The clusters of the list under construction are live, and none of them is \<open>init_cluster\<close>.\<close>

definition live_list :: "nat list \<Rightarrow> cluster_state \<Rightarrow> bool" where
  "live_list head s \<longleftrightarrow> (\<forall>c \<in> set head. c \<noteq> init_cluster_ptr \<and> cl_heap s c \<noteq> None) \<and> distinct head"

lemma init_linked: "clusters_linked k (init_clusters k (boot_clusters lrq))"
  by (auto simp: clusters_linked_def init_clusters_ptr)
    (simp_all add: init_clusters_def boot_clusters_def init_cluster_def init_cluster_ptr_def split: if_splits)

lemma add_cluster_linked:
  assumes lk: "clusters_linked k s" and live: "live_list head s"
    and add: "add_cluster k ok (get_possible_siblings k i) (head, s) = Inr (head', s')"
  shows "clusters_linked k s' \<and> live_list head' s'"
proof -
  let ?c = "cl_next s" and ?m = "get_possible_siblings k i"
  have fresh: "cl_heap s ?c = None" "?c \<noteq> init_cluster_ptr"
    using lk unfolding clusters_linked_def by (metis less_irrefl option.distinct(1))+
  obtain x where s': "cl_heap s' = (cl_heap s)(?c \<mapsto> x)" "cl_cpus x = ?m" "cl_next s' = Suc ?c"
    "\<And>cpu. lrq_cluster (cl_lrq s' cpu) = (if cpu \<in> set ?m then Some ?c else lrq_cluster (cl_lrq s cpu))"
    and head': "set head' = insert ?c (set head)" "distinct head' \<longleftrightarrow> ?c \<notin> set head \<and> distinct head"
    using add by (auto simp: add_cluster_def alloc_new_cluster_def Let_def insert_cluster_list split: if_splits)
  have "\<exists>c x. lrq_cluster (cl_lrq s' cpu) = Some c \<and> cl_heap s' c = Some x \<and> cpu \<in> set (cl_cpus x)"
    if "cpu \<in> set (cpu_possible k)" for cpu
    using lk that fresh(1) s' unfolding clusters_linked_def by (cases "cpu \<in> set ?m") fastforce+
  then have "clusters_linked k s'"
    using lk fresh s'(1,3) unfolding clusters_linked_def by (auto simp: less_SucI)
  moreover have "live_list head' s'"
    using live fresh s'(1) unfolding live_list_def head' by auto
  ultimately show ?thesis ..
qed

lemma free_cluster_linked:
  assumes lk: "clusters_linked k s" and c: "c \<noteq> init_cluster_ptr" "cl_heap s c \<noteq> None"
  shows "clusters_linked k ((set_lrq_cluster (cl_cpus (cl s c)) init_cluster_ptr s)
    \<lparr>lse_num_sched_clusters := n, cl_heap := (cl_heap s)(c := None)\<rparr>)" (is "clusters_linked k ?t")
proof -
  obtain x where x: "cl_heap s c = Some x" "cl s c = x" using c(2) by (auto simp: cl_def)
  have "\<exists>d y. lrq_cluster (cl_lrq ?t cpu) = Some d \<and> cl_heap ?t d = Some y \<and> cpu \<in> set (cl_cpus y)"
    if cpu: "cpu \<in> set (cpu_possible k)" for cpu
  proof (cases "cpu \<in> set (cl_cpus x)")
    case True
    then show ?thesis using lk c(1) cpu unfolding clusters_linked_def by (auto simp: x(2))
  next
    case False
    then show ?thesis using lk cpu x unfolding clusters_linked_def by fastforce
  qed
  then show ?thesis using lk c(1) unfolding clusters_linked_def by auto
qed

lemma cleanup_linked:
  "clusters_linked k s \<Longrightarrow> live_list head s \<Longrightarrow> clusters_linked k (cleanup_clusters head s)"
proof (induction head arbitrary: s)
  case (Cons c head)
  let ?t = "(set_lrq_cluster (cl_cpus (cl s c)) init_cluster_ptr s)
    \<lparr>lse_num_sched_clusters := lse_num_sched_clusters s - 1, cl_heap := (cl_heap s)(c := None)\<rparr>"
  have "clusters_linked k ?t" using Cons.prems by (intro free_cluster_linked) (auto simp: live_list_def)
  moreover have "live_list head ?t" using Cons.prems(2) by (auto simp: live_list_def)
  ultimately show ?case using Cons.IH [of ?t] by (simp add: Let_def)
qed simp

lemma topology_loop_linked:
  "topology_loop k ok cpus hs = Inr (b, head', s') \<Longrightarrow> clusters_linked k (snd hs) \<Longrightarrow> live_list (fst hs) (snd hs) \<Longrightarrow>
   clusters_linked k s' \<and> live_list head' s'"
proof (induction k ok cpus hs rule: topology_loop.induct)
  case (2 k ok i cpus hs)
  obtain head s where hs: "hs = (head, s)" by fastforce
  show ?case
  proof (cases "get_possible_siblings k i = []")
    case True
    then show ?thesis using 2(2-4) cleanup_linked [of k s head] by (auto simp: hs live_list_def)
  next
    case False
    then obtain head1 s1 where s1: "add_cluster k ok (get_possible_siblings k i) (head, s) = Inr (head1, s1)"
      "topology_loop k ok (filter (\<lambda>c. c \<notin> set (get_possible_siblings k i)) cpus) (head1, s1) = Inr (b, head', s')"
      using 2(2) by (auto simp: hs Let_def ebind_eq_Inr)
    have "clusters_linked k s1 \<and> live_list head1 s1"
      using add_cluster_linked [OF _ _ s1(1)] 2(3,4) by (simp add: hs)
    then show ?thesis using 2(1) [OF refl False, of "(head1, s1)"] s1 by (simp add: hs)
  qed
qed (simp_all add: live_list_def)

lemma linked_cong:
  assumes "clusters_linked k s" "cl_next s' = cl_next s"
    and "\<And>cpu. lrq_cluster (cl_lrq s' cpu) = lrq_cluster (cl_lrq s cpu)"
    and "\<And>c. map_option cl_cpus (cl_heap s' c) = map_option cl_cpus (cl_heap s c)"
  shows "clusters_linked k s'"
proof -
  have some: "\<exists>y. cl_heap s' c = Some y \<and> cl_cpus y = cl_cpus x" if "cl_heap s c = Some x" for c x
    using assms(4) [of c] that by (cases "cl_heap s' c") auto
  have none: "cl_heap s' c \<noteq> None \<longleftrightarrow> cl_heap s c \<noteq> None" for c
    using assms(4) [of c] by (cases "cl_heap s c"; cases "cl_heap s' c") auto
  show ?thesis unfolding clusters_linked_def
  proof (intro conjI ballI allI impI)
    fix cpu assume "cpu \<in> set (cpu_possible k)"
    then obtain c x where "lrq_cluster (cl_lrq s cpu) = Some c" "cl_heap s c = Some x" "cpu \<in> set (cl_cpus x)"
      using assms(1) unfolding clusters_linked_def by blast
    then show "\<exists>c x. lrq_cluster (cl_lrq s' cpu) = Some c \<and> cl_heap s' c = Some x \<and> cpu \<in> set (cl_cpus x)"
      using some [of c x] by (simp add: assms(3)) metis
  next
    show "\<exists>x. cl_heap s' init_cluster_ptr = Some x \<and> cl_cpus x = cpu_possible k"
      using assms(1) some unfolding clusters_linked_def by metis
    fix c assume "cl_heap s' c \<noteq> None"
    then show "c < cl_next s'" using assms(1,2) none unfolding clusters_linked_def by simp
  qed
qed

lemma assign_ids_linked:
  assumes "clusters_linked k s" "\<forall>c \<in> set head. cl_heap s c \<noteq> None"
  shows "clusters_linked k (assign_cluster_ids k head s)"
proof -
  have "map_option cl_cpus (cl_heap (assign_cluster_ids k head s) c) = map_option cl_cpus (cl_heap s c) \<and>
      cl_next (assign_cluster_ids k head s) = cl_next s \<and> cl_lrq (assign_cluster_ids k head s) = cl_lrq s" for c
    using assms(2) unfolding assign_cluster_ids_def
    by (induction head arbitrary: s) (auto simp: cl_def split: option.splits)
  then show ?thesis by (intro linked_cong [OF assms(1)]) simp_all
qed

lemma cluster_init_linked:
  assumes "lse_sched_cluster_init k ok (boot_clusters lrq) = Inr s"
  shows "clusters_linked k s"
proof -
  obtain b head' s' where loop: "topology_loop k ok (cpu_possible k) ([], init_clusters k (boot_clusters lrq)) = Inr (b, head', s')"
    using assms by (auto simp: lse_sched_cluster_init_def update_cluster_topology_def ebind_eq_Inr)
  have lk: "clusters_linked k s' \<and> live_list head' s'"
    using topology_loop_linked [OF loop] init_linked by (simp add: live_list_def)
  show ?thesis
  proof (cases b)
    case True
    let ?h = "align_clusters k s' head'"
    have "clusters_linked k (assign_cluster_ids k ?h s')"
      using lk by (intro assign_ids_linked) (simp_all add: align_clusters_perm live_list_def)
    moreover have "s = (assign_cluster_ids k ?h s')\<lparr>lse_cluster_head := ?h\<rparr>"
      using assms loop True by (simp add: lse_sched_cluster_init_def update_cluster_topology_def Let_def)
    ultimately show ?thesis using linked_cong by simp
  next
    case False
    then show ?thesis using assms loop lk by (simp add: lse_sched_cluster_init_def update_cluster_topology_def)
  qed
qed

section \<open>The notifiers on a linked table\<close>

lemma upd_cluster_linked:
  assumes "clusters_linked k s" "\<And>x. cl_cpus (f x) = cl_cpus x"
  shows "clusters_linked k (upd_cluster c f s)"
proof (rule linked_cong [OF assms(1)])
  fix d show "map_option cl_cpus (cl_heap (upd_cluster c f s) d) = map_option cl_cpus (cl_heap s d)"
    using assms(2) by (cases "d = c"; cases "cl_heap s c") (simp_all add: upd_cluster_def)
qed (simp_all add: upd_cluster_def)

lemma domain_fold_cluster:
  "lrq_cluster (fold (\<lambda>j lrq. lrq(j := (lrq j)\<lparr>freq_domain_cpumask := m\<rparr>)) cpus lrq i) = lrq_cluster (lrq i)"
  by (induction cpus arbitrary: lrq) auto

text \<open>The creation loop returns, with a live cluster when it has taken a turn.\<close>

lemma create_policy_loop_linked:
  "clusters_linked k (snd cs) \<Longrightarrow> set cpus \<subseteq> set (cpu_possible k) \<Longrightarrow> cpus \<noteq> [] \<or> fst cs \<noteq> None \<Longrightarrow>
   \<exists>c s'. create_policy_loop p cpus cs = Inr (Some c, s') \<and> clusters_linked k s' \<and>
     lse_cluster_head s' = lse_cluster_head (snd cs)"
proof (induction p cpus cs rule: create_policy_loop.induct)
  case (1 p cs)
  then show ?case by (cases cs) auto
next
  case (2 p i cpus cs)
  obtain o1 s where cs: "cs = (o1, s)" by fastforce
  obtain c where c: "lrq_cluster (cl_lrq s i) = Some c" using 2(2,3) unfolding clusters_linked_def cs by auto
  let ?s' = "if \<not> freq_init_done (cl s c) then
      (upd_cluster c (\<lambda>x. x\<lparr>cl_min_freq := pol_min p, cl_max_freq := pol_max p, freq_init_done := True\<rparr>) s)
      \<lparr>cl_lrq := fold (\<lambda>j lrq. lrq(j := (lrq j)\<lparr>freq_domain_cpumask := related_cpus p\<rparr>)) (cl_cpus (cl s c)) (cl_lrq s)\<rparr>
    else s"
  have head: "lse_cluster_head ?s' = lse_cluster_head s" by (simp add: upd_cluster_def)
  have "clusters_linked k (upd_cluster c (\<lambda>x. x\<lparr>cl_min_freq := pol_min p, cl_max_freq := pol_max p, freq_init_done := True\<rparr>) s)"
    using 2(2) by (intro upd_cluster_linked) (simp_all add: cs)
  then have "clusters_linked k ((upd_cluster c (\<lambda>x. x\<lparr>cl_min_freq := pol_min p, cl_max_freq := pol_max p, freq_init_done := True\<rparr>) s)
      \<lparr>cl_lrq := fold (\<lambda>j lrq. lrq(j := (lrq j)\<lparr>freq_domain_cpumask := related_cpus p\<rparr>)) (cl_cpus (cl s c)) (cl_lrq s)\<rparr>)"
    by (rule linked_cong) (simp_all add: domain_fold_cluster upd_cluster_def)
  then have lk: "clusters_linked k ?s'" using 2(2) by (simp add: cs)
  have "set (filter (\<lambda>j. j \<notin> set (cl_cpus (cl s c))) cpus) \<subseteq> set (cpu_possible k)" using 2(3) by auto
  then have "\<exists>c' s'. create_policy_loop p (filter (\<lambda>j. j \<notin> set (cl_cpus (cl s c))) cpus) (Some c, ?s') = Inr (Some c', s') \<and>
      clusters_linked k s' \<and> lse_cluster_head s' = lse_cluster_head (snd (Some c, ?s'))"
    using lk by (intro 2(1) [OF cs [symmetric] c refl]) simp_all
  then show ?case using c head by (simp add: cs Let_def)
qed

lemma notifier_policy_returns:
  assumes "clusters_linked k s" "related_cpus p \<noteq> []" "set (related_cpus p) \<subseteq> set (cpu_possible k)"
  shows "\<exists>r s'. cpufreq_notifier_policy add_ret val p s = Inr (r, s') \<and> clusters_linked k s'"
proof -
  have qos: "clusters_linked k (qos_add add_ret pol q c s')" if "clusters_linked k s'" for pol q c s'
    using that by (simp add: qos_add_def linked_cong)
  obtain c s' where "create_policy_loop p (related_cpus p) (None, s) = Inr (Some c, s')" "clusters_linked k s'"
    using create_policy_loop_linked [of k "(None, s)" "related_cpus p" p] assms by auto
  then show ?thesis using assms(1)
    by (auto simp: cpufreq_notifier_policy_def intro: qos split: option.split policy_event.split)
qed

lemma trans_loop_linked:
  "clusters_linked k s \<Longrightarrow> \<exists>s'. trans_loop (Some c) f cpus s = Inr s' \<and> clusters_linked k s'"
proof (induction "Some c" f cpus s rule: trans_loop.induct)
  case (2 f i cpus s)
  have "clusters_linked k (upd_cluster c (\<lambda>x. x\<lparr>cl_cur_freq := f\<rparr>) s)" by (intro upd_cluster_linked 2(2)) simp
  then show ?case using 2(1) [OF refl] by simp
qed simp

lemma notifier_trans_returns:
  assumes "clusters_linked k s" "pol_cpu p \<in> set (cpu_possible k)"
  shows "if post \<and> new_freq = 0 then cpufreq_notifier_trans post p new_freq s = Inl Kernel_Bug
    else \<exists>s'. cpufreq_notifier_trans post p new_freq s = Inr (0, s') \<and> clusters_linked k s'"
proof -
  obtain c where "lrq_cluster (cl_lrq s (pol_cpu p)) = Some c" using assms unfolding clusters_linked_def by blast
  then show ?thesis using trans_loop_linked [OF assms(1), of c new_freq "freq_domain_cpumask (cl_lrq s (pol_cpu p))"] assms(1)
    by (auto simp: cpufreq_notifier_trans_def Let_def)
qed

section \<open>Steps of the table\<close>

text \<open>What changes the table after its construction.  A policy has at least one CPU, and all of them
  are possible, as the cpufreq core guarantees.\<close>

definition policy_placed :: "kernel \<Rightarrow> cpufreq_policy \<Rightarrow> bool" where
  "policy_placed k p \<longleftrightarrow> related_cpus p \<noteq> [] \<and> set (related_cpus p) \<subseteq> set (cpu_possible k) \<and> pol_cpu p \<in> set (cpu_possible k)"

inductive cluster_step :: "kernel \<Rightarrow> cluster_state \<Rightarrow> cluster_state \<Rightarrow> bool" for k where
  policy: "policy_placed k p \<Longrightarrow> cpufreq_notifier_policy add_ret val p s = Inr (r, s') \<Longrightarrow> cluster_step k s s'"
| trans: "policy_placed k p \<Longrightarrow> cpufreq_notifier_trans post p new_freq s = Inr (r, s') \<Longrightarrow> cluster_step k s s'"
| qos_min: "cluster_step k s (cpufreq_update_min c freq s)"
| qos_max: "cluster_step k s (cpufreq_update_max c freq s)"

definition cluster_started :: "kernel \<Rightarrow> cluster_state \<Rightarrow> bool" where
  "cluster_started k s \<longleftrightarrow> (\<exists>ok lrq. lse_sched_cluster_init k ok (boot_clusters lrq) = Inr s)"

lemma cluster_step_linked:
  assumes "cluster_step k s s'" "clusters_linked k s" shows "clusters_linked k s'"
  using assms(1)
proof cases
  case (policy p add_ret val r)
  then show ?thesis using notifier_policy_returns [OF assms(2), of p add_ret val] by (auto simp: policy_placed_def)
next
  case (trans p post new_freq r)
  then show ?thesis using notifier_trans_returns [OF assms(2), of p post new_freq] by (auto simp: policy_placed_def split: if_splits)
qed (use assms(2) in \<open>auto simp: cpufreq_update_min_def cpufreq_update_max_def intro: upd_cluster_linked\<close>)

section \<open>The clusters of the list are live and their ids are known\<close>

text \<open>An id is the 0 of a new cluster or what \<open>topology_cluster_id\<close> returns for a possible CPU: nothing else
  is ever stored there, and nothing keeps it below \<open>MAX_LSE_CLUSTERS\<close>.\<close>

definition id_known :: "kernel \<Rightarrow> int \<Rightarrow> bool" where
  "id_known k i \<longleftrightarrow> i = 0 \<or> i \<in> topology_cluster_id k ` set (cpu_possible k)"

definition heap_known :: "kernel \<Rightarrow> cluster_state \<Rightarrow> bool" where
  "heap_known k s \<longleftrightarrow> (\<forall>c x. cl_heap s c = Some x \<longrightarrow> id_known k (cl_id x) \<and>
     (c \<noteq> init_cluster_ptr \<longrightarrow> cl_cpus x \<noteq> [] \<and> set (cl_cpus x) \<subseteq> set (cpu_possible k)))"

definition clusters_known :: "kernel \<Rightarrow> cluster_state \<Rightarrow> bool" where
  "clusters_known k s \<longleftrightarrow> heap_known k s \<and> (\<forall>c \<in> set (lse_cluster_head s). cl_heap s c \<noteq> None)"

lemma add_cluster_known:
  assumes "heap_known k s" "add_cluster k ok (get_possible_siblings k i) (head, s) = Inr (head', s')"
    "get_possible_siblings k i \<noteq> []"
  shows "heap_known k s'"
proof -
  have sub: "set (get_possible_siblings k i) \<subseteq> set (cpu_possible k)" by (auto simp: get_possible_siblings_def)
  obtain x where heap: "cl_heap s' = (cl_heap s)(cl_next s \<mapsto> x)" and x: "cl_id x = 0" "cl_cpus x = get_possible_siblings k i"
    using assms(2) by (auto simp: add_cluster_def alloc_new_cluster_def Let_def split: if_splits)
  have "id_known k (cl_id x)" by (simp add: x id_known_def)
  then show ?thesis using assms(1,3) sub x(2) unfolding heap_known_def heap by simp
qed

lemma cleanup_known: "heap_known k s \<Longrightarrow> heap_known k (cleanup_clusters head s)"
proof (induction head arbitrary: s)
  case (Cons c head)
  let ?t = "(set_lrq_cluster (cl_cpus (cl s c)) init_cluster_ptr s)
    \<lparr>lse_num_sched_clusters := lse_num_sched_clusters s - 1, cl_heap := (cl_heap s)(c := None)\<rparr>"
  have "heap_known k ?t" using Cons.prems by (simp add: heap_known_def)
  from Cons.IH [OF this] show ?case by (simp add: Let_def)
qed simp

lemma topology_loop_known:
  "topology_loop k ok cpus hs = Inr (b, head', s') \<Longrightarrow> heap_known k (snd hs) \<Longrightarrow> heap_known k s'"
proof (induction k ok cpus hs rule: topology_loop.induct)
  case (2 k ok i cpus hs)
  obtain head s where hs: "hs = (head, s)" by fastforce
  show ?case
  proof (cases "get_possible_siblings k i = []")
    case True
    then show ?thesis using 2(2,3) cleanup_known [of k s head] by (auto simp: hs)
  next
    case False
    then obtain head1 s1 where s1: "add_cluster k ok (get_possible_siblings k i) (head, s) = Inr (head1, s1)"
      "topology_loop k ok (filter (\<lambda>c. c \<notin> set (get_possible_siblings k i)) cpus) (head1, s1) = Inr (b, head', s')"
      using 2(2) by (auto simp: hs Let_def ebind_eq_Inr)
    have "heap_known k s1" using add_cluster_known [OF _ s1(1) False] 2(3) by (simp add: hs)
    then show ?thesis using 2(1) [OF refl False, of "(head1, s1)"] s1 by (simp add: hs)
  qed
qed simp

lemma topology_loop_head:
  "topology_loop k ok cpus hs = Inr (b, head', s') \<Longrightarrow> lse_cluster_head s' = lse_cluster_head (snd hs)"
proof (induction k ok cpus hs rule: topology_loop.induct)
  case (2 k ok i cpus hs)
  have clean: "lse_cluster_head (cleanup_clusters h s) = lse_cluster_head s" for h s
    by (induction h arbitrary: s) (simp_all add: Let_def)
  have add: "add_cluster k ok m (h, s) = Inr (h1, s1) \<Longrightarrow> lse_cluster_head s1 = lse_cluster_head s" for m h s h1 s1
    by (auto simp: add_cluster_def alloc_new_cluster_def Let_def split: if_splits)
  show ?case
  proof (cases "get_possible_siblings k i = []")
    case False
    then obtain h1 s1 where "add_cluster k ok (get_possible_siblings k i) hs = Inr (h1, s1)"
      "topology_loop k ok (filter (\<lambda>c. c \<notin> set (get_possible_siblings k i)) cpus) (h1, s1) = Inr (b, head', s')"
      using 2(2) by (auto simp: Let_def ebind_eq_Inr)
    then show ?thesis using 2(1) [OF refl False, of "(h1, s1)"] add [of "get_possible_siblings k i" "fst hs" "snd hs"] by simp
  qed (use 2(2) clean in auto)
qed simp

lemma assign_ids_heap:
  "heap_known k s \<Longrightarrow> \<forall>c \<in> set head. c \<noteq> init_cluster_ptr \<and> cl_heap s c \<noteq> None \<Longrightarrow>
   heap_known k (assign_cluster_ids k head s) \<and> (\<forall>c. cl_heap (assign_cluster_ids k head s) c \<noteq> None \<longleftrightarrow> cl_heap s c \<noteq> None)"
  unfolding assign_cluster_ids_def
proof (induction head arbitrary: s)
  case (Cons c head)
  let ?s = "s\<lparr>cl_heap := (cl_heap s)(c \<mapsto> (cl s c)\<lparr>cl_id := topology_cluster_id k (cpumask_first k (cl_cpus (cl s c)))\<rparr>)\<rparr>"
  obtain x where x: "cl_heap s c = Some x" "cl s c = x" using Cons.prems(2) by (auto simp: cl_def)
  have "cl_cpus x \<noteq> []" "set (cl_cpus x) \<subseteq> set (cpu_possible k)"
    using Cons.prems x(1) unfolding heap_known_def by auto
  then have "cpumask_first k (cl_cpus x) \<in> set (cpu_possible k)"
    by (cases "cl_cpus x") (auto simp: cpumask_first_def)
  then have "id_known k (topology_cluster_id k (cpumask_first k (cl_cpus x)))" by (simp add: id_known_def)
  then have "heap_known k ?s" using Cons.prems(1) x unfolding heap_known_def by auto
  moreover have "\<forall>d \<in> set head. d \<noteq> init_cluster_ptr \<and> cl_heap ?s d \<noteq> None" using Cons.prems(2) by auto
  moreover have "cl_heap ?s d \<noteq> None \<longleftrightarrow> cl_heap s d \<noteq> None" for d using x(1) by simp
  ultimately show ?case using Cons.IH [of ?s] by (simp del: fun_upd_apply)
qed simp

lemma cluster_init_known:
  assumes "lse_sched_cluster_init k ok (boot_clusters lrq) = Inr s" shows "clusters_known k s"
proof -
  let ?s0 = "init_clusters k (boot_clusters lrq)"
  obtain b head' s' where loop: "topology_loop k ok (cpu_possible k) ([], ?s0) = Inr (b, head', s')"
    using assms by (auto simp: lse_sched_cluster_init_def update_cluster_topology_def ebind_eq_Inr)
  have "heap_known k ?s0"
    by (auto simp: heap_known_def id_known_def init_clusters_def boot_clusters_def init_cluster_def split: if_splits)
  then have known: "heap_known k s'" using topology_loop_known [OF loop] by simp
  have lk: "clusters_linked k s' \<and> live_list head' s'"
    using topology_loop_linked [OF loop] init_linked by (simp add: live_list_def)
  show ?thesis
  proof (cases b)
    case True
    let ?h = "align_clusters k s' head'"
    have live: "\<forall>c \<in> set ?h. c \<noteq> init_cluster_ptr \<and> cl_heap s' c \<noteq> None"
      using lk by (auto simp: live_list_def align_clusters_perm)
    have "s = (assign_cluster_ids k ?h s')\<lparr>lse_cluster_head := ?h\<rparr>"
      using assms loop True by (simp add: lse_sched_cluster_init_def update_cluster_topology_def Let_def)
    then show ?thesis using assign_ids_heap [OF known live] live by (simp add: clusters_known_def heap_known_def)
  next
    case False
    have "cl_heap s' init_cluster_ptr \<noteq> None" using lk by (auto simp: clusters_linked_def)
    moreover have "lse_cluster_head s' = [init_cluster_ptr]"
      using topology_loop_head [OF loop] by (simp add: init_clusters_def)
    ultimately show ?thesis using assms loop False known
      by (simp add: clusters_known_def lse_sched_cluster_init_def update_cluster_topology_def)
  qed
qed

text \<open>The notifiers change neither the list nor the id and the CPUs of a cluster.\<close>

definition same_table :: "cluster_state \<Rightarrow> cluster_state \<Rightarrow> bool" where
  "same_table s s' \<longleftrightarrow> lse_cluster_head s' = lse_cluster_head s \<and>
     (\<forall>c. map_option (\<lambda>x. (cl_id x, cl_cpus x)) (cl_heap s' c) = map_option (\<lambda>x. (cl_id x, cl_cpus x)) (cl_heap s c))"

lemma same_tableI:
  "lse_cluster_head s' = lse_cluster_head s \<Longrightarrow> cl_heap s' = cl_heap s \<Longrightarrow> same_table s s'"
  by (simp add: same_table_def)

lemma same_table_trans: "same_table s s1 \<Longrightarrow> same_table s1 s2 \<Longrightarrow> same_table s s2"
  by (simp add: same_table_def)

lemma same_table_known:
  assumes "same_table s s'" "clusters_known k s" shows "clusters_known k s'"
proof -
  have some: "\<exists>x. cl_heap s c = Some x \<and> cl_id x = cl_id y \<and> cl_cpus x = cl_cpus y" if "cl_heap s' c = Some y" for c y
  proof -
    have "map_option (\<lambda>x. (cl_id x, cl_cpus x)) (cl_heap s' c) = map_option (\<lambda>x. (cl_id x, cl_cpus x)) (cl_heap s c)"
      using assms(1) unfolding same_table_def by blast
    then show ?thesis using that by (cases "cl_heap s c") auto
  qed
  have none: "cl_heap s' c = None \<longleftrightarrow> cl_heap s c = None" for c
  proof -
    have "map_option (\<lambda>x. (cl_id x, cl_cpus x)) (cl_heap s' c) = map_option (\<lambda>x. (cl_id x, cl_cpus x)) (cl_heap s c)"
      using assms(1) by (simp add: same_table_def)
    then show ?thesis by (cases "cl_heap s' c"; cases "cl_heap s c") auto
  qed
  have "heap_known k s'" unfolding heap_known_def
  proof (intro allI impI)
    fix c y assume "cl_heap s' c = Some y"
    then obtain x where x: "cl_heap s c = Some x" "cl_id x = cl_id y" "cl_cpus x = cl_cpus y" using some by blast
    then show "id_known k (cl_id y) \<and> (c \<noteq> init_cluster_ptr \<longrightarrow> cl_cpus y \<noteq> [] \<and> set (cl_cpus y) \<subseteq> set (cpu_possible k))"
      using assms(2) unfolding clusters_known_def heap_known_def by metis
  qed
  then show ?thesis using assms none by (simp add: clusters_known_def same_table_def)
qed

lemma upd_cluster_table:
  assumes "\<And>x. cl_cpus (f x) = cl_cpus x" "\<And>x. cl_id (f x) = cl_id x" shows "same_table s (upd_cluster c f s)"
  using assms by (auto simp: same_table_def upd_cluster_def option.map_comp comp_def)

lemma same_table_upd [simp]:
  "same_table s (s'\<lparr>cl_lrq := l\<rparr>) = same_table s s'" "same_table s (s'\<lparr>qos_chain := q\<rparr>) = same_table s s'"
  by (simp_all add: same_table_def)

lemma create_policy_loop_table:
  "create_policy_loop p cpus cs = Inr (o', s') \<Longrightarrow> same_table (snd cs) s'"
proof (induction p cpus cs rule: create_policy_loop.induct)
  case (2 p i cpus cs)
  obtain o1 s where cs: "cs = (o1, s)" by fastforce
  obtain c where c: "lrq_cluster (cl_lrq s i) = Some c" using 2(2) by (auto simp: cs split: option.splits)
  let ?s' = "if \<not> freq_init_done (cl s c) then
      (upd_cluster c (\<lambda>x. x\<lparr>cl_min_freq := pol_min p, cl_max_freq := pol_max p, freq_init_done := True\<rparr>) s)
      \<lparr>cl_lrq := fold (\<lambda>j lrq. lrq(j := (lrq j)\<lparr>freq_domain_cpumask := related_cpus p\<rparr>)) (cl_cpus (cl s c)) (cl_lrq s)\<rparr>
    else s"
  have "same_table s ?s'" by (simp add: upd_cluster_table) (simp add: same_table_def)
  moreover have "create_policy_loop p (filter (\<lambda>j. j \<notin> set (cl_cpus (cl s c))) cpus) (Some c, ?s') = Inr (o', s')"
    using 2(2) c by (simp add: cs Let_def)
  then have "same_table (snd (Some c, ?s')) s'" by (intro 2(1) [OF cs [symmetric] c refl]) simp
  ultimately show ?case by (simp only: cs snd_conv) (blast intro: same_table_trans)
qed (simp add: same_table_def)

lemma trans_loop_table: "trans_loop c f cpus s = Inr s' \<Longrightarrow> same_table s s'"
proof (induction c f cpus s rule: trans_loop.induct)
  case (2 c f i cpus s)
  then obtain d where d: "c = Some d" by (cases c) auto
  have "same_table s (upd_cluster d (\<lambda>x. x\<lparr>cl_cur_freq := f\<rparr>) s)" by (rule upd_cluster_table) simp_all
  moreover have "same_table (upd_cluster d (\<lambda>x. x\<lparr>cl_cur_freq := f\<rparr>) s) s'" using 2(1) [OF d] 2(2) d by simp
  ultimately show ?case by (rule same_table_trans)
qed (simp add: same_table_def)

lemma same_table_refl: "same_table s s"
  by (simp add: same_table_def)

lemma qos_add_table: "same_table s s' \<Longrightarrow> same_table s (qos_add r p q c s')"
  by (simp add: qos_add_def)

lemma cluster_step_table: "cluster_step k s s' \<Longrightarrow> same_table s s'"
proof (induction rule: cluster_step.induct)
  case (policy p add_ret val s r s')
  then show ?case
    by (auto simp: cpufreq_notifier_policy_def ebind_eq_Inr same_table_refl split: option.splits policy_event.splits
        intro!: qos_add_table dest!: create_policy_loop_table)
next
  case (trans p post new_freq s r s')
  then show ?case
    by (auto simp: cpufreq_notifier_trans_def Let_def ebind_eq_Inr same_table_refl split: if_splits dest!: trans_loop_table)
qed (auto simp: cpufreq_update_min_def cpufreq_update_max_def intro!: upd_cluster_table)

interpretation cluster_sys: invariant_system "cluster_started k" "cluster_step k" "clusters_linked k" for k
  by unfold_locales (auto simp: cluster_started_def intro: cluster_init_linked cluster_step_linked)

section \<open>Properties\<close>

text \<open>C12: The construction of the table ends for every topology, after one turn for each cluster it meets
  before a CPU that has none: it returns when there are at most four of them and each allocation
  succeeds, with as many clusters allocated, and is a \<open>BUG_ON\<close> otherwise.  Nothing else can happen.\<close>

theorem cluster_init_ends:
  "if turns k (cpu_possible k) \<le> 4 \<and> (\<forall>c \<in> {1..turns k (cpu_possible k)}. kzalloc_ok c)
   then \<exists>s. lse_sched_cluster_init k kzalloc_ok (boot_clusters lrq) = Inr s \<and> cl_next s = 1 + turns k (cpu_possible k)
   else lse_sched_cluster_init k kzalloc_ok (boot_clusters lrq) = Inl Kernel_Bug"
  by (rule cluster_init_turns)

lemma demo_turns: "turns demo_kernel (cpu_possible demo_kernel) = 3"
proof -
  have "mapped_cpus demo_kernel (cpu_possible demo_kernel) = cpu_possible demo_kernel"
    using demo_topology(2) by (simp add: mapped_cpus_def takeWhile_eq_all_conv)
  then show ?thesis using demo_topology(1) by (simp add: turns_def topology_ids_def)
qed

text \<open>With a failing second allocation, and with none.\<close>

theorem cluster_init_ends_witness:
  "lse_sched_cluster_init demo_kernel (\<lambda>c. c \<noteq> 2) (boot_clusters (\<lambda>_. demo_lrq)) = Inl Kernel_Bug \<and>
   (\<exists>s. lse_sched_cluster_init demo_kernel (\<lambda>_. True) (boot_clusters (\<lambda>_. demo_lrq)) = Inr s \<and> cl_next s = 4)"
proof -
  have "\<not> (\<forall>c \<in> {1..3}. c \<noteq> (2 :: nat))" by simp
  then have "lse_sched_cluster_init demo_kernel (\<lambda>c. c \<noteq> 2) (boot_clusters (\<lambda>_. demo_lrq)) = Inl Kernel_Bug"
    using cluster_init_ends [of demo_kernel "\<lambda>c. c \<noteq> 2" "\<lambda>_. demo_lrq"] by (simp add: demo_turns del: atLeastAtMost_iff)
  then show ?thesis
    using cluster_init_ends [of demo_kernel "\<lambda>_. True" "\<lambda>_. demo_lrq"] by (simp add: demo_turns)
qed

text \<open>C14: From its construction on, over every sequence of policy events, frequency transitions and limit
  changes, every possible CPU points to a live cluster that contains it, so the notifiers never
  follow a NULL or freed cluster: a policy event always returns, and a transition returns unless it
  announces frequency 0.\<close>

theorem clusters_stay_linked:
  assumes "cluster_started k s0" "(cluster_step k)\<^sup>*\<^sup>* s0 s" "policy_placed k p"
  shows "(\<forall>cpu \<in> set (cpu_possible k). \<exists>c x. lrq_cluster (cl_lrq s cpu) = Some c \<and> cl_heap s c = Some x \<and> cpu \<in> set (cl_cpus x)) \<and>
    (\<exists>r s'. cpufreq_notifier_policy add_ret val p s = Inr (r, s')) \<and>
    (if post \<and> new_freq = 0 then cpufreq_notifier_trans post p new_freq s = Inl Kernel_Bug
     else \<exists>s'. cpufreq_notifier_trans post p new_freq s = Inr (0, s'))"
proof -
  have lk: "clusters_linked k s" using cluster_sys.inv_reachable [OF assms(1,2)] .
  show ?thesis
    using lk notifier_policy_returns [OF lk, of p add_ret val] notifier_trans_returns [OF lk, of p post new_freq] assms(3)
    by (auto simp: clusters_linked_def policy_placed_def)
qed

theorem clusters_stay_linked_witness:
  "\<exists>s r s'. cluster_started demo_kernel s \<and> cpufreq_notifier_policy (\<lambda>_. 0) (Some CPUFREQ_CREATE_POLICY) demo_policy s = Inr (r, s')"
proof -
  obtain s where "lse_sched_cluster_init demo_kernel (\<lambda>_. True) (boot_clusters (\<lambda>_. demo_lrq)) = Inr s"
    using cluster_init_turns [of demo_kernel "\<lambda>_. True" "\<lambda>_. demo_lrq"] by (auto simp: demo_turns)
  then have st: "cluster_started demo_kernel s" by (auto simp: cluster_started_def)
  have "policy_placed demo_kernel demo_policy" by (simp add: policy_placed_def demo_policy_def demo_kernel_def)
  from clusters_stay_linked [OF st rtranclp.rtrancl_refl this] st show ?thesis by blast
qed

end
