(* ===== verification/Lse_Gov_Life.thy ===== *)
theory Lse_Gov_Life
  imports Lse_Gov
begin

text \<open>
  The memory and the threads of the governor (\<open>src/cpufreq_lse.c\<close>): \<open>Lse_Gov\<close> models what the rest of
  the module sees of \<open>lse_gov_init\<close> and \<open>lse_gov_exit\<close>; here the two are translated label by label,
  with a ledger of the structures and threads that are live, so that freeing what is not live, or
  stopping a thread that does not run, is an error of the model.  The lemmas show that the detailed
  \<open>lse_gov_init\<close> implements the one of \<open>Lse_Gov\<close>, that no such error occurs, and that every failure
  releases what was acquired before it.
\<close>

section \<open>The ledger\<close>

text \<open>The \<open>lse_gov_policy\<close> structures and worker threads that are live, for each policy they were made
  for.  The tunables are objects of \<open>gov\<close>.\<close>

record gov_mem =
  lg_mem :: "nat \<Rightarrow> nat"
  thread_mem :: "nat \<Rightarrow> nat"

datatype life_fault = Bad_Free | Gov_Fault fault

definition kzalloc_lg :: "nat \<Rightarrow> gov_mem \<Rightarrow> gov_mem" where
  "kzalloc_lg pol m = m\<lparr>lg_mem := (lg_mem m)(pol := lg_mem m pol + 1)\<rparr>"

definition lse_gov_policy_free :: "nat \<Rightarrow> gov_mem \<Rightarrow> life_fault + gov_mem" where
  "lse_gov_policy_free pol m =
     (if lg_mem m pol = 0 then Inl Bad_Free else Inr (m\<lparr>lg_mem := (lg_mem m)(pol := lg_mem m pol - 1)\<rparr>))"

definition kthread_start :: "nat \<Rightarrow> gov_mem \<Rightarrow> gov_mem" where
  "kthread_start pol m = m\<lparr>thread_mem := (thread_mem m)(pol := thread_mem m pol + 1)\<rparr>"

definition kthread_stop :: "nat \<Rightarrow> gov_mem \<Rightarrow> life_fault + gov_mem" where
  "kthread_stop pol m =
     (if thread_mem m pol = 0 then Inl Bad_Free
      else Inr (m\<lparr>thread_mem := (thread_mem m)(pol := thread_mem m pol - 1)\<rparr>))"

section \<open>Threads and tunables\<close>

text \<open>\<open>kthread_ret\<close> is the error of \<open>kthread_create\<close>, \<open>sched_ret\<close> that of \<open>sched_setscheduler_nocheck\<close>,
  after which the new thread is stopped again.\<close>

definition kthread_create_life ::
  "gov_env \<Rightarrow> int \<Rightarrow> bool \<Rightarrow> nat \<Rightarrow> lse_gov_policy \<Rightarrow> gov_mem \<Rightarrow> life_fault + (int \<times> lse_gov_policy \<times> gov_mem)" where
  "kthread_create_life env sched_ret fast pol lg m =
     (if fast then Inr (0, lg, m)
      else if kthread_ret env \<noteq> 0 then Inr (kthread_ret env, lg, m)
      else
        let m = kthread_start pol m
        in if sched_ret \<noteq> 0 then ebind (kthread_stop pol m) (\<lambda>m. Inr (sched_ret, lg, m))
           else Inr (0, lg\<lparr>lg_thread := True\<rparr>, m))"

text \<open>\<open>lg_policy->thread\<close> is NULL until \<open>lse_gov_kthread_create\<close> has set it.\<close>

definition lse_gov_kthread_stop :: "bool \<Rightarrow> nat \<Rightarrow> lse_gov_policy \<Rightarrow> gov_mem \<Rightarrow> life_fault + gov_mem" where
  "lse_gov_kthread_stop fast pol lg m =
     (if fast then Inr m else if \<not> lg_thread lg then Inl Bad_Free else kthread_stop pol m)"

definition lse_gov_tunables_alloc :: "gov_env \<Rightarrow> nat \<Rightarrow> gov \<Rightarrow> nat option \<times> gov" where
  "lse_gov_tunables_alloc env pol g =
     (if \<not> tunables_alloc_ok env then (None, g)
      else
        let t = tunables_next g;
            g = g\<lparr>tunables_next := t + 1, tunables_obj := (tunables_obj g)(t \<mapsto> zeroed_tunables\<lparr>attr_policies := [pol]\<rparr>)\<rparr>;
            g = (if \<not> have_governor_per_policy env then g\<lparr>global_tunables := Some t\<rparr> else g)
        in (Some t, g))"

section \<open>The labels of \<open>lse_gov_init\<close>\<close>

definition disable_fast_switch :: "nat \<Rightarrow> int \<Rightarrow> gov \<Rightarrow> gov_mem \<Rightarrow> life_fault + (int \<times> gov \<times> gov_mem)" where
  "disable_fast_switch pol ret g m = Inr (ret, set_fast_switch pol False g, m)"

definition free_lg_policy :: "nat \<Rightarrow> int \<Rightarrow> gov \<Rightarrow> gov_mem \<Rightarrow> life_fault + (int \<times> gov \<times> gov_mem)" where
  "free_lg_policy pol ret g m = ebind (lse_gov_policy_free pol m) (disable_fast_switch pol ret g)"

definition stop_kthread ::
  "nat \<Rightarrow> lse_gov_policy \<Rightarrow> int \<Rightarrow> gov \<Rightarrow> gov_mem \<Rightarrow> life_fault + (int \<times> gov \<times> gov_mem)" where
  "stop_kthread pol lg ret g m =
     ebind (lse_gov_kthread_stop (fast_switch_enabled (policy_obj g pol)) pol lg m) (free_lg_policy pol ret g)"

definition init_fail ::
  "gov_env \<Rightarrow> nat \<Rightarrow> nat \<Rightarrow> lse_gov_policy \<Rightarrow> int \<Rightarrow> gov \<Rightarrow> gov_mem \<Rightarrow> life_fault + (int \<times> gov \<times> gov_mem)" where
  "init_fail env t pol lg ret g m =
     stop_kthread pol lg ret (lse_gov_tunables_free env t (g\<lparr>governor_data := (governor_data g)(pol := None)\<rparr>)) m"

definition gov_init_life ::
  "gov_env \<Rightarrow> int \<Rightarrow> nat \<Rightarrow> gov \<times> gov_mem \<Rightarrow> life_fault + (int \<times> gov \<times> gov_mem)" where
  "gov_init_life env sched_ret pol gm =
     (case gm of (g, m) \<Rightarrow>
      if governor_data g pol \<noteq> None then Inr (- EBUSY, g, m)
      else
        let g = set_fast_switch pol (fast_switch_possible env) g in
        if \<not> lg_alloc_ok env then disable_fast_switch pol (- ENOMEM) g m
        else
          ebind (kthread_create_life env sched_ret (fast_switch_enabled (policy_obj g pol)) pol
                   lse_gov_policy_alloc (kzalloc_lg pol m)) (\<lambda>(ret, lg, m).
          if ret \<noteq> 0 then free_lg_policy pol ret g m
          else
            (case global_tunables g of
               Some t \<Rightarrow>
                 if have_governor_per_policy env then stop_kthread pol lg (- EINVAL_GOV) g m
                 else Inr (0, upd_tunables t (\<lambda>tn. tn\<lparr>attr_policies := pol # attr_policies tn\<rparr>)
                              (set_governor_data pol (lg\<lparr>lg_tunables := Some t\<rparr>) g), m)
             | None \<Rightarrow>
                 (case lse_gov_tunables_alloc env pol g of
                    (None, g) \<Rightarrow> stop_kthread pol lg (- ENOMEM) g m
                  | (Some t, g) \<Rightarrow>
                      let g = upd_tunables t (\<lambda>tn. tn\<lparr>target_loads := DEFAULT_TARGET_LOAD, soft_freq_max := - 1,
                                soft_freq_min := - 1, apply_freq_immediately := True\<rparr>) g;
                          lg = lg\<lparr>lg_tunables := Some t\<rparr>;
                          g = set_governor_data pol lg g
                      in if kobject_ret env \<noteq> 0 then init_fail env t pol lg (kobject_ret env) g m
                         else Inr (0, set_dvfs_any_cpu pol g, m)))))"

text \<open>\<open>lse_gov_exit\<close>: the state as in \<open>Lse_Gov\<close>; the thread is stopped and the structure freed before
  \<open>cpufreq_disable_fast_switch\<close>.\<close>

definition gov_exit_life :: "gov_env \<Rightarrow> nat \<Rightarrow> gov \<times> gov_mem \<Rightarrow> life_fault + (gov \<times> gov_mem)" where
  "gov_exit_life env pol gm =
     (case gm of (g, m) \<Rightarrow>
      (case (lse_gov_exit env pol g, governor_data g pol) of
         (Inl f, _) \<Rightarrow> Inl (Gov_Fault f)
       | (Inr g', None) \<Rightarrow> Inl (Gov_Fault Null_Deref)
       | (Inr g', Some lg) \<Rightarrow>
           ebind (lse_gov_kthread_stop (fast_switch_enabled (policy_obj g pol)) pol lg m) (\<lambda>m.
           ebind (lse_gov_policy_free pol m) (\<lambda>m. Inr (g', m)))))"

section \<open>The state is that of \<open>Lse_Gov\<close>\<close>

text \<open>The answers of the kernel as \<open>Lse_Gov\<close> sees them: one error for the creation of the thread.\<close>

definition seen_env :: "int \<Rightarrow> gov_env \<Rightarrow> gov_env" where
  "seen_env sched_ret env = env\<lparr>kthread_ret := (if kthread_ret env \<noteq> 0 then kthread_ret env else sched_ret)\<rparr>"

lemma ledger_simps [simp]:
  "lg_mem (kzalloc_lg pol m) pol = lg_mem m pol + 1" "thread_mem (kzalloc_lg pol m) = thread_mem m"
  "thread_mem (kthread_start pol m) pol = thread_mem m pol + 1" "lg_mem (kthread_start pol m) = lg_mem m"
  "kthread_stop pol (kthread_start pol m) = Inr m" "lse_gov_policy_free pol (kzalloc_lg pol m) = Inr m"
  "lse_gov_policy_free pol (kthread_start pol (kzalloc_lg pol m)) = Inr (kthread_start pol m)"
  by (simp_all add: kzalloc_lg_def kthread_start_def kthread_stop_def lse_gov_policy_free_def)

lemma fast_switch_set [simp]: "fast_switch_enabled (policy_obj (set_fast_switch pol b g) pol) = b"
  by (simp add: set_fast_switch_def)

lemma dvfs_fast [simp]: "fast_switch_enabled (policy_obj (set_dvfs_any_cpu pol g) q) = fast_switch_enabled (policy_obj g q)"
  by (simp add: set_dvfs_any_cpu_def)

lemma lse_gov_policy_alloc_thread [simp]: "\<not> lg_thread lse_gov_policy_alloc"
  by (simp add: lse_gov_policy_alloc_def)

text \<open>What the creation of the thread leaves, and that stopping it and freeing the structure undo all.\<close>

definition thread_ready :: "bool \<Rightarrow> nat \<Rightarrow> lse_gov_policy \<Rightarrow> gov_mem \<Rightarrow> gov_mem \<Rightarrow> bool" where
  "thread_ready fast pol lg m m' \<longleftrightarrow> lg_thread lg = (\<not> fast) \<and>
     m' = (if fast then kzalloc_lg pol m else kthread_start pol (kzalloc_lg pol m))"

lemma kthread_create_spec:
  "\<exists>ret lg m'. kthread_create_life env sr fast pol lse_gov_policy_alloc (kzalloc_lg pol m) = Inr (ret, lg, m') \<and>
     lse_gov_kthread_create (seen_env sr env) fast lse_gov_policy_alloc = (ret, lg) \<and>
     (if ret \<noteq> 0 then m' = kzalloc_lg pol m else thread_ready fast pol lg m m')"
  by (cases fast; cases "kthread_ret env = 0"; cases "sr = 0")
    (simp_all add: kthread_create_life_def lse_gov_kthread_create_def seen_env_def thread_ready_def Let_def)

text \<open>Stopping the thread and freeing the structure undo both.\<close>

lemma stop_kthread_ready:
  assumes "thread_ready fast pol lg m m'" "fast_switch_enabled (policy_obj g pol) = fast"
  shows "stop_kthread pol lg ret g m' = Inr (ret, set_fast_switch pol False g, m)"
  using assms by (cases fast)
    (simp_all add: thread_ready_def stop_kthread_def lse_gov_kthread_stop_def free_lg_policy_def disable_fast_switch_def)

lemma tunables_policy_obj [simp]:
  "policy_obj (lse_gov_tunables_free env t g) = policy_obj g" "policy_obj (upd_tunables t f g) = policy_obj g"
  "policy_obj (set_governor_data pol lg g) = policy_obj g" "policy_obj (snd (lse_gov_tunables_alloc env pol g)) = policy_obj g"
  by (simp_all add: lse_gov_tunables_free_def upd_tunables_def set_governor_data_def lse_gov_tunables_alloc_def Let_def)

definition default_tunables :: "nat \<Rightarrow> gov \<Rightarrow> gov" where
  "default_tunables t = upd_tunables t (\<lambda>tn. tn\<lparr>target_loads := DEFAULT_TARGET_LOAD, soft_freq_max := - 1,
     soft_freq_min := - 1, apply_freq_immediately := True\<rparr>)"

lemma alloc_defaults:
  assumes "tunables_alloc_ok env" "global_tunables g = None"
  shows "fst (lse_gov_tunables_alloc env pol g) = Some (tunables_next g)"
    "default_tunables (tunables_next g) (snd (lse_gov_tunables_alloc env pol g)) =
       g\<lparr>tunables_next := tunables_next g + 1,
         global_tunables := (if have_governor_per_policy env then global_tunables g else Some (tunables_next g)),
         tunables_obj := (tunables_obj g)(tunables_next g \<mapsto>
           \<lparr>target_loads = DEFAULT_TARGET_LOAD, soft_freq_max = - 1, soft_freq_min = - 1,
            apply_freq_immediately = True, attr_policies = [pol]\<rparr>)\<rparr>"
  using assms by (simp_all add: lse_gov_tunables_alloc_def default_tunables_def upd_tunables_def zeroed_tunables_def Let_def)

text \<open>The detailed initialisation computes the state of \<open>lse_gov_init\<close>; on an error the ledger is what it
  was, on success it has one structure more, and a thread when the policy cannot switch fast.\<close>

lemma init_life_spec:
  "\<exists>m'. gov_init_life env sr pol (g, m) =
     Inr (fst (lse_gov_init (seen_env sr env) pol g), snd (lse_gov_init (seen_env sr env) pol g), m') \<and>
     (if fst (lse_gov_init (seen_env sr env) pol g) \<noteq> 0 then m' = m
      else \<exists>lg. governor_data (snd (lse_gov_init (seen_env sr env) pol g)) = (governor_data g)(pol \<mapsto> lg) \<and>
        thread_ready (fast_switch_possible env) pol lg m m')"
proof (cases "governor_data g pol = None")
  case free: True
  let ?f = "fast_switch_possible env" and ?e = "seen_env sr env"
  let ?g = "set_fast_switch pol ?f g"
  obtain ret lg m' where kt: "kthread_create_life env sr ?f pol lse_gov_policy_alloc (kzalloc_lg pol m) = Inr (ret, lg, m')"
    "lse_gov_kthread_create ?e ?f lse_gov_policy_alloc = (ret, lg)"
    and m': "if ret \<noteq> 0 then m' = kzalloc_lg pol m else thread_ready ?f pol lg m m'"
    using kthread_create_spec [of env sr ?f pol m] by blast
  have env: "fast_switch_possible ?e = ?f" "lg_alloc_ok ?e = lg_alloc_ok env" "tunables_alloc_ok ?e = tunables_alloc_ok env"
    "kobject_ret ?e = kobject_ret env" "have_governor_per_policy ?e = have_governor_per_policy env"
    by (simp_all add: seen_env_def)
  have ready: "thread_ready ?f pol (lg\<lparr>lg_tunables := x\<rparr>) m m' = thread_ready ?f pol lg m m'" for x
    by (simp add: thread_ready_def)
  have tfree: "lse_gov_tunables_free ?e = lse_gov_tunables_free env" by (simp add: lse_gov_tunables_free_def env fun_eq_iff)
  consider "\<not> lg_alloc_ok env" | "lg_alloc_ok env" "ret \<noteq> 0" | (ok) "lg_alloc_ok env" "ret = 0" by blast
  then show ?thesis
  proof cases
    case ok
    then have rdy: "thread_ready ?f pol lg m m'" using m' by simp
    then have rdy': "thread_ready ?f pol (lg\<lparr>lg_tunables := x\<rparr>) m m'" for x by (simp add: ready)
    note stop = stop_kthread_ready [OF rdy] stop_kthread_ready [OF rdy']
    show ?thesis
    proof (cases "global_tunables g")
      case (Some t)
      then show ?thesis using free ok kt rdy stop(1) [of ?g]
        by (auto simp: gov_init_life_def lse_gov_init_def env Let_def fast_switch_fields upd_tunables_def set_governor_data_def ready EINVAL_GOV_def)
    next
      case None
      show ?thesis
      proof (cases "tunables_alloc_ok env")
        case True
        let ?t = "tunables_next g"
        have none: "global_tunables ?g = None" "tunables_next ?g = ?t" using None by (simp_all add: fast_switch_fields)
        note dflt = alloc_defaults [OF True none(1), of pol]
        obtain a where al: "lse_gov_tunables_alloc env pol ?g = (Some ?t, a)"
          using dflt(1) none(2) by (metis prod.collapse)
        let ?h = "set_governor_data pol (lg\<lparr>lg_tunables := Some ?t\<rparr>) (default_tunables ?t a)"
        have a: "governor_data a = governor_data g" "policy_obj a = policy_obj ?g"
          using al True by (auto simp: lse_gov_tunables_alloc_def Let_def fast_switch_fields)
        have init: "lse_gov_init ?e pol g = (if kobject_ret env \<noteq> 0 then (kobject_ret env, set_fast_switch pol False
            (lse_gov_tunables_free env ?t (?h\<lparr>governor_data := (governor_data ?h)(pol := None)\<rparr>))) else (0, set_dvfs_any_cpu pol ?h))"
          using free ok kt None True dflt(2) al
          by (simp add: lse_gov_init_def env Let_def fast_switch_fields tfree)
        have life: "gov_init_life env sr pol (g, m) =
            (if kobject_ret env \<noteq> 0 then init_fail env ?t pol (lg\<lparr>lg_tunables := Some ?t\<rparr>) (kobject_ret env) ?h m' else Inr (0, set_dvfs_any_cpu pol ?h, m'))"
          using free ok kt None al by (simp add: gov_init_life_def default_tunables_def Let_def fast_switch_fields)
        have "governor_data ?h = (governor_data g)(pol \<mapsto> lg\<lparr>lg_tunables := Some ?t\<rparr>)"
          by (simp add: set_governor_data_def default_tunables_def upd_tunables_def a)
        then show ?thesis unfolding init life
          by (auto simp: init_fail_def stop(2) ready rdy default_tunables_def a(2) fast_switch_fields(5))
      next
        case False
        then show ?thesis using free ok kt None stop(1) [of ?g]
          by (simp add: gov_init_life_def lse_gov_init_def lse_gov_tunables_alloc_def env Let_def fast_switch_fields ENOMEM_def)
      qed
    qed
  qed (use free kt m' in \<open>simp_all add: gov_init_life_def lse_gov_init_def env Let_def fast_switch_fields
      free_lg_policy_def disable_fast_switch_def ENOMEM_def\<close>)
qed (simp add: gov_init_life_def lse_gov_init_def EBUSY_def)

lemma cpu_reset_policy [simp]: "policy_obj (lse_gov_cpu_reset cpus g) = policy_obj g"
  unfolding lse_gov_cpu_reset_def by (induction cpus arbitrary: g) simp_all

lemma exit_life_spec:
  assumes att: "attached b g" and env: "have_governor_per_policy env = b" and lg: "governor_data g pol = Some lg"
    and thr: "lg_thread lg = (\<not> fast_switch_enabled (policy_obj g pol))" "lg_mem m pol = 1"
      "thread_mem m pol = (if lg_thread lg then 1 else 0)"
  shows "\<exists>g'. gov_exit_life env pol (g, m) = Inr (g', \<lparr>lg_mem = (lg_mem m)(pol := 0), thread_mem = (thread_mem m)(pol := 0)\<rparr>) \<and>
    governor_data g' = (governor_data g)(pol := None) \<and>
    (\<forall>q. q \<noteq> pol \<longrightarrow> policy_obj g' q = policy_obj g q)"
proof -
  obtain g' where g': "lse_gov_exit env pol g = Inr g'"
    using exit_attached [OF att env, of pol lg] lg by blast
  have "governor_data g' = (governor_data g)(pol := None) \<and> (\<forall>q. q \<noteq> pol \<longrightarrow> policy_obj g' q = policy_obj g q)"
    using g' lg by (auto simp: lse_gov_exit_def Let_def fast_switch_fields cpu_reset_fields lse_gov_tunables_free_def
        upd_tunables_def set_fast_switch_def count_freed_def split: option.splits if_splits)
  then show ?thesis using g' lg thr
    by (simp add: gov_exit_life_def lse_gov_kthread_stop_def kthread_stop_def lse_gov_policy_free_def fun_eq_iff)
qed

section \<open>The other calls\<close>

text \<open>What runs between \<open>lse_gov_init\<close> and \<open>lse_gov_exit\<close>: steps of \<open>gov_step\<close> that make or free
  nothing.\<close>

inductive gov_run :: "kernel \<Rightarrow> gov \<Rightarrow> gov \<Rightarrow> bool" for k where
  start: "lse_gov_start k W pol g = Inr g' \<Longrightarrow> gov_run k g g'"
| stop: "lse_gov_stop k pol g = Inr g' \<Longrightarrow> gov_run k g g'"
| update: "lse_gov_update_cpufreq k W (Some pol) s g = Inr g' \<Longrightarrow> gov_run k g g'"
| tick: "lse_gov_tick_update k W lrq d now now2 rq g = Inr g' \<Longrightarrow> gov_run k g g'"
| loads: "gov_run k g (snd (target_loads_store t val n g))"
| store_max: "soft_freq_max_store k t val n g = Inr (r, g') \<Longrightarrow> gov_run k g g'"
| store_min: "soft_freq_min_store k t val n g = Inr (r, g') \<Longrightarrow> gov_run k g g'"
| store_cur: "soft_freq_cur_store k t val n g = Inr (r, g') \<Longrightarrow> gov_run k g g'"
| store_apply: "gov_run k g (snd (apply_freq_immediately_store t val n g))"
| ctl: "gov_run k g (g\<lparr>ctl := c\<rparr>)"

lemma gov_run_step: "gov_run k g g' \<Longrightarrow> gov_step k b g g'"
  by (induction rule: gov_run.induct) (auto intro: gov_step.intros)

text \<open>Their frame: policies and structures are what they were, and a pointer of a CPU is kept or set to
  the structure of a policy of that CPU.\<close>

definition same_life :: "gov \<Rightarrow> gov \<Rightarrow> bool" where
  "same_life g g' \<longleftrightarrow> policy_obj g' = policy_obj g \<and> lg_freed g' = lg_freed g \<and>
     (\<forall>pol. map_option lg_thread (governor_data g' pol) = map_option lg_thread (governor_data g pol)) \<and>
     (\<forall>cpu. lse_gov_cpu g' cpu = lse_gov_cpu g cpu \<or>
        (\<exists>pol. lse_gov_cpu g' cpu = Some (pol, lg_freed g pol) \<and> governor_data g pol \<noteq> None \<and>
           cpu \<in> set (pol_cpus (policy_obj g pol))))"

lemma same_life_refl: "same_life g g"
  by (simp add: same_life_def)

lemma same_life_trans:
  assumes "same_life g h" "same_life h g'" shows "same_life g g'"
proof -
  have dom: "governor_data h pol \<noteq> None \<longleftrightarrow> governor_data g pol \<noteq> None" for pol
    using assms(1) unfolding same_life_def by (metis option.map_disc_iff)
  show ?thesis using assms dom unfolding same_life_def by metis
qed

lemma clamp_thread: "soft_freq_clamp c tn f lg = Inr (f', lg') \<Longrightarrow> lg_thread lg' = lg_thread lg"
  by (auto simp: soft_freq_clamp_def Let_def split: option.splits)

lemma dynamic_thread: "lg_thread (snd (lse_dynamic_target_load c p u lg)) = lg_thread lg"
  by (simp add: lse_dynamic_target_load_def Let_def)

lemma next_freq_thread: "get_next_freq k c W p tn s lg = Inr (f, lg') \<Longrightarrow> lg_thread lg' = lg_thread lg"
  by (auto simp: get_next_freq_def Let_def case_prod_unfold ebind_eq_Inr dynamic_thread split: if_splits)

lemma commit_threads:
  "governor_data g pol = Some lg \<Longrightarrow> lg_thread lg' = lg_thread lg \<Longrightarrow> same_life g (commit_freq pol f lg' g)"
  by (simp add: same_life_def commit_freq_result)

lemma update_threads:
  assumes "lse_gov_update_cpufreq k W (Some pol) s g = Inr g'" shows "same_life g g'"
  using assms
  by (auto simp: lse_gov_update_cpufreq_def Let_def ebind_eq_Inr split: option.splits
      dest!: next_freq_thread clamp_thread intro!: commit_threads)

lemma tick_threads:
  assumes "lse_gov_tick_update k W lrq d now now2 rq g = Inr g'" shows "same_life g g'"
proof -
  have tl: "lg_thread (snd (tick_target_load c p u lg)) = lg_thread lg" for c p u lg
    by (simp add: tick_target_load_def Let_def dynamic_thread)
  have "same_life g (commit_freq pol f lg' (g\<lparr>lse_gov_rq_data := x\<rparr>))"
    if "governor_data g pol = Some lg" "lg_thread lg' = lg_thread lg" for pol f lg lg' x
    using commit_threads [of "g\<lparr>lse_gov_rq_data := x\<rparr>" pol lg lg' f] that by (simp add: same_life_def)
  then show ?thesis using assms
    by (auto simp: lse_gov_tick_update_def Let_def case_prod_unfold ebind_eq_Inr tl same_life_refl
        split: option.splits if_splits dest!: clamp_thread)
qed

lemma store_threads: "same_life g (upd_tunables t f g)"
  by (simp add: same_life_def upd_tunables_def)

lemma soft_limit_threads:
  assumes "soft_limit_store k same upd t val n g = Inr (r, g')" shows "same_life g g'"
proof -
  have app: "same_life h h'" if "apply_soft_limits k t h = Inr h'" for h h'
    using that by (auto simp: apply_soft_limits_def lse_gov_update_soft_limit_cpufreq_def Let_def ebind_eq_Inr same_life_refl
        split: option.splits list.splits if_splits dest!: clamp_thread intro!: commit_threads)
  then show ?thesis using assms
    by (auto simp: soft_limit_store_def ebind_eq_Inr same_life_refl split: option.splits if_splits
        intro: same_life_trans [OF store_threads])
qed

lemma start_threads:
  assumes "lse_gov_start k W pol g = Inr g'" shows "same_life g g'"
proof -
  let ?F = "\<lambda>cpus. fold (\<lambda>cpu g. g\<lparr>lse_gov_cpu := (lse_gov_cpu g)(cpu := Some (pol, lg_freed g pol)),
      update_hook := (update_hook g)(cpu := True)\<rparr>) cpus"
  have f: "policy_obj (?F cpus h) = policy_obj h \<and> lg_freed (?F cpus h) = lg_freed h \<and>
      lse_gov_cpu (?F cpus h) cpu = (if cpu \<in> set cpus then Some (pol, lg_freed h pol) else lse_gov_cpu h cpu)" for cpus h cpu
    by (induction cpus arbitrary: h) auto
  show ?thesis using assms
    by (auto simp: lse_gov_start_def Let_def same_life_def set_governor_data_def hook_fold_fields f
        split: option.splits if_splits)
qed

lemma stop_threads: "same_life g (gov_stopped k pol g)"
proof -
  let ?F = "\<lambda>cpus. fold (\<lambda>cpu g. g\<lparr>update_hook := (update_hook g)(cpu := False)\<rparr>) cpus"
  have f: "policy_obj (?F cpus h) = policy_obj h \<and> lg_freed (?F cpus h) = lg_freed h \<and>
      governor_data (?F cpus h) = governor_data h \<and> lse_gov_cpu (?F cpus h) = lse_gov_cpu h" for cpus h
    by (induction cpus arbitrary: h) simp_all
  show ?thesis by (simp add: gov_stopped_def Let_def same_life_def f)
qed

lemma gov_run_threads: "gov_run k g g' \<Longrightarrow> same_life g g'"
proof (induction rule: gov_run.induct)
  case (loads g t val n)
  then show ?case by (cases val) (simp_all add: target_loads_store_def same_life_refl store_threads)
next
  case (store_apply g t val n)
  then show ?case by (cases val) (simp_all add: apply_freq_immediately_store_def same_life_refl store_threads)
next
  case (ctl g c)
  then show ?case by (simp add: same_life_def)
qed (auto simp: lse_gov_stop_eq intro: start_threads stop_threads update_threads tick_threads soft_limit_threads
    simp: soft_freq_max_store_def soft_freq_min_store_def soft_freq_cur_store_def)

section \<open>The ledger is exact\<close>

definition ledger_ok :: "gov \<times> gov_mem \<Rightarrow> bool" where
  "ledger_ok gm \<longleftrightarrow> (case gm of (g, m) \<Rightarrow> \<forall>pol.
     (case governor_data g pol of
        None \<Rightarrow> lg_mem m pol = 0 \<and> thread_mem m pol = 0
      | Some lg \<Rightarrow> lg_mem m pol = 1 \<and> thread_mem m pol = (if lg_thread lg then 1 else 0) \<and>
          lg_thread lg = (\<not> fast_switch_enabled (policy_obj g pol))))"

inductive life_step :: "kernel \<Rightarrow> bool \<Rightarrow> gov \<times> gov_mem \<Rightarrow> gov \<times> gov_mem \<Rightarrow> bool" for k b where
  init: "have_governor_per_policy env = b \<Longrightarrow> gov_init_life env sr pol gm = Inr (r, gm') \<Longrightarrow> life_step k b gm gm'"
| exit: "have_governor_per_policy env = b \<Longrightarrow> gov_exit_life env pol gm = Inr gm' \<Longrightarrow> life_step k b gm gm'"
| run: "gov_run k g g' \<Longrightarrow> life_step k b (g, m) (g', m)"

definition life_boot :: "gov \<times> gov_mem \<Rightarrow> bool" where
  "life_boot gm \<longleftrightarrow> gov_boot (fst gm) \<and> snd gm = \<lparr>lg_mem = (\<lambda>_. 0), thread_mem = (\<lambda>_. 0)\<rparr>"


lemma ledger_at:
  "ledger_ok (g, m) \<Longrightarrow> governor_data g pol = None \<Longrightarrow> lg_mem m pol = 0 \<and> thread_mem m pol = 0"
  "ledger_ok (g, m) \<Longrightarrow> governor_data g pol = Some lg \<Longrightarrow> lg_mem m pol = 1 \<and>
     thread_mem m pol = (if lg_thread lg then 1 else 0) \<and> lg_thread lg = (\<not> fast_switch_enabled (policy_obj g pol))"
  unfolding ledger_ok_def prod.case by (drule spec [of _ pol], simp)+

lemma ledger_run:
  assumes "gov_run k g g'" "ledger_ok (g, m)" shows "ledger_ok (g', m)"
proof -
  have same: "policy_obj g' = policy_obj g"
    "map_option lg_thread (governor_data g' pol) = map_option lg_thread (governor_data g pol)" for pol
    using gov_run_threads [OF assms(1)] by (simp_all add: same_life_def)
  show ?thesis unfolding ledger_ok_def prod.case
  proof
    fix pol
    show "case governor_data g' pol of None \<Rightarrow> lg_mem m pol = 0 \<and> thread_mem m pol = 0
      | Some lg \<Rightarrow> lg_mem m pol = 1 \<and> thread_mem m pol = (if lg_thread lg then 1 else 0) \<and>
          lg_thread lg = (\<not> fast_switch_enabled (policy_obj g' pol))"
      using same(2) [of pol] ledger_at [OF assms(2), of pol]
      by (cases "governor_data g pol"; cases "governor_data g' pol") (auto simp: same(1))
  qed
qed

text \<open>The fields of other policies are not touched by initialisation.\<close>

lemma init_policy_obj:
  assumes "q \<noteq> pol" shows "policy_obj (snd (lse_gov_init env pol g)) q = policy_obj g q"
  using assms by (auto simp: lse_gov_init_def Let_def set_fast_switch_def set_dvfs_any_cpu_def lse_gov_tunables_free_def
      upd_tunables_def set_governor_data_def split: option.split prod.split)

lemma init_failed:
  assumes "governor_data g pol = None" "fst (lse_gov_init env pol g) \<noteq> 0" "attached (have_governor_per_policy env) g"
  shows "governor_data (snd (lse_gov_init env pol g)) = governor_data g"
  using assms(1,2) by (auto simp: lse_gov_init_def Let_def fast_switch_fields lse_gov_tunables_free_def
      upd_tunables_def set_governor_data_def split: option.splits prod.splits)

lemma init_fast:
  assumes "governor_data g pol = None" "fst (lse_gov_init env pol g) = 0"
  shows "fast_switch_enabled (policy_obj (snd (lse_gov_init env pol g)) pol) = fast_switch_possible env"
  using assms by (auto simp: lse_gov_init_def Let_def fast_switch_fields EBUSY_def ENOMEM_def EINVAL_GOV_def
      split: option.splits prod.splits if_splits)

lemma ready_ledger:
  "thread_ready fast pol lg m m' \<Longrightarrow> lg_mem m' = (lg_mem m)(pol := lg_mem m pol + 1) \<and>
     thread_mem m' = (if fast then thread_mem m else (thread_mem m)(pol := thread_mem m pol + 1))"
  by (auto simp: thread_ready_def kzalloc_lg_def kthread_start_def)

lemma ledger_init:
  assumes run: "gov_init_life env sr pol (g, m) = Inr (r, g', m')" and ok: "ledger_ok (g, m)"
    and att: "attached (have_governor_per_policy env) g"
  shows "ledger_ok (g', m') \<and> (r \<noteq> 0 \<longrightarrow> m' = m \<and> governor_data g' = governor_data g)"
proof (cases "governor_data g pol = None")
  case free: True
  let ?e = "seen_env sr env"
  have env: "have_governor_per_policy ?e = have_governor_per_policy env" "fast_switch_possible ?e = fast_switch_possible env"
    by (simp_all add: seen_env_def)
  have st: "r = fst (lse_gov_init ?e pol g)" "g' = snd (lse_gov_init ?e pol g)"
    and m': "if r \<noteq> 0 then m' = m else \<exists>lg. governor_data g' = (governor_data g)(pol \<mapsto> lg) \<and>
        thread_ready (fast_switch_possible env) pol lg m m'"
    using init_life_spec [of env sr pol g m] run by auto
  have other: "policy_obj g' q = policy_obj g q" if "q \<noteq> pol" for q using init_policy_obj [OF that] st(2) by simp
  show ?thesis
  proof (cases "r = 0")
    case True
    then obtain lg where lg: "governor_data g' = (governor_data g)(pol \<mapsto> lg)"
      "thread_ready (fast_switch_possible env) pol lg m m'" using m' by auto
    have fast: "fast_switch_enabled (policy_obj g' pol) = fast_switch_possible env"
      using init_fast [OF free, of ?e] True st env(2) by simp
    have thr: "lg_thread lg = (\<not> fast_switch_possible env)" using lg(2) by (simp add: thread_ready_def)
    have "ledger_ok (g', m')"
      unfolding ledger_ok_def prod.case
    proof
      fix q
      show "case governor_data g' q of None \<Rightarrow> lg_mem m' q = 0 \<and> thread_mem m' q = 0
        | Some lg \<Rightarrow> lg_mem m' q = 1 \<and> thread_mem m' q = (if lg_thread lg then 1 else 0) \<and>
            lg_thread lg = (\<not> fast_switch_enabled (policy_obj g' q))"
      proof (cases "q = pol")
        case True
        then show ?thesis using lg(1) ready_ledger [OF lg(2)] ledger_at(1) [OF ok free] fast thr by simp
      next
        case False
        then show ?thesis using lg(1) ready_ledger [OF lg(2)] ledger_at [OF ok, of q] other
          by (cases "governor_data g q") simp_all
      qed
    qed
    then show ?thesis using True by simp
  next
    case False
    then have same: "m' = m" "governor_data g' = governor_data g"
      using m' init_failed [OF free, of ?e] st att env(1) by simp_all
    have "ledger_ok (g', m)"
      unfolding ledger_ok_def prod.case
    proof
      fix q
      show "case governor_data g' q of None \<Rightarrow> lg_mem m q = 0 \<and> thread_mem m q = 0
        | Some lg \<Rightarrow> lg_mem m q = 1 \<and> thread_mem m q = (if lg_thread lg then 1 else 0) \<and>
            lg_thread lg = (\<not> fast_switch_enabled (policy_obj g' q))"
        using same ledger_at [OF ok, of q] other [of q] free by (cases "q = pol"; cases "governor_data g q") auto
    qed
    then show ?thesis using same by simp
  qed
qed (use assms in \<open>auto simp: gov_init_life_def\<close>)

lemma ledger_exit:
  assumes run: "gov_exit_life env pol (g, m) = Inr (g', m')" and ok: "ledger_ok (g, m)"
    and att: "attached (have_governor_per_policy env) g"
  shows "ledger_ok (g', m')"
proof -
  obtain lg where lg: "governor_data g pol = Some lg"
    using run by (cases "governor_data g pol") (auto simp: gov_exit_life_def lse_gov_exit_def split: sum.splits)
  note l = ledger_at(2) [OF ok lg]
  have g': "m' = \<lparr>lg_mem = (lg_mem m)(pol := 0), thread_mem = (thread_mem m)(pol := 0)\<rparr> \<and>
    governor_data g' = (governor_data g)(pol := None) \<and> (\<forall>q. q \<noteq> pol \<longrightarrow> policy_obj g' q = policy_obj g q)"
  proof -
    obtain h where "gov_exit_life env pol (g, m) = Inr (h, \<lparr>lg_mem = (lg_mem m)(pol := 0), thread_mem = (thread_mem m)(pol := 0)\<rparr>)"
      "governor_data h = (governor_data g)(pol := None)" "\<forall>q. q \<noteq> pol \<longrightarrow> policy_obj h q = policy_obj g q"
      using exit_life_spec [OF att refl lg, of m] l by blast
    then show ?thesis using run by simp
  qed
  show ?thesis unfolding ledger_ok_def prod.case
  proof
    fix q
    show "case governor_data g' q of None \<Rightarrow> lg_mem m' q = 0 \<and> thread_mem m' q = 0
      | Some lg \<Rightarrow> lg_mem m' q = 1 \<and> thread_mem m' q = (if lg_thread lg then 1 else 0) \<and>
          lg_thread lg = (\<not> fast_switch_enabled (policy_obj g' q))"
    proof (cases "q = pol")
      case False
      then have eq: "governor_data g' q = governor_data g q" "policy_obj g' q = policy_obj g q"
        "lg_mem m' q = lg_mem m q" "thread_mem m' q = thread_mem m q" using g' by simp_all
      then show ?thesis using ok unfolding ledger_ok_def prod.case eq by blast
    qed (use g' in simp)
  qed
qed

text \<open>The state moves as in \<open>gov_step\<close>, so the links stay consistent.\<close>

lemma life_step_gov: "life_step k b (g, m) (g', m') \<Longrightarrow> gov_step k b g g' \<or> g' = g"
proof (induction "(g, m)" "(g', m')" rule: life_step.induct)
  case (init env sr pol r)
  have "g' = snd (lse_gov_init (seen_env sr env) pol g)" using init_life_spec [of env sr pol g m] init(2) by auto
  moreover have "have_governor_per_policy (seen_env sr env) = b" using init(1) by (simp add: seen_env_def)
  ultimately show ?case using gov_step.init by auto
next
  case (exit env pol)
  then have "lse_gov_exit env pol g = Inr g'"
    by (auto simp: gov_exit_life_def ebind_eq_Inr split: sum.splits option.splits)
  then show ?case using exit(1) gov_step.exit by blast
qed (auto intro: gov_run_step)

interpretation life_gov: simulated_invariant "life_step k b" "gov_step k b" "\<lambda>gm g. g = fst gm" gov_boot "attached b" life_boot
  for k b
proof unfold_locales
  fix gm g gm' assume "g = fst gm" "life_step k b gm gm'"
  then show "\<exists>g'. (gov_step k b)\<^sup>*\<^sup>* g g' \<and> g' = fst gm'"
    using life_step_gov [of k b "fst gm" "snd gm" "fst gm'" "snd gm'"] by auto
qed (simp add: life_boot_def)

interpretation life_sys: layered_invariant life_boot "life_step k b" "\<lambda>gm. \<exists>g. g = fst gm \<and> attached b g" ledger_ok for k b
proof unfold_locales
  fix gm gm'
  show "ledger_ok gm" if "life_boot gm"
    using that by (cases gm) (simp add: life_boot_def ledger_ok_def gov_boot_def)
  assume att: "\<exists>g. g = fst gm \<and> attached b g" and ok: "ledger_ok gm" and step: "life_step k b gm gm'"
  obtain g m g' m' where gm: "gm = (g, m)" "gm' = (g', m')" by fastforce
  have "ledger_ok (g', m')"
    using step unfolding gm
  proof (cases rule: life_step.cases)
    case (init env sr pol r)
    then show ?thesis using ledger_init [of env sr pol g m r g' m'] ok att by (auto simp: gm)
  next
    case (exit env pol)
    then show ?thesis using ledger_exit [of env pol g m g' m'] ok att by (auto simp: gm)
  qed (use ledger_run ok gm in blast)
  then show "ledger_ok gm'" by (simp add: gm)
qed

section \<open>Property\<close>

text \<open>C7: In every state that any sequence of governor calls reaches, a policy has exactly one structure
  while it runs the governor and none otherwise, and a worker thread exactly when it cannot switch
  fast.  No call frees or stops what is not live: \<open>lse_gov_init\<close> returns, and every error it returns -
  no memory, no thread, no scheduling class, no kobject - leaves memory, threads and policies as they
  were; \<open>lse_gov_exit\<close> of a running policy returns and releases all it holds.\<close>

theorem gov_no_leak:
  assumes "life_boot gm0" "(life_step k b)\<^sup>*\<^sup>* gm0 (g, m)" "have_governor_per_policy env = b"
  shows "(lg_mem m pol = (if governor_data g pol = None then 0 else 1)) \<and>
    (thread_mem m pol = (if governor_data g pol = None \<or> fast_switch_enabled (policy_obj g pol) then 0 else 1)) \<and>
    (\<exists>r g' m'. gov_init_life env sched_ret pol (g, m) = Inr (r, g', m') \<and>
       (r \<noteq> 0 \<longrightarrow> m' = m \<and> governor_data g' = governor_data g)) \<and>
    (governor_data g pol \<noteq> None \<longrightarrow> (\<exists>g' m'. gov_exit_life env pol (g, m) = Inr (g', m') \<and>
       lg_mem m' = (lg_mem m)(pol := 0) \<and> thread_mem m' = (thread_mem m)(pol := 0)))"
proof -
  have ok: "ledger_ok (g, m)" and att: "attached (have_governor_per_policy env) g"
    using life_sys.both.inv_reachable [OF assms(1,2)] assms(3) by simp_all
  have ini: "\<exists>r g' m'. gov_init_life env sched_ret pol (g, m) = Inr (r, g', m')"
    using init_life_spec [of env sched_ret pol g m] by blast
  have ext: "\<exists>g' m'. gov_exit_life env pol (g, m) = Inr (g', m') \<and>
       lg_mem m' = (lg_mem m)(pol := 0) \<and> thread_mem m' = (thread_mem m)(pol := 0)" if "governor_data g pol = Some lg" for lg
    using exit_life_spec [OF att refl that, of m] ledger_at(2) [OF ok that] by fastforce
  show ?thesis
    using ledger_at [OF ok, of pol] ini ledger_init [OF _ ok att] ext by (cases "governor_data g pol") fastforce+
qed

text \<open>A policy that cannot switch fast, in a kernel that refuses the scheduling class of its thread.\<close>

definition demo_slow_env :: gov_env where
  "demo_slow_env = demo_env\<lparr>fast_switch_possible := False, kthread_ret := 0\<rparr>"

definition no_mem :: gov_mem where
  "no_mem = \<lparr>lg_mem = (\<lambda>_. 0), thread_mem = (\<lambda>_. 0)\<rparr>"

theorem gov_no_leak_witness:
  "\<exists>g'. gov_init_life demo_slow_env (- 1) 4 (demo_boot_gov, no_mem) = Inr (- 1, g', no_mem)"
proof -
  have boot: "life_boot (demo_boot_gov, no_mem)"
    by (simp add: life_boot_def no_mem_def gov_boot_def demo_boot_gov_def demo_gov_def)
  have "have_governor_per_policy demo_slow_env = False" by (simp add: demo_slow_env_def demo_env_def)
  from gov_no_leak [OF boot rtranclp.rtrancl_refl [where r = "life_step demo_kernel False"] this, of 4 "- 1"]
  obtain r g' m' where run: "gov_init_life demo_slow_env (- 1) 4 (demo_boot_gov, no_mem) = Inr (r, g', m')"
    "r \<noteq> 0 \<longrightarrow> m' = no_mem" by blast
  moreover have "r = - 1" using run(1)
    by (simp add: gov_init_life_def demo_slow_env_def demo_env_def demo_boot_gov_def demo_gov_def kthread_create_life_def
        free_lg_policy_def disable_fast_switch_def Let_def)
  ultimately show ?thesis by simp
qed

end
