(* ===== verification/Lse_Safe.thy ===== *)
theory Lse_Safe
  imports Lse_Module Lse_Topology Lse_Trace
begin

text \<open>
  The module without the restrictions of \<open>Lse_Module\<close>: the hooks run at any reading of the clock, for
  any task and on any run queue, the accounting is switched off and on, windows shrink, the shadow
  tick of another CPU is started, cpufreq creates policies and reports transitions.  The bounds of
  the accounting do not survive this (\<open>window_shrink_overload\<close>), but the shape of the state does:
  every ring of samples has its five slots and an index inside, the queues and the flags agree, every
  policy of the governor is attached, every CPU has a live cluster.  So a hook that stops does so at
  a \<open>BUG_ON\<close> or a division by zero, never outside an array or at a NULL pointer.
\<close>

section \<open>Faults that are not memory errors\<close>

definition tame :: "fault + 'a \<Rightarrow> bool" where
  "tame m \<longleftrightarrow> m \<noteq> Inl Null_Deref \<and> m \<noteq> Inl Out_Of_Bounds \<and> m \<noteq> Inl Use_After_Free"

named_theorems tame

lemma tame_simps [simp, tame]:
  "tame (Inr x)" "tame (Inl Kernel_Bug)" "tame (Inl Div_By_Zero)"
  by (simp_all add: tame_def)

lemma tame_ebind [tame]: "tame m \<Longrightarrow> (\<And>x. m = Inr x \<Longrightarrow> tame (f x)) \<Longrightarrow> tame (ebind m f)"
  by (cases m) (auto simp: tame_def)

lemma tame_if [tame]: "(b \<Longrightarrow> tame x) \<Longrightarrow> (\<not> b \<Longrightarrow> tame y) \<Longrightarrow> tame (if b then x else y)"
  by simp

lemma tame_case_prod [tame]: "(\<And>x y. p = (x, y) \<Longrightarrow> tame (f x y)) \<Longrightarrow> tame (case p of (x, y) \<Rightarrow> f x y)"
  by (cases p) simp

lemma tame_let [tame]: "tame (f x) \<Longrightarrow> tame (Let x f)"
  by simp

lemma tame_division [tame]: "tame (div64_u64 x y)" "tame (div64_roundup_u32 x z)" "tame (div64_roundup_u64 x y)"
  by (simp_all add: div64_roundup_u32_def div64_roundup_u64_def div64_u64_def)

lemma tame_bug [tame]: "tame (lse_bug d)"
  by (simp add: lse_bug_def)

lemma tame_scale [tame]: "tame (lse_scale_time_to_util d x)"
  unfolding lse_scale_time_to_util_def by (intro tame)

lemma tame_update_history [tame]: "tame (update_history w p r n t)"
  unfolding update_history_def by (intro tame)

lemma tame_update_task_demand [tame]: "tame (update_task_demand w l rq p e wc t)"
  unfolding update_task_demand_def by (intro tame)

lemma tame_window_start [tame]: "tame (update_window_start w wc l)"
  unfolding update_window_start_def by (intro tame)

lemma tame_cycles [tame]: "tame (update_task_rq_cpu_cycles pol cap l)"
  unfolding update_task_rq_cpu_cycles_def by (intro tame)

lemma tame_done [tame]: "tame (ravg_done k c old wc r)"
  unfolding ravg_done_def by (intro tame)

lemma tame_ravg [tame]: "tame (lse_update_task_ravg k ctrl c pol rq p e wc r)"
  unfolding lse_update_task_ravg_def by (intro tame)

lemma tame_sys_update [tame]: "tame (sys_update_task_ravg k here rq p e wc lts s)"
  unfolding sys_update_task_ravg_def by (intro tame)

lemma tame_rq_clock [tame]: "tame (lse_rq_clock c d f l rq)"
  unfolding lse_rq_clock_def by (intro tame)

lemma tame_track [tame]: "tame (track_task k he p e sr)"
  unfolding track_task_def by (cases sr; cases "sys_lts (fst sr) (ts_id p)") (auto intro!: tame)



section \<open>The shape of the state\<close>

definition rings_ok :: "lts_table \<Rightarrow> bool" where
  "rings_ok L \<longleftrightarrow> (\<forall>t l. L t = Some l \<longrightarrow> history_ok l)"

definition shape_ok :: "kernel \<Rightarrow> bool \<Rightarrow> lse \<Rightarrow> bool" where
  "shape_ok k b s \<longleftrightarrow> rings_ok (sys_lts s) \<and> dsq_wf (sys_lts s, sys_dsq s) \<and> attached b (sys_gov s) \<and>
     clusters_linked k (sys_clusters s) \<and> clusters_known k (sys_clusters s)"

lemma update_task_demand_shape:
  assumes "update_task_demand w l rq p e wc t = Inr (r, t')" "history_ok t" shows "history_ok t'"
proof -
  have add: "history_ok (snd (add_to_task_demand w l t d)) = history_ok t" for t d
    by (simp add: add_to_task_demand_def Let_def history_ok_def)
  have add': "add_to_task_demand w l t d = (x, u) \<Longrightarrow> history_ok u = history_ok t" for t d x u
    using add [of t d] by simp
  show ?thesis using assms
    by (auto simp: update_task_demand_def Let_def ebind_eq_Inr case_prod_unfold add split: if_splits
        dest!: update_history_shape add') 
qed

lemma history_ok_upd [simp]:
  "history_ok (t\<lparr>mark_start := a\<rparr>) = history_ok t" "history_ok (t\<lparr>lts_window_start := a\<rparr>) = history_ok t"
  "history_ok (lse_refresh_task_hint w p t) = history_ok t"
  by (simp_all add: history_ok_def lse_refresh_task_hint_def Let_def)

lemma window_start_link: "update_window_start w wc l = Inr (old, l') \<Longrightarrow> lrq_cluster l' = lrq_cluster l"
  by (auto simp: update_window_start_def Let_def ebind_eq_Inr case_prod_unfold rollover_cpu_window_def split: if_splits)

lemma busy_time_link: "lrq_cluster (snd (update_cpu_busy_time rq p e wc t wl)) = lrq_cluster (snd wl)"
  by (cases wl) (simp add: update_cpu_busy_time_def cpu_busy_time_def Let_def)

lemma ravg_done_shape:
  "ravg_done k c old wc r = Inr r' \<Longrightarrow> history_ok (rv_lts r') = history_ok (rv_lts r) \<and> rv_lrq r' = rv_lrq r"
  by (auto simp: ravg_done_def Let_def ebind_eq_Inr case_prod_unfold)

lemma ravg_account_shape:
  "ravg_account k pol rq p e wc r = Inr r' \<Longrightarrow>
   (history_ok (rv_lts r) \<longrightarrow> history_ok (rv_lts r')) \<and> lrq_cluster (rv_lrq r') = lrq_cluster (rv_lrq r)"
  by (auto simp: ravg_account_def Let_def ebind_eq_Inr update_task_rq_cpu_cycles_def case_prod_unfold busy_time_link
      dest: update_task_demand_shape)

lemma ravg_shape:
  assumes "lse_update_task_ravg k ctrl c pol rq p e wc r = Inr r'"
  shows "(history_ok (rv_lts r) \<longrightarrow> history_ok (rv_lts r')) \<and> lrq_cluster (rv_lrq r') = lrq_cluster (rv_lrq r)"
  using assms
proof (cases rule: ravg_cases)
  case (event old l r2)
  have "history_ok (rv_lts (ravg_begin p r l)) = history_ok (rv_lts r)"
    by (simp add: ravg_begin_def Let_def)
  then have "(history_ok (rv_lts r) \<longrightarrow> history_ok (rv_lts r2)) \<and> lrq_cluster (rv_lrq r2) = lrq_cluster (rv_lrq r)"
    using event(2) ravg_account_shape [of k pol rq p e wc "ravg_begin p r l" r2] window_start_link [OF event(1)] by auto
  with ravg_done_shape [OF event(3)] show ?thesis by simp
qed auto

text \<open>What an update leaves alone, at any reading of the clock.\<close>

definition shape_frame :: "lse \<Rightarrow> lse \<Rightarrow> bool" where
  "shape_frame s s' \<longleftrightarrow> sys_dsq s' = sys_dsq s \<and> sys_gov s' = sys_gov s \<and>
     (\<forall>t. on_dsq_flag (sys_lts s') t = on_dsq_flag (sys_lts s) t) \<and>
     (rings_ok (sys_lts s) \<longrightarrow> rings_ok (sys_lts s')) \<and>
     (\<forall>k. clusters_linked k (sys_clusters s) \<longrightarrow> clusters_linked k (sys_clusters s')) \<and>
     same_table (sys_clusters s) (sys_clusters s')"

lemma shape_frame_refl: "shape_frame s s"
  by (simp add: shape_frame_def same_table_refl)

lemma shape_frame_trans: "shape_frame s s1 \<Longrightarrow> shape_frame s1 s2 \<Longrightarrow> shape_frame s s2"
  by (simp add: shape_frame_def) (blast intro: same_table_trans)

lemma shape_frameI:
  assumes "sys_dsq s' = sys_dsq s" "sys_gov s' = sys_gov s" "sys_lts s' = sys_lts s" "sys_clusters s' = sys_clusters s"
  shows "shape_frame s s'"
  using assms by (simp add: shape_frame_def same_table_refl)

lemma sys_update_shape:
  assumes run: "sys_update_task_ravg k here rq p e wc lts s = Inr s'" and lts: "sys_lts s (ts_id p) = Some lts"
  shows "shape_frame s s'"
proof -
  let ?r = "\<lparr>rv_walt = sys_walt s, rv_mon = sys_mon s, rv_lts = lts, rv_lrq = sys_lrq s (rq_cpu rq)\<rparr>"
  obtain r where r: "lse_update_task_ravg k (slim_walt_ctrl s) here (cpu_policy s (rq_cpu rq)) rq p e wc ?r = Inr r"
    and s': "s' = set_sys_lrq ((sys_lrq s)(rq_cpu rq := rv_lrq r))
      (s\<lparr>sys_walt := rv_walt r, sys_mon := rv_mon r, sys_lts := (sys_lts s)(ts_id p \<mapsto> rv_lts r)\<rparr>)"
    using run by (auto simp: sys_update_task_ravg_def ebind_eq_Inr)
  have ring: "history_ok lts \<Longrightarrow> history_ok (rv_lts r)" and flag: "on_dsq (rv_lts r) = on_dsq lts"
    and link: "lrq_cluster (rv_lrq r) = lrq_cluster (sys_lrq s (rq_cpu rq))"
    using ravg_shape [OF r] ravg_keeps(1) [OF r] by simp_all
  have "clusters_linked kk (sys_clusters s) \<Longrightarrow> clusters_linked kk (sys_clusters s')" for kk
    by (erule linked_cong) (simp_all add: s' set_sys_lrq_def sys_lrq_def link [unfolded sys_lrq_def])
  moreover have "same_table (sys_clusters s) (sys_clusters s')" by (rule same_tableI) (simp_all add: s' set_sys_lrq_def)
  ultimately show ?thesis using ring flag lts
    by (auto simp: shape_frame_def s' rings_ok_def on_dsq_flag_def)
qed


lemma track_task_shape:
  assumes "track_task k he p e (s, rq) = Inr (s', rq')" shows "shape_frame s s'"
  using assms
  by (auto simp: track_task_def ebind_eq_Inr shape_frame_refl split: option.splits intro: sys_update_shape)

lemma switch_shape:
  assumes "ebind (track_task k he prev e (s, rq)) (track_task k he n e') = Inr (s', rq')"
  shows "shape_frame s s'"
proof -
  obtain s1 rq1 where "track_task k he prev e (s, rq) = Inr (s1, rq1)" "track_task k he n e' (s1, rq1) = Inr (s', rq')"
    using assms by (auto simp: ebind_eq_Inr)
  then show ?thesis by (blast intro: shape_frame_trans track_task_shape)
qed

section \<open>Every operation keeps the shape\<close>

lemma shape_frame_ok: "shape_frame s s' \<Longrightarrow> shape_ok k b s \<Longrightarrow> shape_ok k b s'"
  unfolding shape_frame_def shape_ok_def by (metis wf_flags same_table_known)

text \<open>What does not enter the shape may change at will.\<close>

lemma shape_ok_upd [simp]:
  "shape_ok k b (s\<lparr>sys_mon := m\<rparr>) = shape_ok k b s" "shape_ok k b (s\<lparr>sys_clock := c\<rparr>) = shape_ok k b s"
  "shape_ok k b (s\<lparr>sys_walt := w\<rparr>) = shape_ok k b s" "shape_ok k b (s\<lparr>sys_shadow := sh\<rparr>) = shape_ok k b s"
  "shape_ok k b (s\<lparr>slim_walt_ctrl := v\<rparr>) = shape_ok k b s" "shape_ok k b (s\<lparr>frame_per_sec := v\<rparr>) = shape_ok k b s"
  "shape_ok k b (s\<lparr>sysctl_lse_gov_debug := v\<rparr>) = shape_ok k b s"
  by (simp_all add: shape_ok_def)

lemma rings_class: "same_class L L' \<Longrightarrow> rings_ok L \<Longrightarrow> rings_ok L'"
proof -
  assume cls: "same_class L L'" and ok: "rings_ok L"
  have "map_option (\<lambda>l. l\<lparr>on_dsq := False\<rparr>) (L' t) = map_option (\<lambda>l. l\<lparr>on_dsq := False\<rparr>) (L t)" for t
    using cls by (simp add: same_class_def)
  then have "\<exists>l. L t = Some l \<and> l'\<lparr>on_dsq := False\<rparr> = l\<lparr>on_dsq := False\<rparr>" if "L' t = Some l'" for t l'
    using that by (cases "L t") (metis option.simps(8,9) option.distinct(1), metis option.simps(9) option.inject)
  moreover have "history_ok l' = history_ok l" if "l'\<lparr>on_dsq := False\<rparr> = l\<lparr>on_dsq := False\<rparr>" for l l' :: lse_task_struct
  proof -
    have "history_ok (l'\<lparr>on_dsq := False\<rparr>) = history_ok (l\<lparr>on_dsq := False\<rparr>)" using that by simp
    then show ?thesis by (simp add: history_ok_def)
  qed
  ultimately show ?thesis using ok unfolding rings_ok_def by metis
qed

lemma lse_schedule_shape:
  assumes run: "lse_schedule k he prev n rq s = Inr s'" and ok: "shape_ok k b s" shows "shape_ok k b s'"
proof (cases "slim_walt_ctrl s = 0")
  case False
  let ?m = "if ts_id prev \<noteq> ts_id n
      then ebind (track_task k he prev PUT_PREV_TASK (s, rq)) (track_task k he n PICK_NEXT_TASK)
      else track_task k he prev TASK_UPDATE (s, rq)"
  obtain s1 rq1 where s1: "?m = Inr (s1, rq1)" using run False by (auto simp: lse_schedule_def ebind_eq_Inr)
  then have "shape_frame s s1" by (auto intro: switch_shape track_task_shape split: if_splits)
  then have ok1: "shape_ok k b s1" by (rule shape_frame_ok [OF _ ok])
  let ?x = "lse_dsq_on_schedule k (he_jiffies he) (he_cpu_rq he) (slim_stats (sys_mon s1))
      (Some rq1) (Some prev) (Some n) (sys_lts s1, sys_dsq s1)"
  have "same_class (sys_lts s1) (fst ?x)" using on_schedule_class [of "sys_lts s1" "(sys_lts s1, sys_dsq s1)"] same_class_refl by simp
  then have "rings_ok (fst ?x)" using ok1 rings_class by (auto simp: shape_ok_def)
  moreover have "dsq_wf (fst ?x, snd ?x)" using ok1 dsq_step_wf [OF dsq_step.schedule] by (simp add: shape_ok_def)
  ultimately show ?thesis using run False s1 ok1 by (auto simp: lse_schedule_def case_prod_unfold Let_def shape_ok_def)
qed (use assms in \<open>simp add: lse_schedule_def\<close>)

lemma shape_gov: "shape_ok k b s \<Longrightarrow> attached b g \<Longrightarrow> shape_ok k b (s\<lparr>sys_gov := g\<rparr>)"
  by (simp add: shape_ok_def)

lemma lse_tick_entry_shape:
  assumes run: "lse_tick_entry k he p rq s = Inr s'" and ok: "shape_ok k b s" shows "shape_ok k b s'"
proof (cases "slim_walt_ctrl s = 0")
  case False
  let ?s = "s\<lparr>sys_mon := lse_monitor_touch (he_jiffies he) (sys_mon s)\<rparr>"
  obtain s1 rq1 g where s1: "track_task k he p TASK_UPDATE (?s, rq) = Inr (s1, rq1)"
    and g: "lse_gov_tick_update k (lse_sched_ravg_window (sys_walt s1)) (sys_lrq s1) (sys_dsq s1)
      (he_local_clock1 he) (he_local_clock2 he) rq1 (sys_gov s1) = Inr g" "s' = s1\<lparr>sys_gov := g\<rparr>"
    using run False by (auto simp: lse_tick_entry_def ebind_eq_Inr Let_def)
  have ok1: "shape_ok k b s1" using shape_frame_ok [OF track_task_shape [OF s1]] ok by simp
  then have "attached b (sys_gov s1)" by (simp add: shape_ok_def)
  then have "attached b g" using tick_total g(1) by (metis sum.inject(2))
  then show ?thesis using ok1 g(2) shape_gov by simp
qed (use assms in \<open>simp add: lse_tick_entry_def\<close>)


lemma lse_scheduler_tick_shape: "shape_ok k b s \<Longrightarrow> shape_ok k b (lse_scheduler_tick k he old s)"
  by (auto simp: lse_scheduler_tick_def Let_def shape_ok_def set_sys_lrq_def sys_lrq_def fold_window_start
      intro: linked_cong same_table_known [OF same_tableI])

text \<open>The roll-over work: the update of the current task, then the governor on the result.\<close>

lemma irq_work_run:
  fixes s :: lse and rq :: rq
  defines "s0 \<equiv> s\<lparr>sys_walt := (sys_walt s)\<lparr>lse_slim_walt_irq_work := None\<rparr>\<rparr>" and "rq0 \<equiv> rq\<lparr>rq_locked := True\<rparr>"
  shows "lse_irq_work k cpu now p rq s =
    ebind (case sys_lts s0 (ts_id p) of None \<Rightarrow> Inr s0
           | Some lts \<Rightarrow> sys_update_task_ravg k cpu rq0 p TASK_UPDATE (lse_sched_clock (sys_clock s0) now) lts s0)
      (\<lambda>s1. ebind (if update_hook (sys_gov s1) cpu
               then lsegov_update_freq k (lse_sched_ravg_window (sys_walt s1)) (sys_lrq s1) (sys_cluster_list s1) True (sys_gov s1)
               else Inr (sys_gov s1))
        (\<lambda>g. Inr (s1\<lparr>sys_gov := g,
           sys_walt := adopt_new_window (lse_sched_clock (sys_clock s0) now) (sys_lrq s1 cpu) (sys_walt s1)\<rparr>)))"
  unfolding lse_irq_work_def Let_def s0_def rq0_def ..

lemma current_update_shape:
  assumes "(case sys_lts s (ts_id p) of None \<Rightarrow> Inr s | Some lts \<Rightarrow> sys_update_task_ravg k here rq p e wc lts s) = Inr s'"
  shows "shape_frame s s'"
  using assms by (auto simp: shape_frame_refl split: option.splits intro: sys_update_shape)

lemma rollover_attached:
  assumes "attached b g" "(if hook then lsegov_update_freq k W lrq cs r g else Inr g) = Inr g'"
  shows "attached b g'"
  using assms rollover_keeps [of k W lrq cs r g g' b] by (auto split: if_splits)

lemma lse_irq_work_shape:
  assumes run: "lse_irq_work k cpu now p rq s = Inr s'" and ok: "shape_ok k b s" shows "shape_ok k b s'"
proof -
  let ?s0 = "s\<lparr>sys_walt := (sys_walt s)\<lparr>lse_slim_walt_irq_work := None\<rparr>\<rparr>"
  obtain s1 g w where s1: "(case sys_lts ?s0 (ts_id p) of None \<Rightarrow> Inr ?s0
      | Some lts \<Rightarrow> sys_update_task_ravg k cpu (rq\<lparr>rq_locked := True\<rparr>) p TASK_UPDATE (lse_sched_clock (sys_clock ?s0) now) lts ?s0) = Inr s1"
    and g: "(if update_hook (sys_gov s1) cpu
      then lsegov_update_freq k (lse_sched_ravg_window (sys_walt s1)) (sys_lrq s1) (sys_cluster_list s1) True (sys_gov s1)
      else Inr (sys_gov s1)) = Inr g" and s': "s' = s1\<lparr>sys_gov := g, sys_walt := w\<rparr>"
    using run unfolding irq_work_run ebind_eq_Inr by blast
  have ok1: "shape_ok k b s1" using shape_frame_ok [OF current_update_shape [OF s1]] ok by simp
  then have "attached b g" using rollover_attached [OF _ g] by (simp add: shape_ok_def)
  then show ?thesis using ok1 by (simp add: s' shape_ok_def)
qed



lemma listed_ids:
  assumes "shape_ok k b s" "c \<in> set (sys_cluster_list s)" "\<not> id_in_range (cl_id c)"
  shows "\<exists>i \<in> set (cpu_possible k). \<not> id_in_range (topology_cluster_id k i)"
proof -
  obtain d where d: "d \<in> set (lse_cluster_head (sys_clusters s))" "c = cl (sys_clusters s) d"
    using assms(2) by (auto simp: sys_cluster_list_def)
  have kn: "clusters_known k (sys_clusters s)" using assms(1) by (simp add: shape_ok_def)
  then obtain x where "cl_heap (sys_clusters s) d = Some x" using d(1) by (auto simp: clusters_known_def)
  then have "id_known k (cl_id c)" using kn d(2) by (simp add: clusters_known_def heap_known_def cl_def)
  moreover have "id_in_range 0" by (simp add: id_in_range_def MAX_LSE_CLUSTERS_def)
  ultimately show ?thesis using assms(3) by (auto simp: id_known_def)
qed

lemma lse_shadow_tick_expire_shape:
  assumes run: "lse_shadow_tick_expire k he now owner p rq s = Inr s'" and ok: "shape_ok k b s"
    and runs: "\<forall>here. lse_shadow_tick_timer (sys_shadow s) owner = Some here \<longrightarrow> rq_curr (he_cpu_rq he here) = ts_id p"
  shows "shape_ok k b s'"
proof -
  obtain act sh where ex: "shadow_tick_expire (slim_walt_ctrl s \<noteq> 0) (sys_lts s) (he_cpu_rq he) owner (sys_shadow s) = (act, sh)"
    by fastforce
  have act: "act \<in> {None, Some Shadow_Touch, Some (Shadow_Update (ts_id p))}"
    using ex runs by (auto simp: shadow_tick_expire_def lse_shadow_tick_cb_def split: option.splits if_splits)
  let ?s = "s\<lparr>sys_shadow := sh\<rparr>"
  have "shape_frame ?s s'" if "act = Some (Shadow_Update (ts_id p))"
    using run by (intro current_update_shape) (simp add: lse_shadow_tick_expire_def ex that Let_def)
  then show ?thesis
    using act run ok shape_frame_ok [of ?s s' k b] by (auto simp: lse_shadow_tick_expire_def ex)
qed

text \<open>A write to any entry of the table, whatever its value.\<close>

lemma ctl_set_shape: "shape_ok k b s \<Longrightarrow> shape_ok k b (ctl_set d v s)"
proof -
  assume ok: "shape_ok k b s"
  have "attached b (sys_gov s\<lparr>ctl := c\<rparr>)" for c
    using gov_sys.inv_step [of b "sys_gov s"] gov_step.ctl ok by (auto simp: shape_ok_def)
  moreover have "dsq_wf (sys_lts s, (sys_dsq s)\<lparr>lse_dsq_max_depth := v\<rparr>)"
    using dsq_step_wf [OF dsq_step.set_depth] ok by (simp add: shape_ok_def)
  moreover have "dsq_wf (sys_lts s, (sys_dsq s)\<lparr>lse_dsq_enable := v\<rparr>)" "dsq_wf (sys_lts s, (sys_dsq s)\<lparr>lse_dsq_rescue_enable := v\<rparr>)"
    using ok set_toggle_wf [of "(sys_lts s, sys_dsq s)" Toggle_Dsq_Enable v]
      set_toggle_wf [of "(sys_lts s, sys_dsq s)" Toggle_Dsq_Rescue v] by (simp_all add: shape_ok_def)
  ultimately show ?thesis using ok by (cases d) (simp_all add: upd_ctl_def shape_ok_def)
qed

lemma toggle_class:
  "same_class (fst s) (fst (snd (lse_proc_dsq_toggle_update k t w io s)))"
  by (auto simp: lse_proc_dsq_toggle_update_def same_class_refl sync_class split: sum.split)

lemma sysctl_write_shape:
  assumes run: "sysctl_write k ce h tb buf s = Inr (r, s')" and ok: "shape_ok k b s" shows "shape_ok k b s'"
proof -
  have store: "shape_ok k b (snd (sysctl_store tb io s))" for io
    using ok ctl_set_shape by (auto simp: sysctl_store_def split: sum.split option.split)
  have toggle: "shape_ok k b (s\<lparr>sys_lts := fst (snd x), sys_dsq := snd (snd x)\<rparr>)"
    if "x = lse_proc_dsq_toggle_update k t True io (sys_lts s, sys_dsq s)" for x t io
    using ok toggle_wf [of "(sys_lts s, sys_dsq s)"] rings_class [OF toggle_class [of "(sys_lts s, sys_dsq s)"]]
    by (simp add: shape_ok_def that)
  show ?thesis
    using run ok store [of "ctl_io h tb buf"] toggle [OF refl]
    by (cases "ctl_handler tb") (auto simp: sysctl_write_def Let_def case_prod_unfold
        lse_proc_sched_ravg_window_update_def sched_ravg_window_change_def split: sum.splits if_splits)
qed

section \<open>Everything that can happen to the module\<close>

text \<open>The hooks and works at any time, the sysctls with any value, cpufreq's calls, tasks that come and
  go.  What remains assumed of the kernel: the current task of the CPU a timer fires on is the one
  its run queue names, a task that is freed has left the queues, and a policy has possible CPUs.\<close>

inductive any_step :: "kernel \<Rightarrow> bool \<Rightarrow> lse \<Rightarrow> lse \<Rightarrow> bool" for k b where
  schedule: "lse_schedule k he prev n rq s = Inr s' \<Longrightarrow> any_step k b s s'"
| tick_entry: "lse_tick_entry k he p rq s = Inr s' \<Longrightarrow> any_step k b s s'"
| scheduler_tick: "any_step k b s (lse_scheduler_tick k he old s)"
| irq_work: "lse_irq_work k cpu now p rq s = Inr s' \<Longrightarrow> any_step k b s s'"
| shadow_expire: "lse_shadow_tick_expire k he now owner p rq s = Inr s' \<Longrightarrow>
    \<forall>here. lse_shadow_tick_timer (sys_shadow s) owner = Some here \<longrightarrow> rq_curr (he_cpu_rq he here) = ts_id p \<Longrightarrow>
    any_step k b s s'"
| monitor: "monitor_step k (sys_mon s) m \<Longrightarrow> any_step k b s (s\<lparr>sys_mon := m\<rparr>)"
| governor: "gov_step k b (sys_gov s) g \<Longrightarrow> any_step k b s (s\<lparr>sys_gov := g\<rparr>)"
| cpufreq: "cluster_step k (sys_clusters s) cs \<Longrightarrow> any_step k b s (s\<lparr>sys_clusters := cs\<rparr>)"
| sysctl: "sysctl_write k ce h tb buf s = Inr (r, s') \<Longrightarrow> any_step k b s s'"
| task_new: "any_step k b s (s\<lparr>sys_lts := alloc_lse_task_struct ok tsk (sys_lts s)\<rparr>)"
| task_gone: "\<forall>p. tsk = Some p \<longrightarrow> \<not> on_dsq_flag (sys_lts s) (ts_id p) \<Longrightarrow>
    any_step k b s (s\<lparr>sys_lts := free_lse_task_struct tsk (sys_lts s)\<rparr>)"
| suspend: "any_step k b s (s\<lparr>sys_clock := lse_suspend (sys_clock s) t\<rparr>)"
| resume: "any_step k b s (s\<lparr>sys_clock := lse_resume (sys_clock s)\<rparr>)"

lemma rings_init: "history_ok (init_lse_task_struct p)"
  using init_lts_bounded [of 0 0 p] by (simp add: lts_bounded_def)

lemma alloc_shape: "shape_ok k b s \<Longrightarrow> shape_ok k b (s\<lparr>sys_lts := alloc_lse_task_struct ok tsk (sys_lts s)\<rparr>)"
proof -
  assume s: "shape_ok k b s"
  have cases: "alloc_lse_task_struct ok tsk (sys_lts s) = sys_lts s \<or>
      (\<exists>p. sys_lts s (ts_id p) = None \<and> alloc_lse_task_struct ok tsk (sys_lts s) = (sys_lts s)(ts_id p \<mapsto> init_lse_task_struct p))"
    by (auto simp: alloc_lse_task_struct_def split: option.split)
  moreover have "dsq_wf ((sys_lts s)(ts_id p \<mapsto> init_lse_task_struct p), sys_dsq s)" if "sys_lts s (ts_id p) = None" for p
    using dsq_step_wf [OF dsq_step.lts_alloc] s that by (simp add: shape_ok_def)
  moreover have "rings_ok ((sys_lts s)(ts_id p \<mapsto> init_lse_task_struct p))" for p
    using s rings_init by (simp add: shape_ok_def rings_ok_def)
  ultimately show ?thesis using s by (auto simp: shape_ok_def)
qed

lemma free_shape:
  assumes s: "shape_ok k b s" and free: "\<forall>p. tsk = Some p \<longrightarrow> \<not> on_dsq_flag (sys_lts s) (ts_id p)"
  shows "shape_ok k b (s\<lparr>sys_lts := free_lse_task_struct tsk (sys_lts s)\<rparr>)"
proof -
  have flags: "on_dsq_flag (free_lse_task_struct tsk (sys_lts s)) t = on_dsq_flag (sys_lts s) t" for t
    using free by (auto simp: free_lse_task_struct_def on_dsq_flag_def split: option.splits)
  have "dsq_wf (sys_lts s, sys_dsq s)" using s by (simp add: shape_ok_def)
  then have "dsq_wf (free_lse_task_struct tsk (sys_lts s), sys_dsq s)" by (rule wf_flags) (rule flags)
  moreover have "free_lse_task_struct tsk (sys_lts s) t = Some l \<Longrightarrow> sys_lts s t = Some l" for t l
    by (auto simp: free_lse_task_struct_def split: option.splits if_splits)
  then have "rings_ok (free_lse_task_struct tsk (sys_lts s))"
    using s unfolding shape_ok_def rings_ok_def by blast
  ultimately show ?thesis using s by (simp add: shape_ok_def)
qed

lemma any_step_shape:
  assumes "any_step k b s s'" "shape_ok k b s" shows "shape_ok k b s'"
  using assms
proof (induction rule: any_step.induct)
  case (governor s g)
  then show ?case using gov_sys.inv_step [of b "sys_gov s" k g] by (simp add: shape_ok_def)
next
  case (cpufreq s cs)
  then show ?case
    using cluster_sys.inv_step [of k "sys_clusters s" cs] same_table_known [OF cluster_step_table, of k "sys_clusters s" cs]
    by (simp add: shape_ok_def)
qed (auto intro: lse_schedule_shape lse_tick_entry_shape lse_scheduler_tick_shape lse_irq_work_shape
    lse_shadow_tick_expire_shape sysctl_write_shape alloc_shape free_shape)

text \<open>Loading the module establishes the shape.\<close>

lemma loaded_shape:
  assumes "module_loaded k le j g cur s" shows "shape_ok k b s"
proof -
  define L where "L = snd (lse_task_struct_ext_init k (le_cache_ok le) (le_alloc_ok le) (le_threads le)
      (le_idle le) (\<lambda>_. None))"
  let ?d = "lse_dsq_init k (le_jiffies le) boot_dsq"
  obtain cs w lrq where cs: "lse_sched_cluster_init k (le_kzalloc_ok le) (boot_clusters (\<lambda>_. boot_lrq)) = Inr cs"
    and w: "lse_sched_stats_init k (init_walt, cl_lrq cs) = (w, lrq)"
    and s: "s = (set_sys_lrq lrq (boot_lse j g\<lparr>sys_lts := L, sys_clusters := cs, sys_dsq := ?d, sys_walt := w\<rparr>))
      \<lparr>sys_mon := sys_mon s,
       sys_shadow := lse_shadow_tick_sync_all k (le_cpu_rq le) (le_here le) (lse_shadow_tick_init k boot_shadow)\<rparr>"
    unfolding L_def using module_loaded_state [OF assms] by blast
  have sel: "sys_lts s = L" "sys_dsq s = ?d" "sys_gov s = g" "sys_clusters s = cs\<lparr>cl_lrq := lrq\<rparr>"
    by (subst s; simp add: set_sys_lrq_def boot_lse_def)+
  have "table_ok 0 0 L" unfolding L_def by (rule ext_init_ok)
  then have "rings_ok L" by (simp add: table_ok_def rings_ok_def lts_bounded_def)
  moreover have "dsq_wf (L, ?d)" using loaded_lts(3) [OF L_def] by (intro started_wf) (auto simp: dsq_started_def)
  moreover have "attached b g" using assms gov_sys.inv_init by (simp add: module_loaded_def)
  moreover have "clusters_linked k (cs\<lparr>cl_lrq := lrq\<rparr>)"
    using cluster_init_linked [OF cs]
    by (rule linked_cong) (simp_all add: stats_init_lrq [OF w [symmetric]] lse_sched_init_rq_def)
  moreover have "clusters_known k (cs\<lparr>cl_lrq := lrq\<rparr>)"
    by (rule same_table_known [OF same_tableI cluster_init_known [OF cs]]) simp_all
  ultimately show ?thesis by (simp add: shape_ok_def sel)
qed

definition module_booted :: "kernel \<Rightarrow> lse \<Rightarrow> bool" where
  "module_booted k s \<longleftrightarrow> (\<exists>le j g cur. module_loaded k le j g cur s)"

interpretation shape_sys: invariant_system "module_booted k" "any_step k b" "shape_ok k b" for k b
  by unfold_locales (auto simp: module_booted_def intro: loaded_shape any_step_shape)

text \<open>The steps of \<open>Lse_Module\<close> are among these, so what holds here holds there.\<close>

lemma sys_step_any:
  assumes "sys_step k B b x y" and sh: "shadow_consistent (sys_shadow (snd x))"
  shows "(any_step k b)\<^sup>*\<^sup>* (snd x) (snd y)"
  using assms(1)
proof cases
  case (shadow_expire rq p cur s wc he s')
  have "\<forall>here. lse_shadow_tick_timer (sys_shadow s) (rq_cpu rq) = Some here \<longrightarrow> rq_curr (he_cpu_rq he here) = ts_id p"
    using sh shadow_expire by (auto simp: shadow_consistent_def)
  from any_step.shadow_expire [OF shadow_expire(8) this, of b] show ?thesis using shadow_expire by auto
next
  case (sleep cur s t)
  let ?s = "s\<lparr>sys_clock := lse_suspend (sys_clock s) t\<rparr>"
  have "any_step k b s ?s" by (rule any_step.suspend)
  moreover have "any_step k b ?s (s\<lparr>sys_clock := lse_resume (lse_suspend (sys_clock s) t)\<rparr>)"
    using any_step.resume [of k b ?s] by simp
  ultimately show ?thesis using sleep by auto
qed (auto intro: any_step.intros)

definition module_state :: "kernel \<Rightarrow> u32 \<Rightarrow> bool \<Rightarrow> (nat \<Rightarrow> nat) \<times> lse \<Rightarrow> lse \<Rightarrow> bool" where
  "module_state k B b x s \<longleftrightarrow> s = snd x \<and> module_inv k B b x \<and> kernel_ok k \<and> 8000000 \<le> B"

interpretation module_sim: simulation "sys_step k B b" "any_step k b" "module_state k B b" for k B b
proof
  fix x y s
  assume rel: "module_state k B b x s" and step: "sys_step k B b x y"
  have "shadow_consistent (sys_shadow (snd x))" using rel by (auto simp: module_state_def module_inv_def sys_ok_def)
  from sys_step_any [OF step this] module_sys.inv_step [OF _ step] rel
  show "\<exists>t. (any_step k b)\<^sup>*\<^sup>* s t \<and> module_state k B b y t" by (auto simp: module_state_def)
qed

lemma module_run_any:
  assumes "(sys_step k B b)\<^sup>*\<^sup>* x y" "module_started k x" "kernel_ok k" "8000000 \<le> B"
  shows "(any_step k b)\<^sup>*\<^sup>* (snd x) (snd y)"
  using module_sim.sim_steps [OF assms(1), of "snd x"] module_sys.inv_init [OF assms(2)] assms(3,4)
  by (auto simp: module_state_def)

section \<open>Properties\<close>



text \<open>C17: The roll-over work and the shadow tick return as well, in every state that the steps of
  \<open>sys_step\<close> reach, with what these leave out (\<open>slim_walt_ctrl\<close> off, shrinking windows, ticks started on
  other CPUs) and the same conditions on the clock as for the hooks.  For the work the topology has to
  give every possible CPU a cluster id from 0 to 3, and every cluster whose flag is set has to have an
  online CPU, the first of which has a policy that runs the governor; then it returns while the legacy
  formula is off, and with it on the only fault is a division by zero.\<close>

theorem module_works_return:
  assumes "module_started k x" "kernel_ok k" "8000000 \<le> B" "(sys_step k B b)\<^sup>*\<^sup>* x (cur, s)"
    and "rq_cpu rq \<in> set (cpu_possible k)" "ts_id p = cur (rq_cpu rq)"
    and "reading_ok (lse_sched_ravg_window (sys_walt s)) wc (sys_lrq s (rq_cpu rq))"
    and "\<forall>l. sys_lts s (cur (rq_cpu rq)) = Some l \<longrightarrow> mark_start l \<le> wc"
  shows "((\<forall>i \<in> set (cpu_possible k). id_in_range (topology_cluster_id k i)) \<and>
      (\<forall>c \<in> set (sys_cluster_list s). \<not> cluster_idle k (sys_gov s) c \<and> \<not> cluster_unserved k (sys_gov s) c) \<longrightarrow>
      (\<exists>s'. lse_irq_work k (rq_cpu rq) wc p rq s = Inr s') \<or>
      gov_legacy_formula_enable (ctl (sys_gov s)) \<noteq> 0 \<and> lse_irq_work k (rq_cpu rq) wc p rq s = Inl Div_By_Zero) \<and>
    (rq_curr (he_cpu_rq he (rq_cpu rq)) = ts_id p \<longrightarrow>
       (\<exists>s'. lse_shadow_tick_expire k he wc (rq_cpu rq) p rq s = Inr s'))"
proof -
  note ok = module_ok [OF assms(1,4,2,3)]
  have "module_booted k (snd x)" using assms(1) by (auto simp: module_started_def module_booted_def)
  then have shape: "shape_ok k b s"
    using shape_sys.inv_reachable module_run_any [OF assms(4,1-3)] by auto
  then have att: "attached b (sys_gov s)" by (simp add: shape_ok_def)
  have "f = Div_By_Zero \<and> gov_legacy_formula_enable (ctl (sys_gov s)) \<noteq> 0"
    if fault: "lse_irq_work k (rq_cpu rq) wc p rq s = Inl f"
      and ids: "\<forall>i \<in> set (cpu_possible k). id_in_range (topology_cluster_id k i)"
      and served: "\<forall>c \<in> set (sys_cluster_list s). \<not> cluster_idle k (sys_gov s) c \<and> \<not> cluster_unserved k (sys_gov s) c"
    for f
  proof -
    obtain W lrq where "lsegov_update_freq k W lrq (sys_cluster_list s) True (sys_gov s) = Inl f"
      using lse_irq_work_stops [OF ok assms(2,5-8) fault] by blast
    from rollover_fault [OF this att] show ?thesis using listed_ids [OF shape] ids served by blast
  qed
  then show ?thesis
    using lse_shadow_tick_expire_ok [OF ok assms(2,5-8)]
    by (cases "lse_irq_work k (rq_cpu rq) wc p rq s") auto
qed

theorem module_works_return_witness:
  "\<exists>s s' s''. module_loaded demo_kernel demo_load 0 demo_boot_gov id s \<and>
     lse_irq_work demo_kernel 3 5000000 (demo_task 3) demo_locked s = Inr s' \<and>
     lse_shadow_tick_expire demo_kernel demo_he 5000000 3 (demo_task 3) demo_locked s = Inr s''"
proof -
  obtain s where s: "module_loaded demo_kernel demo_load 0 demo_boot_gov id s" using demo_loaded by blast
  then have st: "module_started demo_kernel (id, s)" by (auto simp: module_started_def)
  have rq: "rq_cpu demo_locked \<in> set (cpu_possible demo_kernel)" "ts_id (demo_task 3) = id (rq_cpu demo_locked)"
    "rq_cpu demo_locked = 3" "rq_curr (he_cpu_rq demo_he (rq_cpu demo_locked)) = ts_id (demo_task 3)"
    by (simp_all add: demo_task_def demo_locked_def demo_rq_def demo_kernel_def demo_he_def)
  have wc: "reading_ok (lse_sched_ravg_window (sys_walt s)) 5000000 (sys_lrq s (rq_cpu demo_locked))"
    "\<forall>l. sys_lts s (id (rq_cpu demo_locked)) = Some l \<longrightarrow> mark_start l \<le> 5000000"
    using module_loaded_fresh [OF s] by (auto simp: reading_ok_def)
  have gov: "sys_gov s = demo_boot_gov"
    by (rule module_loaded_state [OF s], drule arg_cong [where f = sys_gov]) (simp add: set_sys_lrq_def boot_lse_def)
  have ids: "\<forall>i \<in> set (cpu_possible demo_kernel). id_in_range (topology_cluster_id demo_kernel i)"
    by (simp add: demo_kernel_def id_in_range_def MAX_LSE_CLUSTERS_def)
  have flags: "gov_flag (sys_gov s) ! nat i = 0" if "id_in_range i" for i
  proof -
    have "nat i \<in> {0, 1, 2, 3}" using that by (auto simp: id_in_range_def MAX_LSE_CLUSTERS_def)
    then show ?thesis by (auto simp: gov demo_boot_gov_def)
  qed
  have "\<not> cluster_idle demo_kernel (sys_gov s) c \<and> \<not> cluster_unserved demo_kernel (sys_gov s) c"
    if "c \<in> set (sys_cluster_list s)" for c
  proof -
    have "id_in_range (cl_id c)" using listed_ids [OF loaded_shape [OF s, of True] that] ids by blast
    then show ?thesis using flags by (simp add: cluster_idle_def cluster_unserved_def)
  qed
  moreover have "gov_legacy_formula_enable (ctl (sys_gov s)) = 0" by (simp add: gov demo_boot_gov_def)
  ultimately
  show ?thesis
    using module_works_return [OF st demo_kernel_ok order_refl rtranclp.rtrancl_refl rq(1,2) wc, of demo_he] ids rq(3,4) s
    by auto
qed

end
