(* ===== verification/Lse_Register.thy ===== *)
theory Lse_Register
  imports Lse_Safe
begin

text \<open>
  What the module registers with the kernel when it is loaded, and how the kernel's calls reach its
  functions: the vendor hooks (\<open>src/lse_cfs.c\<close>, \<open>src/lse_task_struct_ext.c\<close>), the cpufreq notifiers
  (\<open>src/lse_sched_cluster.c\<close>), the governor and its sysfs attributes (\<open>src/cpufreq_lse.c\<close>), the procfs
  files (\<open>src/lse_monitor.c\<close>) and the suspend callbacks (\<open>src/lse_main.c\<close>).  The answers of the kernel
  to a registration are parameters; the lemmas show which calls reach which handler, and what
  remains when a registration fails, which \<open>lunar_sched_ext_init\<close> never reports.
\<close>

section \<open>The registry\<close>

datatype vendor_hook =
    Vh_dup_task_struct | Vh_free_task | Vh_scheduler_tick | Rvh_schedule | Rvh_tick_entry

datatype callback =
    Cb_alloc_lse_task_struct | Cb_free_lse_task_struct | Cb_lse_scheduler_tick_cb | Cb_lse_schedule | Cb_lse_tick_entry

datatype proc_file = Status_Ops | Stats_Ops | Tasks_Ops | Reset_Ops

text \<open>One line of \<open>lse_cpufreq_init\<close>: the number of clusters, then the id, the CPUs and the capacity of
  one of them, and the number of possible CPUs.\<close>

type_synonym cluster_message = "int \<times> int \<times> nat list \<times> u64 \<times> nat"

record registry =
  reg_syscore :: bool
  reg_hooks :: "(vendor_hook \<times> callback) list"
  reg_policy_nb :: bool
  reg_trans_nb :: bool
  reg_governor :: bool
  reg_procs :: "(string \<times> nat \<times> proc_file) list"
  reg_log :: "cluster_message list"

definition boot_registry :: registry where
  "boot_registry = \<lparr>reg_syscore = False, reg_hooks = [], reg_policy_nb = False, reg_trans_nb = False,
     reg_governor = False, reg_procs = [], reg_log = []\<rparr>"

text \<open>The kernel's answers: 0, or an error.\<close>

record reg_env =
  re_policy_ret :: int
  re_trans_ret :: int
  re_governor_ret :: int

section \<open>The registrations\<close>

definition lse_syscore_ops :: "registry \<Rightarrow> registry" where
  "lse_syscore_ops r = r\<lparr>reg_syscore := True\<rparr>"

text \<open>The end of \<open>lse_task_struct_ext_init\<close>, reached when the cache exists.\<close>

definition task_hooks_register :: "bool \<Rightarrow> registry \<Rightarrow> registry" where
  "task_hooks_register cache_ok r =
     (if cache_ok
      then r\<lparr>reg_hooks := reg_hooks r @
             [(Vh_dup_task_struct, Cb_alloc_lse_task_struct), (Vh_free_task, Cb_free_lse_task_struct)]\<rparr>
      else r)"

definition register_sched_callback :: "reg_env \<Rightarrow> registry \<Rightarrow> int \<times> registry" where
  "register_sched_callback re r =
     (let ret = re_policy_ret re;
          r = (if ret = 0 then r\<lparr>reg_policy_nb := True\<rparr> else r)
      in if ret = 0
         then (re_trans_ret re, if re_trans_ret re = 0 then r\<lparr>reg_trans_nb := True\<rparr> else r)
         else (ret, r))"

text \<open>\<open>lse_monitor_proc_init\<close>: nothing when the directory is there already.\<close>

definition proc_files_create :: "bool \<Rightarrow> bool \<Rightarrow> registry \<Rightarrow> registry" where
  "proc_files_create root mkdir_ok r =
     (if root then r
      else if mkdir_ok
      then r\<lparr>reg_procs := reg_procs r @ [(''status'', 292, Status_Ops), (''stats'', 292, Stats_Ops),
             (''tasks'', 292, Tasks_Ops), (''reset_stats'', 144, Reset_Ops)]\<rparr>
      else r)"

definition cluster_line :: "kernel \<Rightarrow> lse \<Rightarrow> lse_sched_cluster \<Rightarrow> cluster_message" where
  "cluster_line k s c =
     (lse_num_sched_clusters (sys_clusters s), cl_id c, cl_cpus c,
      arch_scale_cpu_capacity k (case cl_cpus c of [] \<Rightarrow> nr_cpu_ids k | cpu # _ \<Rightarrow> cpu), length (cpu_possible k))"

definition lse_cpufreq_init :: "kernel \<Rightarrow> reg_env \<Rightarrow> lse \<Rightarrow> registry \<Rightarrow> int \<times> registry" where
  "lse_cpufreq_init k re s r =
     (if re_governor_ret re \<noteq> 0 then (re_governor_ret re, r)
      else (0, r\<lparr>reg_governor := True, reg_log := reg_log r @ map (cluster_line k s) (sys_cluster_list s)\<rparr>))"

definition lse_cfs_hooks_register :: "registry \<Rightarrow> registry" where
  "lse_cfs_hooks_register r =
     r\<lparr>reg_hooks := reg_hooks r @
       [(Vh_scheduler_tick, Cb_lse_scheduler_tick_cb), (Rvh_schedule, Cb_lse_schedule),
        (Rvh_tick_entry, Cb_lse_tick_entry)]\<rparr>"

text \<open>\<open>lunar_sched_ext_init\<close> with its registrations, in its order; the errors of
  \<open>lse_sched_cluster_init\<close> and \<open>lse_cpufreq_init\<close> are dropped.\<close>

definition module_init :: "kernel \<Rightarrow> load_env \<Rightarrow> reg_env \<Rightarrow> lse \<Rightarrow> fault + (int \<times> registry \<times> lse)" where
  "module_init k le re s =
     (let m = sys_mon s in ebind (lunar_sched_ext_init k le s) (\<lambda>s.
       let r = lse_syscore_ops boot_registry;
           r = task_hooks_register (le_cache_ok le) r;
           (_, r) = register_sched_callback re r;
           r = (if lse_monitor_inited m then r else proc_files_create (lse_proc_root m) (le_mkdir_ok le) r);
           (_, r) = lse_cpufreq_init k re s r;
           r = lse_cfs_hooks_register r
       in Inr (0, r, s)))"

section \<open>The calls of the kernel\<close>

datatype hook_call =
    Call_dup_task_struct bool "task_struct option"
  | Call_free_task "task_struct option"
  | Call_scheduler_tick hook_env u64
  | Call_schedule hook_env task_struct task_struct rq
  | Call_tick_entry hook_env task_struct rq

fun hook_of :: "hook_call \<Rightarrow> vendor_hook" where
  "hook_of (Call_dup_task_struct ok p) = Vh_dup_task_struct"
| "hook_of (Call_free_task p) = Vh_free_task"
| "hook_of (Call_scheduler_tick he old) = Vh_scheduler_tick"
| "hook_of (Call_schedule he prev n rq) = Rvh_schedule"
| "hook_of (Call_tick_entry he p rq) = Rvh_tick_entry"

definition lse_scheduler_tick_cb :: "kernel \<Rightarrow> hook_env \<Rightarrow> u64 \<Rightarrow> lse \<Rightarrow> fault + lse" where
  "lse_scheduler_tick_cb k he old s = Inr (lse_scheduler_tick k he old s)"

text \<open>A callback on the arguments of the hook it is registered for; the compiler excludes any other
  pair.\<close>

fun run_callback :: "kernel \<Rightarrow> hook_call \<Rightarrow> callback \<Rightarrow> lse \<Rightarrow> fault + lse" where
  "run_callback k (Call_dup_task_struct ok p) Cb_alloc_lse_task_struct s =
     Inr (s\<lparr>sys_lts := alloc_lse_task_struct ok p (sys_lts s)\<rparr>)"
| "run_callback k (Call_free_task p) Cb_free_lse_task_struct s = Inr (s\<lparr>sys_lts := free_lse_task_struct p (sys_lts s)\<rparr>)"
| "run_callback k (Call_scheduler_tick he old) Cb_lse_scheduler_tick_cb s = lse_scheduler_tick_cb k he old s"
| "run_callback k (Call_schedule he prev n rq) Cb_lse_schedule s = lse_schedule k he prev n rq s"
| "run_callback k (Call_tick_entry he p rq) Cb_lse_tick_entry s = lse_tick_entry k he p rq s"
| "run_callback k c cb s = Inr s"

definition call_hook :: "kernel \<Rightarrow> registry \<Rightarrow> hook_call \<Rightarrow> lse \<Rightarrow> fault + lse" where
  "call_hook k r c s = efold (run_callback k c) (map snd (filter (\<lambda>(h, _). h = hook_of c) (reg_hooks r))) s"

datatype kernel_event =
    Ev_Suspend u64
  | Ev_Resume
  | Ev_Hook hook_call
  | Ev_Policy "freq_qos \<Rightarrow> int" "policy_event option" cpufreq_policy
  | Ev_Trans bool cpufreq_policy u32

text \<open>The kernel's side: an event reaches the module through what is registered for it, or not at all.\<close>

fun deliver :: "kernel \<Rightarrow> registry \<Rightarrow> kernel_event \<Rightarrow> lse \<Rightarrow> fault + lse" where
  "deliver k r (Ev_Suspend t) s = Inr (if reg_syscore r then s\<lparr>sys_clock := lse_suspend (sys_clock s) t\<rparr> else s)"
| "deliver k r Ev_Resume s = Inr (if reg_syscore r then s\<lparr>sys_clock := lse_resume (sys_clock s)\<rparr> else s)"
| "deliver k r (Ev_Hook c) s = call_hook k r c s"
| "deliver k r (Ev_Policy add_ret val p) s =
     (if reg_policy_nb r
      then ebind (cpufreq_notifier_policy add_ret val p (sys_clusters s)) (\<lambda>(_, cs). Inr (s\<lparr>sys_clusters := cs\<rparr>))
      else Inr s)"
| "deliver k r (Ev_Trans post p new_freq) s =
     (if reg_trans_nb r
      then ebind (cpufreq_notifier_trans post p new_freq (sys_clusters s)) (\<lambda>(_, cs). Inr (s\<lparr>sys_clusters := cs\<rparr>))
      else Inr s)"

definition run_events :: "kernel \<Rightarrow> registry \<Rightarrow> kernel_event list \<Rightarrow> lse \<Rightarrow> fault + lse" where
  "run_events k r = efold (deliver k r)"

section \<open>What is registered\<close>

lemma module_init_registry:
  assumes "module_init k le re s = Inr (ret, r, s')"
  shows "ret = 0" "reg_syscore r" "reg_hooks r = (if le_cache_ok le
      then [(Vh_dup_task_struct, Cb_alloc_lse_task_struct), (Vh_free_task, Cb_free_lse_task_struct)] else []) @
      [(Vh_scheduler_tick, Cb_lse_scheduler_tick_cb), (Rvh_schedule, Cb_lse_schedule), (Rvh_tick_entry, Cb_lse_tick_entry)]"
    "reg_policy_nb r = (re_policy_ret re = 0)" "reg_trans_nb r = (re_policy_ret re = 0 \<and> re_trans_ret re = 0)"
    "reg_governor r = (re_governor_ret re = 0)" "lunar_sched_ext_init k le s = Inr s'"
    "reg_log r = (if re_governor_ret re = 0 then map (cluster_line k s') (sys_cluster_list s') else [])"
  using assms
  by (auto simp: module_init_def ebind_eq_Inr Let_def lse_syscore_ops_def boot_registry_def task_hooks_register_def
      register_sched_callback_def proc_files_create_def lse_cpufreq_init_def lse_cfs_hooks_register_def split: if_splits)

section \<open>The hooks do not touch the clusters\<close>

definition same_heap :: "lse \<Rightarrow> lse \<Rightarrow> bool" where
  "same_heap s s' \<longleftrightarrow> cl_heap (sys_clusters s') = cl_heap (sys_clusters s)"

lemma same_heap_refl: "same_heap s s"
  by (simp add: same_heap_def)

lemma same_heap_trans: "same_heap s s1 \<Longrightarrow> same_heap s1 s2 \<Longrightarrow> same_heap s s2"
  by (simp add: same_heap_def)

lemma sys_update_heap: "sys_update_task_ravg k here rq p e wc lts s = Inr s' \<Longrightarrow> same_heap s s'"
  by (auto simp: sys_update_task_ravg_def ebind_eq_Inr same_heap_def set_sys_lrq_def)

lemma track_task_heap: "track_task k he p e (s, rq) = Inr (s', rq') \<Longrightarrow> same_heap s s'"
  by (auto simp: track_task_def ebind_eq_Inr same_heap_refl split: option.splits intro: sys_update_heap)

lemma lse_schedule_heap:
  assumes "lse_schedule k he prev n rq s = Inr s'" shows "same_heap s s'"
proof (cases "slim_walt_ctrl s = 0")
  case False
  let ?m = "if ts_id prev \<noteq> ts_id n
      then ebind (track_task k he prev PUT_PREV_TASK (s, rq)) (track_task k he n PICK_NEXT_TASK)
      else track_task k he prev TASK_UPDATE (s, rq)"
  obtain s1 rq1 where s1: "?m = Inr (s1, rq1)" using assms False by (auto simp: lse_schedule_def ebind_eq_Inr)
  then have "same_heap s s1"
    by (auto simp: ebind_eq_Inr dest: track_task_heap intro: same_heap_trans split: if_splits)
  moreover have "same_heap s1 s'" using assms False s1
    by (auto simp: lse_schedule_def case_prod_unfold Let_def same_heap_def)
  ultimately show ?thesis by (rule same_heap_trans)
qed (use assms in \<open>simp add: lse_schedule_def same_heap_refl\<close>)

lemma lse_tick_entry_heap:
  assumes "lse_tick_entry k he p rq s = Inr s'" shows "same_heap s s'"
proof (cases "slim_walt_ctrl s = 0")
  case False
  let ?s = "s\<lparr>sys_mon := lse_monitor_touch (he_jiffies he) (sys_mon s)\<rparr>"
  obtain s1 rq1 g where "track_task k he p TASK_UPDATE (?s, rq) = Inr (s1, rq1)" "s' = s1\<lparr>sys_gov := g\<rparr>"
    using assms False by (auto simp: lse_tick_entry_def ebind_eq_Inr Let_def)
  then show ?thesis using track_task_heap [of k he p TASK_UPDATE ?s rq s1 rq1] by (simp add: same_heap_def)
qed (use assms in \<open>simp add: lse_tick_entry_def same_heap_refl\<close>)

lemma run_callback_heap: "run_callback k c cb s = Inr s' \<Longrightarrow> same_heap s s'"
  by (induction k c cb s rule: run_callback.induct)
    (auto simp: same_heap_refl lse_scheduler_tick_cb_def lse_scheduler_tick_def Let_def same_heap_def set_sys_lrq_def
      dest: lse_schedule_heap lse_tick_entry_heap)

lemma efold_heap:
  "(\<And>i s s'. f i s = Inr s' \<Longrightarrow> same_heap s s') \<Longrightarrow> efold f is s = Inr s' \<Longrightarrow> same_heap s s'"
proof (induction "is" arbitrary: s)
  case (Cons i "is")
  then show ?case by (auto simp: ebind_eq_Inr) (metis same_heap_trans)
qed (simp add: same_heap_refl)

lemma call_hook_heap: "call_hook k r c s = Inr s' \<Longrightarrow> same_heap s s'"
  unfolding call_hook_def by (rule efold_heap [OF run_callback_heap])

lemma deliver_heap:
  "deliver k r ev s = Inr s' \<Longrightarrow> \<not> reg_policy_nb r \<Longrightarrow> \<not> reg_trans_nb r \<Longrightarrow> same_heap s s'"
  by (cases ev) (auto simp: same_heap_def dest: call_hook_heap [unfolded same_heap_def] split: if_splits)

section \<open>The sysfs attributes of the governor\<close>

datatype gov_attr =
    Attr_target_loads | Attr_soft_freq_max | Attr_soft_freq_min | Attr_soft_freq_cur | Attr_apply_freq_immediately

text \<open>\<open>lse_gov_attrs\<close>: name and mode of each attribute.\<close>

definition lse_gov_attrs :: "(string \<times> nat \<times> gov_attr) list" where
  "lse_gov_attrs =
     [(''target_loads'', 436, Attr_target_loads), (''soft_freq_max'', 436, Attr_soft_freq_max),
      (''soft_freq_min'', 436, Attr_soft_freq_min), (''soft_freq_cur'', 436, Attr_soft_freq_cur),
      (''apply_freq_immediately'', 436, Attr_apply_freq_immediately)]"

text \<open>\<open>governor_sysfs_ops\<close> calls the functions of the attribute; \<open>kuint\<close> and \<open>kint\<close> are the kernel's
  \<open>kstrtouint\<close> and \<open>kstrtoint\<close>, \<open>None\<close> on an error.\<close>

fun gov_attr_show :: "gov_attr \<Rightarrow> lse_gov_tunables \<Rightarrow> string" where
  "gov_attr_show Attr_target_loads tn = target_loads_show tn"
| "gov_attr_show Attr_soft_freq_max tn = soft_freq_max_show tn"
| "gov_attr_show Attr_soft_freq_min tn = soft_freq_min_show tn"
| "gov_attr_show Attr_soft_freq_cur tn = soft_freq_cur_show tn"
| "gov_attr_show Attr_apply_freq_immediately tn = apply_freq_immediately_show tn"

fun gov_attr_store ::
  "kernel \<Rightarrow> (string \<Rightarrow> u32 option) \<Rightarrow> (string \<Rightarrow> int option) \<Rightarrow> gov_attr \<Rightarrow> nat \<Rightarrow> string \<Rightarrow> gov \<Rightarrow> fault + (int \<times> gov)" where
  "gov_attr_store k kuint kint Attr_target_loads t buf g = Inr (target_loads_store t (kuint buf) (int (length buf)) g)"
| "gov_attr_store k kuint kint Attr_soft_freq_max t buf g = soft_freq_max_store k t (kint buf) (int (length buf)) g"
| "gov_attr_store k kuint kint Attr_soft_freq_min t buf g = soft_freq_min_store k t (kint buf) (int (length buf)) g"
| "gov_attr_store k kuint kint Attr_soft_freq_cur t buf g = soft_freq_cur_store k t (kint buf) (int (length buf)) g"
| "gov_attr_store k kuint kint Attr_apply_freq_immediately t buf g =
     Inr (apply_freq_immediately_store t (kint buf) (int (length buf)) g)"

text \<open>What a reader makes of an attribute after \<open>v\<close> has been stored: \<open>max\<close> and \<open>none\<close> are no numbers.\<close>

fun read_back :: "gov_attr \<Rightarrow> int \<Rightarrow> int option" where
  "read_back Attr_target_loads v = Some v"
| "read_back Attr_soft_freq_max v = (if v < 0 then None else Some v)"
| "read_back Attr_soft_freq_min v = Some (max v 0)"
| "read_back Attr_soft_freq_cur v = None"
| "read_back Attr_apply_freq_immediately v = Some (if v > 0 then 1 else 0)"

definition parses :: "(string \<Rightarrow> u32 option) \<Rightarrow> (string \<Rightarrow> int option) \<Rightarrow> gov_attr \<Rightarrow> string \<Rightarrow> int \<Rightarrow> bool" where
  "parses kuint kint a buf v \<longleftrightarrow>
     (if a = Attr_target_loads then kuint buf = Some (word_of_int v) \<and> 0 \<le> v \<and> v < 2 ^ 31 else kint buf = Some v)"

lemma sint_small: "0 \<le> v \<Longrightarrow> v < 2 ^ 31 \<Longrightarrow> sint (word_of_int v :: u32) = v"
proof -
  assume "0 \<le> v" "v < 2 ^ 31"
  then have "signed_take_bit 31 v = v" by (intro signed_take_bit_int_eq_self) simp_all
  moreover have "sint (word_of_int v :: u32) = signed_take_bit 31 v" by transfer simp
  ultimately show ?thesis by simp
qed

lemma read_words: "read_int ''max'' = None" "read_int ''none'' = None" "read_int ''0'' = Some 0"
  by (simp_all add: read_int_def read_nat_def digit_value_def)

section \<open>Properties\<close>

text \<open>C25: Loading the module registers each handler once: from then on a call of a vendor hook runs
  exactly the handler written for it - the tasks' hooks only when the cache could be made - and the
  suspend callbacks stop and restart the clock.\<close>

theorem hooks_reach_handlers:
  assumes "module_init k le re s = Inr (ret, r, s0)"
  shows "call_hook k r (Call_scheduler_tick he old) s1 = Inr (lse_scheduler_tick k he old s1) \<and>
    call_hook k r (Call_schedule he prev n rq) s1 = lse_schedule k he prev n rq s1 \<and>
    call_hook k r (Call_tick_entry he p rq) s1 = lse_tick_entry k he p rq s1 \<and>
    call_hook k r (Call_dup_task_struct ok tsk) s1 =
      Inr (if le_cache_ok le then s1\<lparr>sys_lts := alloc_lse_task_struct ok tsk (sys_lts s1)\<rparr> else s1) \<and>
    call_hook k r (Call_free_task tsk) s1 =
      Inr (if le_cache_ok le then s1\<lparr>sys_lts := free_lse_task_struct tsk (sys_lts s1)\<rparr> else s1) \<and>
    run_events k r [Ev_Suspend t, Ev_Resume] s1 = Inr (s1\<lparr>sys_clock := lse_resume (lse_suspend (sys_clock s1) t)\<rparr>)"
proof -
  note reg = module_init_registry [OF assms]
  have one: "efold f [cb] s1 = f cb s1" for f :: "callback \<Rightarrow> lse \<Rightarrow> fault + lse" and cb
    by (cases "f cb s1") simp_all
  show ?thesis
    by (simp add: call_hook_def reg(2,3) one run_events_def lse_scheduler_tick_cb_def del: efold.simps)
      (simp add: reg(2))
qed

text \<open>C21: Loading the module reports success whatever the registrations answered.  When the policy
  notifier is refused the transition notifier is not even tried, and no sequence of events ever
  changes a cluster: its frequencies and limits stay what the construction left; when the governor is
  refused there is none, and the module does not say so.\<close>

theorem init_hides_errors:
  assumes "module_init k le re s = Inr (ret, r, s0)"
  shows "ret = 0 \<and> reg_governor r = (re_governor_ret re = 0) \<and>
    (re_policy_ret re \<noteq> 0 \<longrightarrow> \<not> reg_policy_nb r \<and> \<not> reg_trans_nb r \<and>
       (\<forall>evs s1. run_events k r evs s0 = Inr s1 \<longrightarrow> cl_heap (sys_clusters s1) = cl_heap (sys_clusters s0)))"
proof -
  note reg = module_init_registry [OF assms]
  have "same_heap s0 s1" if "re_policy_ret re \<noteq> 0" "run_events k r evs s0 = Inr s1" for evs s1
    using that reg(4,5) unfolding run_events_def by (intro efold_heap [OF deliver_heap]) auto
  then show ?thesis using reg(1,4,5,6) by (auto simp: same_heap_def)
qed

text \<open>C22: Every attribute of the governor reads back as it was stored, for a load below 2^31, with the
  exceptions the code makes: a negative maximum shows as \<open>max\<close> and the current frequency as \<open>none\<close>,
  which no store accepts, a negative minimum, which switches the limit off, shows as the limit 0,
  and the switch shows as 0 or 1.\<close>

theorem gov_attr_roundtrip:
  assumes "(name, mode, a) \<in> set lse_gov_attrs" "parses kuint kint a buf v" "tunables_obj g t \<noteq> None"
    and "gov_attr_store k kuint kint a t buf g = Inr (r, g')"
  shows "r = int (length buf) \<and>
    (\<exists>tn. tunables_obj g' t = Some tn \<and> read_int (butlast (gov_attr_show a tn)) = read_back a v)"
proof -
  note shown = show_line_def read_dec_int read_words
  have soft: "r = int (length buf) \<and> (\<exists>tn. tunables_obj g' t = Some tn \<and> read_int (butlast (sh tn)) = w)"
    if run: "soft_limit_store k same upd t (Some v) (int (length buf)) g = Inr (r, g')"
      and upd: "\<And>tn. same (upd v tn) v" "\<And>tn. same tn v \<Longrightarrow> upd v tn = tn"
      and sh: "\<And>tn. read_int (butlast (sh (upd v tn))) = w" for same upd sh w
  proof -
    have "r = int (length buf)" using run by (auto simp: soft_limit_store_def ebind_eq_Inr split: option.splits if_splits)
    moreover obtain tn where "tunables_obj g' t = Some (upd v tn)"
      using soft_limit_store_value [where same = same and upd = upd, OF run upd] by blast
    ultimately show ?thesis using sh by blast
  qed
  show ?thesis
  proof (cases a)
    case Attr_target_loads
    then show ?thesis using assms sint_small [of v]
      by (auto simp: parses_def target_loads_store_def upd_tunables_def target_loads_show_def shown)
  next
    case Attr_soft_freq_max
    show ?thesis unfolding Attr_soft_freq_max gov_attr_show.simps
      by (rule soft [where upd = "\<lambda>v tn. tn\<lparr>soft_freq_max := v\<rparr>" and same = "\<lambda>tn v. soft_freq_max tn = v"])
        (use assms Attr_soft_freq_max in \<open>auto simp: parses_def soft_freq_max_store_def soft_freq_max_show_def shown\<close>)
  next
    case Attr_soft_freq_min
    show ?thesis unfolding Attr_soft_freq_min gov_attr_show.simps
      by (rule soft [where upd = "\<lambda>v tn. tn\<lparr>soft_freq_min := v\<rparr>" and same = "\<lambda>tn v. soft_freq_min tn = v"])
        (use assms Attr_soft_freq_min in \<open>auto simp: parses_def soft_freq_min_store_def soft_freq_min_show_def shown\<close>)
  next
    case Attr_soft_freq_cur
    show ?thesis unfolding Attr_soft_freq_cur gov_attr_show.simps
      by (rule soft [where upd = "\<lambda>v tn. tn\<lparr>soft_freq_max := v, soft_freq_min := v\<rparr>"
            and same = "\<lambda>tn v. soft_freq_max tn = v \<and> soft_freq_min tn = v"])
        (use assms Attr_soft_freq_cur in \<open>auto simp: parses_def soft_freq_cur_store_def soft_freq_cur_show_def shown\<close>)
  next
    case Attr_apply_freq_immediately
    obtain y where "tunables_obj g t = Some y" using assms(3) by blast
    then have "r = int (length buf)" "tunables_obj g' t = Some (y\<lparr>apply_freq_immediately := (v > 0)\<rparr>)"
      using assms(2,4) by (auto simp: Attr_apply_freq_immediately parses_def apply_freq_immediately_store_def upd_tunables_def)
    moreover have "read_int (butlast (apply_freq_immediately_show (y\<lparr>apply_freq_immediately := b\<rparr>))) = Some (if b then 1 else 0)" for b
      by (simp add: apply_freq_immediately_show_def shown)
    ultimately show ?thesis by (simp add: Attr_apply_freq_immediately)
  qed
qed

definition demo_reg :: reg_env where
  "demo_reg = \<lparr>re_policy_ret = - 16, re_trans_ret = 0, re_governor_ret = - 17\<rparr>"

lemma demo_init:
  "\<exists>r s. module_init demo_kernel demo_load re (boot_lse 0 demo_boot_gov) = Inr (0, r, s)"
proof -
  obtain s where "lunar_sched_ext_init demo_kernel demo_load (boot_lse 0 demo_boot_gov) = Inr s"
    using demo_loaded by (auto simp: module_loaded_def)
  then show ?thesis by (simp add: module_init_def case_prod_unfold Let_def)
qed

theorem hooks_reach_handlers_witness:
  "\<exists>r s. module_init demo_kernel demo_load demo_reg (boot_lse 0 demo_boot_gov) = Inr (0, r, s) \<and>
     call_hook demo_kernel r (Call_schedule demo_he (demo_task 3) (demo_task 100) demo_locked) s =
       lse_schedule demo_kernel demo_he (demo_task 3) (demo_task 100) demo_locked s"
proof -
  obtain r s where i: "module_init demo_kernel demo_load demo_reg (boot_lse 0 demo_boot_gov) = Inr (0, r, s)"
    using demo_init by blast
  from hooks_reach_handlers [OF i] i show ?thesis by blast
qed

theorem init_hides_errors_witness:
  "\<exists>r s. module_init demo_kernel demo_load demo_reg (boot_lse 0 demo_boot_gov) = Inr (0, r, s) \<and>
     \<not> reg_governor r \<and> \<not> reg_policy_nb r \<and> \<not> reg_trans_nb r"
proof -
  obtain r s where i: "module_init demo_kernel demo_load demo_reg (boot_lse 0 demo_boot_gov) = Inr (0, r, s)"
    using demo_init by blast
  from init_hides_errors [OF i] i show ?thesis by (auto simp: demo_reg_def)
qed

text \<open>The switch, stored as -1.\<close>

theorem gov_attr_roundtrip_witness:
  "\<exists>r g' tn. gov_attr_store demo_kernel (\<lambda>_. None) (\<lambda>_. Some (- 1)) Attr_apply_freq_immediately 0 ''-1'' demo_gov = Inr (r, g') \<and>
     tunables_obj g' 0 = Some tn \<and> read_int (butlast (gov_attr_show Attr_apply_freq_immediately tn)) = Some 0"
proof -
  have a: "(''apply_freq_immediately'', 436, Attr_apply_freq_immediately) \<in> set lse_gov_attrs" by (simp add: lse_gov_attrs_def)
  have p: "parses (\<lambda>_. None) (\<lambda>_. Some (- 1)) Attr_apply_freq_immediately ''-1'' (- 1)" by (simp add: parses_def)
  have t: "tunables_obj demo_gov 0 \<noteq> None" by (simp add: demo_gov_def)
  obtain r g' where run: "gov_attr_store demo_kernel (\<lambda>_. None) (\<lambda>_. Some (- 1)) Attr_apply_freq_immediately 0 ''-1'' demo_gov = Inr (r, g')"
    by (simp add: apply_freq_immediately_store_def)
  from gov_attr_roundtrip [OF a p t run] run show ?thesis by auto
qed

end
