(* ===== verification/Lse_Hotplug.thy ===== *)
theory Lse_Hotplug
  imports Lse_Gov_Life Lse_Report
begin

text \<open>
  The pointers that the governor (\<open>src/cpufreq_lse.c\<close>) keeps for every CPU, and the file \<open>tasks\<close>
  (\<open>src/lse_monitor.c\<close>) that follows them.  \<open>lse_gov_start\<close> sets the pointer of the CPUs a policy has
  then, \<open>lse_gov_exit\<close> clears that of the CPUs the policy has when it ends.  As long as a policy keeps
  its CPUs no pointer outlives its structure; the cpufreq core, however, takes a CPU that goes offline
  out of \<open>policy->cpus\<close> between \<open>stop\<close> and \<open>start\<close>, and then the pointer of that CPU dangles after the
  exit.
\<close>

section \<open>While the policies keep their CPUs\<close>

definition pointers_live :: "gov \<Rightarrow> bool" where
  "pointers_live g \<longleftrightarrow> (\<forall>cpu pol n. lse_gov_cpu g cpu = Some (pol, n) \<longrightarrow>
     governor_data g pol \<noteq> None \<and> n = lg_freed g pol \<and> cpu \<in> set (pol_cpus (policy_obj g pol)))"

lemma pointers_liveD:
  assumes "pointers_live g" "lse_gov_cpu g cpu = Some (pol, n)"
  shows "governor_data g pol \<noteq> None" "n = lg_freed g pol" "cpu \<in> set (pol_cpus (policy_obj g pol))"
  using assms unfolding pointers_live_def by blast+

lemma same_life_dom: "same_life g g' \<Longrightarrow> governor_data g' pol = None \<longleftrightarrow> governor_data g pol = None"
  unfolding same_life_def by (metis option.map_disc_iff)

lemma same_life_live:
  assumes life: "same_life g g'" and live: "pointers_live g" shows "pointers_live g'"
  unfolding pointers_live_def
proof (intro allI impI)
  fix cpu pol n assume ptr: "lse_gov_cpu g' cpu = Some (pol, n)"
  have dom: "governor_data g' pol \<noteq> None \<longleftrightarrow> governor_data g pol \<noteq> None"
    using same_life_dom [OF life, of pol] by simp
  have "governor_data g pol \<noteq> None \<and> n = lg_freed g pol \<and> cpu \<in> set (pol_cpus (policy_obj g pol))"
  proof (cases "lse_gov_cpu g' cpu = lse_gov_cpu g cpu")
    case True
    then show ?thesis using pointers_liveD [OF live, of cpu pol n] ptr by simp
  next
    case False
    then show ?thesis using life ptr unfolding same_life_def by (metis option.inject prod.inject)
  qed
  then show "governor_data g' pol \<noteq> None \<and> n = lg_freed g' pol \<and> cpu \<in> set (pol_cpus (policy_obj g' pol))"
    using life dom by (simp add: same_life_def)
qed

text \<open>\<open>lse_gov_init\<close> leaves the pointers, the CPUs of the policies and the other policies alone.\<close>

lemma init_frame:
  "lse_gov_cpu (snd (lse_gov_init env pol g)) = lse_gov_cpu g" "lg_freed (snd (lse_gov_init env pol g)) = lg_freed g"
  "pol_cpus (policy_obj (snd (lse_gov_init env pol g)) q) = pol_cpus (policy_obj g q)"
  "governor_data g q \<noteq> None \<Longrightarrow> governor_data (snd (lse_gov_init env pol g)) q \<noteq> None"
  by (auto simp: lse_gov_init_def Let_def set_fast_switch_def set_dvfs_any_cpu_def lse_gov_tunables_free_def
      upd_tunables_def set_governor_data_def split: option.split prod.split)

lemma init_live: "pointers_live g \<Longrightarrow> pointers_live (snd (lse_gov_init env pol g))"
  unfolding pointers_live_def init_frame(1-3) using init_frame(4) by blast

lemma cpu_reset_cpu:
  "lse_gov_cpu (lse_gov_cpu_reset cpus g) cpu = (if cpu \<in> set cpus then None else lse_gov_cpu g cpu)"
  "lg_freed (lse_gov_cpu_reset cpus g) = lg_freed g"
  unfolding lse_gov_cpu_reset_def by (induction cpus arbitrary: g) auto

lemma tunables_save_frame:
  "lse_gov_cpu (lse_gov_tunables_save env p g) = lse_gov_cpu g" "lg_freed (lse_gov_tunables_save env p g) = lg_freed g"
  "policy_obj (lse_gov_tunables_save env p g) = policy_obj g"
proof -
  let ?F = "\<lambda>cpus. fold (\<lambda>cpu g. g\<lparr>cached_tunables := (cached_tunables g)(cpu \<mapsto> zeroed_tunables)\<rparr>) cpus"
  have f: "lse_gov_cpu (?F cpus h) = lse_gov_cpu h \<and> lg_freed (?F cpus h) = lg_freed h \<and> policy_obj (?F cpus h) = policy_obj h"
    for cpus h by (induction cpus arbitrary: h) simp_all
  show "lse_gov_cpu (lse_gov_tunables_save env p g) = lse_gov_cpu g"
    "lg_freed (lse_gov_tunables_save env p g) = lg_freed g"
    "policy_obj (lse_gov_tunables_save env p g) = policy_obj g"
    by (simp_all add: lse_gov_tunables_save_def f)
qed

lemma exit_frame:
  assumes "lse_gov_exit env pol g = Inr g'"
  shows "lse_gov_cpu g' cpu = (if cpu \<in> set (pol_cpus (policy_obj g pol)) then None else lse_gov_cpu g cpu)"
    "lg_freed g' = (lg_freed g)(pol := lg_freed g pol + 1)" "governor_data g' = (governor_data g)(pol := None)"
    "pol_cpus (policy_obj g' q) = pol_cpus (policy_obj g q)"
  using assms
  by (auto simp: lse_gov_exit_def Let_def set_fast_switch_def count_freed_def cpu_reset_cpu cpu_reset_fields
      tunables_save_frame lse_gov_tunables_free_def upd_tunables_def split: option.splits if_splits)

lemma exit_live:
  assumes run: "lse_gov_exit env pol g = Inr g'" and live: "pointers_live g" shows "pointers_live g'"
  unfolding pointers_live_def
proof (intro allI impI)
  fix cpu q n assume ptr: "lse_gov_cpu g' cpu = Some (q, n)"
  then have old: "lse_gov_cpu g cpu = Some (q, n)" "cpu \<notin> set (pol_cpus (policy_obj g pol))"
    using exit_frame(1) [OF run, of cpu] by (auto split: if_splits)
  then have "q \<noteq> pol" using pointers_liveD(3) [OF live old(1)] by auto
  then show "governor_data g' q \<noteq> None \<and> n = lg_freed g' q \<and> cpu \<in> set (pol_cpus (policy_obj g' q))"
    using pointers_liveD [OF live old(1)] exit_frame [OF run] by simp
qed

lemma gov_step_kinds:
  assumes "gov_step k b g g'"
  obtains env pol where "g' = snd (lse_gov_init env pol g)" | env pol where "lse_gov_exit env pol g = Inr g'"
    | "gov_run k g g'"
  using assms by (cases rule: gov_step.cases) (blast intro: gov_run.intros)+

lemma gov_step_live: "gov_step k b g g' \<Longrightarrow> pointers_live g \<Longrightarrow> pointers_live g'"
  by (erule gov_step_kinds) (auto intro: init_live exit_live same_life_live [OF gov_run_threads])

interpretation pointer_sys: invariant_system gov_boot "gov_step k b" pointers_live for k b
  by unfold_locales (simp add: gov_boot_def pointers_live_def, rule gov_step_live)

text \<open>A pointer of a CPU is followed by the five readings.\<close>

definition readings :: "kernel \<Rightarrow> u32 \<Rightarrow> gov \<Rightarrow> nat \<Rightarrow> (fault + u32) list" where
  "readings k W g cpu =
     [lse_gov_cluster_window_ns k W g (int cpu), lse_gov_cluster_target_load_dyn k g (int cpu),
      lse_gov_cluster_agg_util k g (int cpu), lse_gov_cluster_freq_cap_applied k g (int cpu),
      lse_gov_cluster_power_pressure k g (int cpu)]"

lemmas reading_defs = readings_def lse_gov_cluster_window_ns_def lse_gov_cluster_target_load_dyn_def
  lse_gov_cluster_agg_util_def lse_gov_cluster_freq_cap_applied_def lse_gov_cluster_power_pressure_def

lemma live_deref:
  assumes "pointers_live g" "lse_gov_policy_from_cpu k g cpu = Some ptr" shows "\<exists>lg. lg_deref g ptr = Inr lg"
proof (cases ptr)
  case (Pair pol n)
  have "lse_gov_cpu g (nat cpu) = Some (pol, n)"
    using assms(2) Pair by (auto simp: lse_gov_policy_from_cpu_def split: if_splits)
  from pointers_liveD(1,2) [OF assms(1) this] show ?thesis by (auto simp: lg_deref_def Pair)
qed

lemma readings_return:
  assumes "pointers_live g" "r \<in> set (readings k W g cpu)" shows "\<exists>w. r = Inr w"
proof (cases "lse_gov_policy_from_cpu k g (int cpu)")
  case (Some ptr)
  obtain lg where "lg_deref g ptr = Inr lg" using live_deref [OF assms(1) Some] by blast
  then show ?thesis using assms(2) by (auto simp: reading_defs Some)
qed (use assms(2) in \<open>auto simp: reading_defs\<close>)

lemma readings_dangling:
  "lse_gov_cpu g cpu = Some ptr \<Longrightarrow> lg_deref g ptr = Inl Use_After_Free \<Longrightarrow> cpu < nr_cpu_ids k \<Longrightarrow>
   set (readings k W g cpu) = {Inl Use_After_Free}"
  by (simp add: reading_defs lse_gov_policy_from_cpu_def)

lemma row_returns:
  assumes "pointers_live (sys_gov s)" shows "\<exists>line. task_row k s curr_of cpu = Inr line"
proof -
  let ?W = "lse_sched_ravg_window (sys_walt s)" and ?g = "sys_gov s"
  have "\<forall>r \<in> set (readings k ?W ?g cpu). \<exists>w. r = Inr w" using readings_return [OF assms] by blast
  then obtain a b c d e where "lse_gov_cluster_window_ns k ?W ?g (int cpu) = Inr a"
    "lse_gov_cluster_target_load_dyn k ?g (int cpu) = Inr b" "lse_gov_cluster_agg_util k ?g (int cpu) = Inr c"
    "lse_gov_cluster_freq_cap_applied k ?g (int cpu) = Inr d" "lse_gov_cluster_power_pressure k ?g (int cpu) = Inr e"
    unfolding readings_def by auto
  then show ?thesis by (simp add: task_row_def case_prod_unfold split: option.split)
qed

lemma tasks_read_returns:
  assumes "\<And>cpu. \<exists>line. row cpu = Inr line" shows "\<exists>out. tasks_loop row cpus tmp = Inr out"
proof (induction cpus arbitrary: tmp)
  case (Cons cpu cpus)
  obtain line where "row cpu = Inr line" using assms by blast
  then show ?case using Cons by (auto simp: Let_def split: option.split)
qed simp

section \<open>When a CPU goes offline\<close>

lemma start_sets:
  assumes "lse_gov_start k W pol g = Inr g'"
  shows "lse_gov_cpu g' cpu = (if cpu \<in> set (pol_cpus (policy_obj g pol)) then Some (pol, lg_freed g pol) else lse_gov_cpu g cpu)"
proof -
  let ?F = "\<lambda>cpus. fold (\<lambda>cpu g. g\<lparr>lse_gov_cpu := (lse_gov_cpu g)(cpu := Some (pol, lg_freed g pol)),
      update_hook := (update_hook g)(cpu := True)\<rparr>) cpus"
  have f: "lse_gov_cpu (?F cpus h) cpu = (if cpu \<in> set cpus then Some (pol, lg_freed h pol) else lse_gov_cpu h cpu)" for cpus h
    by (induction cpus arbitrary: h) auto
  show ?thesis using assms
    by (auto simp: lse_gov_start_def Let_def set_governor_data_def f split: option.splits if_splits)
qed

lemma stop_frame: "lse_gov_cpu (gov_stopped k pol g) = lse_gov_cpu g" "lg_freed (gov_stopped k pol g) = lg_freed g"
proof -
  let ?F = "\<lambda>cpus. fold (\<lambda>cpu g. g\<lparr>update_hook := (update_hook g)(cpu := False)\<rparr>) cpus"
  have f: "lse_gov_cpu (?F cpus h) = lse_gov_cpu h \<and> lg_freed (?F cpus h) = lg_freed h" for cpus h
    by (induction cpus arbitrary: h) simp_all
  show "lse_gov_cpu (gov_stopped k pol g) = lse_gov_cpu g" "lg_freed (gov_stopped k pol g) = lg_freed g"
    by (simp_all add: gov_stopped_def Let_def f)
qed

lemma stop_hooks: "cpu \<in> set (pol_cpus (policy_obj (gov_stopped k pol g) pol)) \<Longrightarrow> \<not> update_hook (gov_stopped k pol g) cpu"
proof -
  let ?F = "\<lambda>cpus. fold (\<lambda>cpu g. g\<lparr>update_hook := (update_hook g)(cpu := False)\<rparr>) cpus"
  have f: "policy_obj (?F cpus h) = policy_obj h \<and> update_hook (?F cpus h) cpu = (cpu \<notin> set cpus \<and> update_hook h cpu)" for cpus h
    by (induction cpus arbitrary: h) auto
  show "cpu \<in> set (pol_cpus (policy_obj (gov_stopped k pol g) pol)) \<Longrightarrow> \<not> update_hook (gov_stopped k pol g) cpu"
    by (simp add: gov_stopped_def Let_def f split: if_splits)
qed

text \<open>What the cpufreq core does besides calling the governor: it changes the CPUs of a policy, while the
  governor is stopped there.\<close>

definition set_policy_cpus :: "nat \<Rightarrow> nat list \<Rightarrow> gov \<Rightarrow> gov" where
  "set_policy_cpus pol cpus g =
     g\<lparr>policy_obj := (policy_obj g)(pol := (policy_obj g pol)\<lparr>pol_cpus := cpus\<rparr>)\<rparr>"

inductive hot_step :: "kernel \<Rightarrow> bool \<Rightarrow> gov \<Rightarrow> gov \<Rightarrow> bool" for k b where
  governor: "gov_step k b g g' \<Longrightarrow> hot_step k b g g'"
| cpus: "\<forall>cpu \<in> set (pol_cpus (policy_obj g pol)). \<not> update_hook g cpu \<Longrightarrow>
    hot_step k b g (set_policy_cpus pol cpus g)"

text \<open>A structure that has been freed stays so.\<close>

lemma gov_step_freed: "gov_step k b g g' \<Longrightarrow> lg_freed g pol \<le> lg_freed g' pol"
  by (erule gov_step_kinds) (auto simp: init_frame exit_frame(2) same_life_def dest!: gov_run_threads)

lemma hot_step_freed: "hot_step k b g g' \<Longrightarrow> lg_freed g pol \<le> lg_freed g' pol"
  by (induction rule: hot_step.induct) (simp_all add: gov_step_freed set_policy_cpus_def)

lemma hot_steps_freed: "(hot_step k b)\<^sup>*\<^sup>* g g' \<Longrightarrow> lg_freed g pol \<le> lg_freed g' pol"
  by (induction rule: rtranclp_induct) (auto intro: order_trans hot_step_freed)

section \<open>Properties\<close>

text \<open>C8: While every policy keeps its CPUs, no pointer of a CPU outlives the structure it points to: over
  every sequence of governor calls it points to the present structure of a policy that has the CPU, so
  each of the five readings returns, for any CPU, and so does reading the file \<open>tasks\<close>, whatever the
  CPUs run.\<close>

theorem cpu_pointers_live:
  assumes "gov_boot g0" "(gov_step k b)\<^sup>*\<^sup>* g0 g"
  shows "(\<forall>cpu pol n. lse_gov_cpu g cpu = Some (pol, n) \<longrightarrow>
      governor_data g pol \<noteq> None \<and> n = lg_freed g pol \<and> cpu \<in> set (pol_cpus (policy_obj g pol))) \<and>
    (\<forall>cpu. (\<exists>w. lse_gov_cluster_window_ns k W g (int cpu) = Inr w) \<and>
      (\<exists>w. lse_gov_cluster_target_load_dyn k g (int cpu) = Inr w) \<and>
      (\<exists>w. lse_gov_cluster_agg_util k g (int cpu) = Inr w) \<and>
      (\<exists>w. lse_gov_cluster_freq_cap_applied k g (int cpu) = Inr w) \<and>
      (\<exists>w. lse_gov_cluster_power_pressure k g (int cpu) = Inr w)) \<and>
    (\<forall>s curr_of. sys_gov s = g \<longrightarrow> (\<exists>out. lse_proc_tasks_read k curr_of s = Inr out))"
proof -
  have live: "pointers_live g" by (rule pointer_sys.inv_reachable [OF assms])
  have "\<exists>out. lse_proc_tasks_read k curr_of s = Inr out" if "sys_gov s = g" for s curr_of
    unfolding lse_proc_tasks_read_def by (rule tasks_read_returns [OF row_returns]) (simp add: that live)
  moreover have "\<forall>cpu. \<forall>r \<in> set (readings k W g cpu). \<exists>w. r = Inr w" using readings_return [OF live] by blast
  ultimately show ?thesis using live by (simp add: pointers_live_def readings_def)
qed

text \<open>Policy 4 of the CPUs 0 and 1 is initialised and started.\<close>

lemma demo_policy_started:
  obtains g1 g2 where "g1 = snd (lse_gov_init demo_env 4 demo_boot_gov)" "lse_gov_start demo_kernel 16000000 4 g1 = Inr g2"
    "(gov_step demo_kernel False)\<^sup>*\<^sup>* demo_boot_gov g2" "pol_cpus (policy_obj g1 4) = [0, 1]" "attached False g2"
    "governor_data g2 4 \<noteq> None"
proof -
  let ?g1 = "snd (lse_gov_init demo_env 4 demo_boot_gov)"
  have init: "gov_step demo_kernel False demo_boot_gov ?g1" by (rule gov_step.init) (simp add: demo_env_def)
  have att: "attached False ?g1" using gov_sys.inv_step [OF gov_sys.inv_init init] demo_boot by blast
  have "governor_data ?g1 4 \<noteq> None"
    by (simp add: lse_gov_init_def demo_boot_gov_def demo_env_def Let_def lse_gov_kthread_create_def
        set_fast_switch_def set_dvfs_any_cpu_def set_governor_data_def upd_tunables_def demo_gov_def)
  then obtain lg where lg: "governor_data ?g1 4 = Some lg" by blast
  obtain g2 where start: "lse_gov_start demo_kernel 16000000 4 ?g1 = Inr g2" "attached False g2"
    using start_attached [OF att lg] by blast
  have "governor_data g2 4 \<noteq> None" using same_life_dom [OF start_threads [OF start(1)], of 4] lg by simp
  moreover have "pol_cpus (policy_obj ?g1 4) = [0, 1]"
    by (simp add: init_frame(3) demo_boot_gov_def demo_gov_policy_def)
  moreover have "(gov_step demo_kernel False)\<^sup>*\<^sup>* demo_boot_gov g2"
    using init gov_step.start [OF start(1)] by (meson converse_rtranclp_into_rtranclp rtranclp.rtrancl_refl)
  ultimately show thesis using start that by blast
qed

theorem cpu_pointers_live_witness:
  "\<exists>g w. (gov_step demo_kernel False)\<^sup>*\<^sup>* demo_boot_gov g \<and> lse_gov_cpu g 1 = Some (4, 0) \<and>
     lse_gov_cluster_agg_util demo_kernel g 1 = Inr w"
proof -
  obtain g1 g2 where g: "g1 = snd (lse_gov_init demo_env 4 demo_boot_gov)"
    "lse_gov_start demo_kernel 16000000 4 g1 = Inr g2" "(gov_step demo_kernel False)\<^sup>*\<^sup>* demo_boot_gov g2"
    "pol_cpus (policy_obj g1 4) = [0, 1]" by (rule demo_policy_started)
  have "lg_freed g1 4 = 0" by (simp add: g(1) init_frame(2) demo_boot_gov_def demo_gov_def)
  then have ptr: "lse_gov_cpu g2 1 = Some (4, 0)" by (simp add: start_sets [OF g(2)] g(4))
  have "\<forall>cpu. \<exists>w. lse_gov_cluster_agg_util demo_kernel g2 (int cpu) = Inr w"
    using cpu_pointers_live [OF demo_boot g(3)] by blast
  then have "\<exists>w. lse_gov_cluster_agg_util demo_kernel g2 (int 1) = Inr w" by blast
  then show ?thesis using ptr g(3) by auto
qed

text \<open>C9: A CPU that a policy loses while it runs the governor keeps its pointer: from the exit of the
  policy on, through any calls and any changes of CPUs that do not set this pointer again, every
  reading of the CPU and its row in the file \<open>tasks\<close> follow a pointer to freed memory.\<close>

theorem hotplug_dangles:
  assumes "lse_gov_start k W pol g = Inr g1" "cpu \<in> set (pol_cpus (policy_obj g pol))" "cpu < nr_cpu_ids k"
    and "lse_gov_stop k pol g1 = Inr gs" "cpu \<notin> set cpus" "lse_gov_exit env pol (set_policy_cpus pol cpus gs) = Inr g2"
    and "(hot_step k b)\<^sup>*\<^sup>* g2 g3" "lse_gov_cpu g3 cpu = lse_gov_cpu g2 cpu"
  shows "lse_gov_cpu g3 cpu = Some (pol, lg_freed g pol) \<and>
    lse_gov_cluster_window_ns k W' g3 (int cpu) = Inl Use_After_Free \<and>
    lse_gov_cluster_target_load_dyn k g3 (int cpu) = Inl Use_After_Free \<and>
    lse_gov_cluster_agg_util k g3 (int cpu) = Inl Use_After_Free \<and>
    lse_gov_cluster_freq_cap_applied k g3 (int cpu) = Inl Use_After_Free \<and>
    lse_gov_cluster_power_pressure k g3 (int cpu) = Inl Use_After_Free \<and>
    (\<forall>s curr_of. sys_gov s = g3 \<and> sys_lts s (fst (curr_of cpu)) \<noteq> None \<longrightarrow>
       task_row k s curr_of cpu = Inl Use_After_Free)"
proof -
  let ?h = "set_policy_cpus pol cpus gs"
  have gs: "gs = gov_stopped k pol g1" using assms(4) by (simp add: lse_gov_stop_eq)
  have start: "lse_gov_cpu g1 cpu = Some (pol, lg_freed g pol)" "lg_freed g1 = lg_freed g"
    using start_sets [OF assms(1)] assms(2) start_threads [OF assms(1)] by (simp_all add: same_life_def)
  have h: "lse_gov_cpu ?h cpu = lse_gov_cpu g1 cpu" "lg_freed ?h = lg_freed g1" "pol_cpus (policy_obj ?h pol) = cpus"
    by (simp_all add: gs set_policy_cpus_def stop_frame)
  have "lse_gov_cpu g2 cpu = Some (pol, lg_freed g pol)" "lg_freed g2 pol = lg_freed g pol + 1"
    using exit_frame(1,2) [OF assms(6)] assms(5) by (simp_all add: h start)
  then have ptr: "lse_gov_cpu g3 cpu = Some (pol, lg_freed g pol)" and freed: "lg_freed g pol < lg_freed g3 pol"
    using assms(8) hot_steps_freed [OF assms(7), of pol] by simp_all
  have "lg_deref g3 (pol, lg_freed g pol) = Inl Use_After_Free" using freed by (auto simp: lg_deref_def split: option.split)
  from readings_dangling [OF ptr this assms(3)] show ?thesis
    using ptr by (auto simp: readings_def task_row_def case_prod_unfold)
qed

text \<open>The CPU 1 of the policy 4 goes offline; then the governor of the policy is changed.\<close>

theorem hotplug_dangles_witness:
  "\<exists>g. (hot_step demo_kernel False)\<^sup>*\<^sup>* demo_boot_gov g \<and> governor_data g 4 = None \<and>
     lse_gov_cluster_agg_util demo_kernel g 1 = Inl Use_After_Free"
proof -
  obtain g1 g2 where g: "g1 = snd (lse_gov_init demo_env 4 demo_boot_gov)"
    "lse_gov_start demo_kernel 16000000 4 g1 = Inr g2" "(gov_step demo_kernel False)\<^sup>*\<^sup>* demo_boot_gov g2"
    "pol_cpus (policy_obj g1 4) = [0, 1]" "attached False g2" "governor_data g2 4 \<noteq> None" by (rule demo_policy_started)
  let ?s = "gov_stopped demo_kernel 4 g2"
  have stop: "lse_gov_stop demo_kernel 4 g2 = Inr ?s" using g(6) by (simp add: lse_gov_stop_eq)
  let ?h = "set_policy_cpus 4 [0] ?s"
  have "same_links ?s ?h" by (simp add: same_links_def set_policy_cpus_def tunables_ptr_def attr_list_def fun_eq_iff)
  then have att: "attached False ?h" using g(5) by (simp add: same_links_attached stop_attached)
  obtain lg where "governor_data ?h 4 = Some lg"
    using same_life_dom [OF stop_threads, of demo_kernel 4 g2 4] g(6) by (auto simp: set_policy_cpus_def)
  then obtain e where exit: "lse_gov_exit demo_env 4 ?h = Inr e" "governor_data e 4 = None"
    using exit_attached [OF att, of demo_env 4 lg] by (auto simp: demo_env_def)
  have "(hot_step demo_kernel False)\<^sup>*\<^sup>* demo_boot_gov g2"
    using g(3) by (rule rtranclp_mono [THEN predicate2D, rotated]) (auto intro: hot_step.governor)
  moreover have "hot_step demo_kernel False g2 ?s" by (intro hot_step.governor gov_step.stop [OF stop])
  moreover have "hot_step demo_kernel False ?s ?h"
    by (rule hot_step.cpus) (simp add: stop_hooks)
  moreover have "hot_step demo_kernel False ?h e"
    by (intro hot_step.governor gov_step.exit [OF _ exit(1)]) (simp add: demo_env_def)
  ultimately have run: "(hot_step demo_kernel False)\<^sup>*\<^sup>* demo_boot_gov e" by (meson rtranclp.rtrancl_into_rtrancl)
  have "lse_gov_cluster_agg_util demo_kernel e (int 1) = Inl Use_After_Free"
    using hotplug_dangles [OF g(2) _ _ stop _ exit(1) rtranclp.rtrancl_refl [where r = "hot_step demo_kernel False"] refl, of 1]
    by (simp add: g(4) demo_kernel_def)
  then show ?thesis using run exit(2) by auto
qed

end
