(* ===== verification/Spec2Isabelle.thy ===== *)
theory Spec2Isabelle
  imports Lse_Clock Lse_Monitor Lse_Walt Lse_Window Lse_Dsq Lse_Cluster Lse_Shadow Lse_Gov
    Lse_Task_Ext Lse_Hooks Lse_Text Lse_Report Lse_Sysctl Lse_Module
    Lse_Dsq_Spec Lse_Walt_Spec Lse_Trace Lse_Rollover Lse_List Lse_Topology Lse_Gov_Life
    Lse_Safe Lse_Register Lse_Hotplug
begin

text \<open>
  A model of the kernel module \<open>lunar_sched_ext\<close> (the files under \<open>src/\<close>) and of what makes it
  correct.  The module hangs on the scheduler's hooks: it measures how much every task and every CPU
  runs (window assisted load tracking), keeps tasks in dispatch queues with deadlines, groups the
  CPUs into clusters, chooses a frequency for every cluster, and can run a high-resolution "shadow"
  tick; a monitor watches that ticks still come, and sysctls, \<open>/proc\<close> files and sysfs attributes
  control and report all of it.

  Parts, theories and files.

  \<open>Lse_Prelude\<close>: faults as values (\<open>fault + 'a\<close> with \<open>ebind\<close>), C division and casts, 64-bit
  division, facts on words and lists, and the locale \<open>invariant_system\<close>: an initial condition, a step
  relation and an invariant give a fact about every reachable state.  Every component that keeps state
  interprets it on its own operations.  \<open>layered_invariant\<close> proves an invariant under one already known,
  \<open>simulation\<close> and \<open>simulated_invariant\<close> carry runs and invariants over from an abstraction, and
  \<open>refinement_map\<close> is the case where the abstraction is a function.

  \<open>Lse_Types\<close>: \<open>lse_main.h\<close> and what the code reads of the kernel's structures; \<open>kernel\<close> is the record
  of what the hardware and the rest of the kernel answer (CPU masks, capacities, the topology, the
  driver's frequency table, jiffies per millisecond).

  \<open>Lse_Clock\<close>: \<open>lse_main.c\<close>, the clock that is frozen over a suspend.  Its readings are monotone.

  \<open>Lse_Monitor\<close>: \<open>lse_monitor.c\<close>, the counters, the heartbeat timer and the watchdog work.  Timer and work
  are pending exactly while enabled, over every sequence of steps; what they report is characterised
  exactly, for any sequence of touches, resets and writes (\<open>monitor_event\<close>) between two expiries; the
  tick counter counts jiffies.

  \<open>Lse_Walt\<close> and \<open>Lse_Window\<close>: \<open>lse_util_track.c\<close>.  The first holds the classification of tasks, the
  ring of samples and \<open>update_task_demand\<close>, the second the windows of the CPUs, their busy time,
  \<open>lse_update_task_ravg\<close>, the election of the roll-over work and the initialisation.  All values keep
  their widths.  The lemmas give the ring's content, the demand policies and their order, the bounds of
  every sum, sample and utilisation, conservation of time, and totality: \<open>lse_update_task_ravg\<close> returns
  whenever the clock does not go back.  \<open>Lse_Walt_Spec\<close> states what the ring stands for, the list of the
  last five samples, that \<open>update_history\<close> implements it, and that an update of a task's demand accounts
  for the whole time it covers, in the samples and the running sum it leaves.

  \<open>Lse_Dsq\<close>: \<open>lse_dsq.c\<close>.  A queue is the list of its tasks with the count, the timeout mark and
  \<open>last_consume_at\<close>, which runs with a history (\<open>timed_step\<close>) show to be the time the queue last became
  non-empty; enqueue, dequeue, the timeout scan, the urgency signal, the schedule
  handler, the synchronisation and the initialisation act on the table of task structures and all
  queues.  A task is in a queue exactly when its flag says so, and in one place only; under stable
  classes the counts are exact; deadlines, urgency and the effect of a switch are characterised.
  \<open>Lse_Dsq_Spec\<close> is the abstract specification, one list of the waiting tasks in the order of their
  arrival, and the proof that the queues implement it.

  \<open>Lse_Cluster\<close>: \<open>lse_sched_cluster.c\<close>.  The construction of the cluster table from the topology, the
  alignment and the numbering of clusters, and the two cpufreq notifiers, over a store of clusters.  The
  table is the partition of the possible CPUs by topology id, ordered by capacity before the alignment.
  \<open>Lse_Topology\<close> adds when the construction ends or crashes and that from then on, over all cpufreq
  notifications, every CPU points to a live cluster, and every cluster of the list is live and has the
  id 0 or one that the topology gives to a possible CPU.  \<open>Lse_List\<close> keeps the list of clusters as the code
  does, by pointers in both directions, and shows that the loops over it, the search of
  \<open>insert_cluster\<close> and \<open>move_list\<close> implement the operations on HOL lists.

  \<open>Lse_Shadow\<close>: \<open>lse_shadow_tick.c\<close>.  Timer and armed flag of every CPU agree, as long as no CPU starts
  another CPU's timer; what happens otherwise is shown as well.

  \<open>Lse_Gov\<close>: \<open>cpufreq_lse.c\<close>.  Policies, tunables and the per-CPU data are objects in stores; a request
  to the driver is an entry of the list \<open>requests\<close>.  The lemmas show which requests an update makes, when
  the legacy formula divides by zero, where the roll-over of all clusters can go wrong (\<open>rollover_fault\<close>),
  the interval of the clamps, the rate limit and the caching of the tick path, and that through init,
  start, stop and exit no policy dangles and no tunables leak.  \<open>Lse_Gov_Life\<close> translates \<open>lse_gov_init\<close>
  and \<open>lse_gov_exit\<close> label by label, with a ledger of the structures and threads that are live: the
  detailed code implements that of \<open>Lse_Gov\<close>, nothing is freed twice, and every error path releases
  what was acquired.  \<open>Lse_Hotplug\<close> follows the pointers to a policy's structure that the CPUs keep:
  none dangles while the policies keep their CPUs, but a CPU that goes offline before the governor of
  its policy ends keeps a pointer to freed memory, which the file \<open>tasks\<close> then reads.

  \<open>Lse_Task_Ext\<close>: \<open>lse_task_struct_ext.c\<close>, the table of task structures from fork to exit.

  \<open>Lse_Hooks\<close>: \<open>lse_cfs.c\<close> with \<open>lse_irq_work\<close> of \<open>lse_util_track.c\<close>, the shadow tick's expiry and
  \<open>lunar_sched_ext_init\<close>, over the record \<open>lse\<close> of the whole module's state.  The invariant \<open>sys_ok\<close>
  says what the parts keep of each other; every hook, work and expiry returns and preserves it, and the
  state after loading the module satisfies it.

  \<open>Lse_Text\<close> and \<open>Lse_Report\<close>: decimal text and bounded buffers, the three \<open>/proc\<close> files, the shows of
  the sysfs attributes and the dump of the queues; reading the status file back gives the values shown.

  \<open>Lse_Sysctl\<close>: \<open>lse_sysctl.c\<close>, the table and its handlers over the state of the module: what a write
  changes, which ranges are kept, and which write crashes.

  \<open>Lse_Module\<close>: the module as it runs.  \<open>sys_step\<close> is any hook, work, expiry, sysctl, governor call or
  task event, in any order, also one that asks for a longer window; the invariant carries over to every
  reachable state, and with it that the hooks return and that the accounting stays in its bounds.

  \<open>Lse_Rollover\<close>: over runs of the module, the election of the CPU that queues the roll-over work: a
  CPU at the last elected window always exists and its next roll over queues the work, while a CPU
  that is ahead is never elected.

  \<open>Lse_Safe\<close>: the module without the restrictions of \<open>Lse_Module\<close>.  \<open>any_step\<close> contains the hooks at
  any reading of the clock, the switch that stops the accounting, windows that shrink, the shadow ticks
  of other CPUs and the calls of cpufreq; the steps of \<open>Lse_Module\<close> are among them.  Bounds are lost, but
  rings, queues, policies and clusters keep their shape, so no hook leaves an array or follows a NULL
  pointer, and the roll-over work only where a cluster id is outside 0 to 3, or a cluster whose flag is
  set has no CPU online or a policy without the governor.  That the works of \<open>Lse_Module\<close> return otherwise
  is shown here too, since it needs where the ids come from.

  \<open>Lse_Trace\<close>: \<open>trace_lse.h\<close> and the systrace counters of \<open>lse_util_track.c\<close>: the entries, where they are
  written, and their lines; a line read back gives the entry.

  \<open>Lse_Register\<close>: what loading registers with the kernel - hooks, notifiers, governor and attributes,
  files, suspend callbacks - and which handler a call of the kernel reaches, also when a registration
  was refused.

  Conventions.  C's \<open>u64\<close>, \<open>u32\<close>, \<open>u16\<close>, \<open>u8\<close> are words of that length, \<open>int\<close> is \<open>int\<close> with the
  wrap-around written out where the code counts, pointers are names (natural numbers) in a store, and a
  pointer that may be NULL is an option.  \<open>BUG_ON\<close>, a NULL dereference, a division by zero and an index
  out of bounds are values of \<open>fault\<close>.  Readings of clocks and of \<open>jiffies\<close> are arguments.  Locks are
  not modelled: each operation is one step, as the run-queue lock and the per-queue locks make it.
  Loops are folds or recursion over the list they walk; where a loop shrinks a mask instead
  (\<open>topology_loop\<close>, \<open>create_policy_loop\<close>, \<open>trans_loop\<close>) it is a function with a termination proof.  Only
  the loops over pointers in \<open>Lse_List\<close> take fuel: the length of the list is enough, and four for the
  list of clusters, since the code admits no more.

  Bounds.  The time from the start of a CPU's window to a reading of the clock is taken to be below
  \<open>2^54\<close> nanoseconds and \<open>2^31\<close> windows (\<open>reading_ok\<close>): beyond it the 64-bit product of time and
  capacity wraps.  Capacities are at most 1024 (\<open>kernel_ok\<close>), as the kernel defines them.

  Not modelled.  The messages of \<open>printk\<close> and \<open>trace_printk\<close> beyond the lines named above; the kernel's
  side of \<open>/proc\<close> entries, kobjects, threads and works beyond whether they succeed; the configuration
  for kernels before 6.1; RCU, memory ordering and the races that a missing lock would allow.  The step
  relation of \<open>Lse_Module\<close> leaves out the switch \<open>slim_walt_ctrl\<close>, a window that shrinks and a write that
  starts other CPUs' shadow ticks, which \<open>Lse_Safe\<close> admits; \<open>window_shrink_overload\<close>,
  \<open>frame_per_sec_unchecked\<close> and \<open>shadow_remote_start_dies\<close> show what these do.  The text the kernel's
  \<open>proc_dointvec\<close> and its relatives accept is a parameter.
\<close>

end
